(* ===== verification/Prelude.thy ===== *)
theory Prelude
  imports Main "HOL-Library.Word"
begin

section \<open>Shared vocabulary: machine integers, outcomes, list lemmas\<close>

text \<open>
  What every component of the model uses: names for Rust's machine integers, the outcome of
  a fallible operation (a value, an \<^verbatim>\<open>io::Error\<close> or a panic), the \<^verbatim>\<open>?\<close> operator on state-passing
  code, checked arithmetic with and without \<^verbatim>\<open>overflow-checks\<close>, and the generic lemmas on
  lists, maps and words that the component proofs share.
\<close>

subsection \<open>Machine integers\<close>

text \<open>
  \<^verbatim>\<open>i64\<close> is a 64-bit word read with \<^const>\<open>sint\<close> and compared with the signed order;
  \<^verbatim>\<open>usize\<close> values (indices and lengths of vectors) are natural numbers, because no
  \<^verbatim>\<open>usize\<close> of the program comes near \<open>2 ^ 64\<close>.
\<close>

type_synonym u8 = "8 word"
type_synonym u16 = "16 word"
type_synonym u32 = "32 word"
type_synonym u64 = "64 word"
type_synonym u128 = "128 word"
type_synonym i64 = "64 word"
type_synonym bytes = "u8 list"

definition i64_max :: i64 where
  "i64_max = 9223372036854775807"

subsection \<open>Outcomes\<close>

datatype error_kind = WouldBlock | TimedOut | Other | OsKind nat

datatype io_error = IoError (err_kind: error_kind) (err_msg: string)

datatype 'a outcome = Ok 'a | Err io_error | Panic

text \<open>
  \<open>and_then m f\<close> is Rust's \<^verbatim>\<open>let x = m?; f\<close> on code that passes a state: an error or a panic
  returns at once with the state reached so far.
\<close>

fun and_then :: "'a outcome \<times> 's \<Rightarrow> ('a \<Rightarrow> 's \<Rightarrow> 'b outcome \<times> 's) \<Rightarrow> 'b outcome \<times> 's" where
  "and_then (Ok x, s) f = f x s"
| "and_then (Err e, s) f = (Err e, s)"
| "and_then (Panic, s) f = (Panic, s)"

fun bind_outcome :: "'a outcome \<Rightarrow> ('a \<Rightarrow> 'b outcome) \<Rightarrow> 'b outcome" where
  "bind_outcome (Ok x) f = f x"
| "bind_outcome (Err e) f = Err e"
| "bind_outcome Panic f = Panic"

text \<open>\<^verbatim>\<open>unwrap\<close> turns an error into a panic.\<close>

fun unwrap :: "'a outcome \<times> 's \<Rightarrow> 'a outcome \<times> 's" where
  "unwrap (Ok x, s) = (Ok x, s)"
| "unwrap (Err e, s) = (Panic, s)"
| "unwrap (Panic, s) = (Panic, s)"

definition unwrap_opt :: "'a option \<Rightarrow> 'a outcome" where
  "unwrap_opt r = (case r of Some x \<Rightarrow> Ok x | None \<Rightarrow> Panic)"

fun is_ok :: "'a outcome \<Rightarrow> bool" where
  "is_ok (Ok x) = True"
| "is_ok (Err e) = False"
| "is_ok Panic = False"

named_theorems outcome_iff
  \<comment> \<open>when a composed outcome is a value, an error or a panic\<close>

lemma and_then_Ok_iff [outcome_iff]:
  "and_then m f = (Ok y, t) \<longleftrightarrow> (\<exists>x s. m = (Ok x, s) \<and> f x s = (Ok y, t))"
  by (cases "(m, f)" rule: and_then.cases) auto

lemma bind_outcome_Ok_iff [outcome_iff]:
  "bind_outcome m f = Ok y \<longleftrightarrow> (\<exists>x. m = Ok x \<and> f x = Ok y)"
  by (cases m) auto

lemma bind_outcome_Panic_iff [outcome_iff]:
  "bind_outcome m f = Panic \<longleftrightarrow> m = Panic \<or> (\<exists>x. m = Ok x \<and> f x = Panic)"
  by (cases m) auto

lemma and_then_Panic_iff [outcome_iff]:
  "fst (and_then m f) = Panic \<longleftrightarrow> fst m = Panic \<or> (\<exists>x s. m = (Ok x, s) \<and> fst (f x s) = Panic)"
  by (cases "(m, f)" rule: and_then.cases) auto

lemma unwrap_Ok_iff [outcome_iff]: "unwrap m = (Ok x, s) \<longleftrightarrow> m = (Ok x, s)"
  by (cases m rule: unwrap.cases) auto

lemma unwrap_Panic_iff [outcome_iff]: "fst (unwrap m) = Panic \<longleftrightarrow> \<not> is_ok (fst m)"
  by (cases m rule: unwrap.cases) auto

lemma and_then_assoc: "and_then (and_then m f) g = and_then m (\<lambda>x s. and_then (f x s) g)"
  by (cases "(m, f)" rule: and_then.cases) auto

lemma and_then_Ok_unit: "and_then m (\<lambda>_ s. (Ok (), s)) = (m :: unit outcome \<times> 's)"
  by (cases m; cases "fst m") auto

lemma is_ok_iff [outcome_iff]: "is_ok r \<longleftrightarrow> (\<exists>x. r = Ok x)"
  by (cases r) auto

subsection \<open>Arithmetic of \<^verbatim>\<open>u16\<close> under either overflow mode\<close>

text \<open>
  \<open>chk\<close> is the build's \<^verbatim>\<open>overflow-checks\<close> switch: on (debug builds) an overflow panics, off
  (release builds) it wraps.
\<close>

definition u16_sub :: "bool \<Rightarrow> u16 \<Rightarrow> u16 \<Rightarrow> u16 outcome" where
  "u16_sub chk a b = (if chk \<and> a < b then Panic else Ok (a - b))"

definition u16_add :: "bool \<Rightarrow> u16 \<Rightarrow> u16 \<Rightarrow> u16 outcome" where
  "u16_add chk a b = (if chk \<and> 65536 \<le> unat a + unat b then Panic else Ok (a + b))"

definition u16_overflowing_add :: "u16 \<Rightarrow> u16 \<Rightarrow> u16 \<times> bool" where
  "u16_overflowing_add a b = (a + b, 65536 \<le> unat a + unat b)"

lemma u16_sub_ok: "b \<le> a \<Longrightarrow> u16_sub chk a b = Ok (a - b)"
  by (auto simp: u16_sub_def)

lemma u16_add_ok: "unat a + unat b < 65536 \<Longrightarrow> u16_add chk a b = Ok (a + b)"
  by (auto simp: u16_add_def)

lemma unat_sub_u16: "b \<le> a \<Longrightarrow> unat (a - b :: u16) = unat a - unat b"
  by (rule unat_sub)

lemma unat_add_u16: "unat a + unat b < 65536 \<Longrightarrow> unat (a + b :: u16) = unat a + unat b"
  by (subst unat_add_lem [THEN iffD1]) simp_all

lemma unat_u16_bound: "unat (a :: u16) < 65536"
  using unsigned_less [of a, where ?'a = nat] by simp

subsection \<open>Signed 64-bit arithmetic\<close>

lemma sint_i64_bounds: "- (2 ^ 63) \<le> sint (a :: i64)" "sint (a :: i64) < 2 ^ 63"
  using sint_greater_eq [of a] sint_less [of a] by simp_all

lemma sint_minus_i64:
  assumes "- (2 ^ 63) \<le> sint a - sint b" and "sint a - sint b < 2 ^ 63"
  shows "sint (a - b :: i64) = sint a - sint b"
proof -
  have "sint (a - b) = signed_take_bit 63 (sint a - sint b)"
    by (simp add: sint_word_ariths)
  also have "\<dots> = sint a - sint b"
    using assms by (intro signed_take_bit_int_eq_self) simp_all
  finally show ?thesis .
qed

lemma sint_i64_max: "sint i64_max = 2 ^ 63 - 1"
  by (simp add: i64_max_def)

text \<open>Subtraction under either overflow mode; \<open>i64_fits\<close> says that it does not overflow.\<close>

definition i64_fits :: "i64 \<Rightarrow> i64 \<Rightarrow> bool" where
  "i64_fits a b \<longleftrightarrow> - (2 ^ 63) \<le> sint a - sint b \<and> sint a - sint b < 2 ^ 63"

definition i64_sub :: "bool \<Rightarrow> i64 \<Rightarrow> i64 \<Rightarrow> i64 outcome" where
  "i64_sub chk a b = (if chk \<and> \<not> i64_fits a b then Panic else Ok (a - b))"

lemma i64_sub_fits: "i64_fits a b \<Longrightarrow> i64_sub chk a b = Ok (a - b)"
  by (simp add: i64_sub_def)

lemma sint_diff_fits: "i64_fits a b \<Longrightarrow> sint (a - b) = sint a - sint b"
  unfolding i64_fits_def by (rule sint_minus_i64) simp_all

lemma i64_fits_nonneg: "0 \<le> sint a \<Longrightarrow> 0 \<le> sint b \<Longrightarrow> i64_fits a b"
  using sint_i64_bounds [of a] sint_i64_bounds [of b] unfolding i64_fits_def by linarith

subsection \<open>Lists\<close>

text \<open>\<^verbatim>\<open>Vec::get\<close>: the element, or \<open>None\<close> out of range.\<close>

definition vec_get :: "'a list \<Rightarrow> nat \<Rightarrow> 'a option" where
  "vec_get xs i = (if i < length xs then Some (xs ! i) else None)"

lemma vec_get_Some_iff: "vec_get xs i = Some x \<longleftrightarrow> i < length xs \<and> xs ! i = x"
  by (auto simp: vec_get_def)

lemma vec_get_simps [simp]:
  "vec_get [] i = None"
  "vec_get (x # xs) 0 = Some x"
  "vec_get (x # xs) (Suc i) = vec_get xs i"
  by (simp_all add: vec_get_def)

text \<open>\<^verbatim>\<open>&v[a..b]\<close>: the slice, or a panic when the range is not inside the vector.\<close>

definition slice :: "'a list \<Rightarrow> nat \<Rightarrow> nat \<Rightarrow> 'a list outcome" where
  "slice xs a b = (if a \<le> b \<and> b \<le> length xs then Ok (take (b - a) (drop a xs)) else Panic)"

lemma slice_ok: "a \<le> b \<Longrightarrow> b \<le> length xs \<Longrightarrow> slice xs a b = Ok (take (b - a) (drop a xs))"
  by (simp add: slice_def)

lemma slice_Ok_iff: "slice xs a b = Ok ys \<longleftrightarrow> a \<le> b \<and> b \<le> length xs \<and> ys = take (b - a) (drop a xs)"
  by (auto simp: slice_def)

lemma map_of_filter_key: "map_of (filter (\<lambda>p. fst p \<noteq> i) l) = (map_of l)(i := None)"
  by (induction l) (auto simp: fun_eq_iff)

lemma map_of_append_new:
  "map_of l i = None \<Longrightarrow> map_of (l @ [(i, r)]) = (map_of l)(i \<mapsto> r)"
  by (induction l) (auto simp: fun_eq_iff map_add_def split: if_splits)

lemma map_of_replace_at:
  "map_of (map (\<lambda>p. (fst p, if fst p = i then r else snd p)) l) j =
     (if j = i then map_option (\<lambda>_. r) (map_of l i) else map_of l j)"
  by (induction l) auto

lemma map_of_replace:
  "map_of l i = Some old \<Longrightarrow>
   map_of (map (\<lambda>p. (fst p, if fst p = i then r else snd p)) l) = (map_of l)(i \<mapsto> r)"
  by (rule ext) (simp add: map_of_replace_at)

subsection \<open>Iterating a map\<close>

text \<open>
  The program iterates two maps whose crates are not modelled: the iteration is an argument \<open>it\<close>.
  What the code relies on is the documented behaviour: every entry once, and for the skip list in
  ascending order of the keys.
\<close>

definition iterates_map :: "(('k \<rightharpoonup> 'v) \<Rightarrow> ('k \<times> 'v) list) \<Rightarrow> bool" where
  "iterates_map it \<longleftrightarrow>
     (\<forall>m. finite (dom m) \<longrightarrow> distinct (map fst (it m)) \<and> map_of (it m) = m)"

definition iterates_in_order :: "(('k::linorder \<rightharpoonup> 'v) \<Rightarrow> ('k \<times> 'v) list) \<Rightarrow> bool" where
  "iterates_in_order it \<longleftrightarrow>
     iterates_map it \<and> (\<forall>m. finite (dom m) \<longrightarrow> sorted (map fst (it m)))"

definition sorted_iter :: "('k::linorder \<rightharpoonup> 'v) \<Rightarrow> ('k \<times> 'v) list" where
  "sorted_iter m = map (\<lambda>k. (k, the (m k))) (sorted_list_of_set (dom m))"

lemma map_fst_sorted_iter: "map fst (sorted_iter m) = sorted_list_of_set (dom m)"
  by (simp add: sorted_iter_def comp_def)

lemma map_of_sorted_iter: "finite (dom m) \<Longrightarrow> map_of (sorted_iter m) = m"
  by (rule ext) (auto simp: sorted_iter_def map_of_map_restrict restrict_map_def dom_def)

lemma sorted_iter_iterates: "iterates_map sorted_iter"
  by (simp add: iterates_map_def map_fst_sorted_iter map_of_sorted_iter)

lemma sorted_iter_in_order: "iterates_in_order sorted_iter"
  by (simp add: iterates_in_order_def sorted_iter_iterates map_fst_sorted_iter)

subsection \<open>Reachable states\<close>

inductive reachable :: "('s \<Rightarrow> bool) \<Rightarrow> ('s \<Rightarrow> 's \<Rightarrow> bool) \<Rightarrow> 's \<Rightarrow> bool" for I R where
  start: "I s \<Longrightarrow> reachable I R s"
| step: "reachable I R s \<Longrightarrow> R s t \<Longrightarrow> reachable I R t"

lemma reachable_invariant:
  assumes "reachable I R s" and "\<And>s. I s \<Longrightarrow> J s" and "\<And>s t. J s \<Longrightarrow> R s t \<Longrightarrow> J t"
  shows "J s"
  using assms by (induction rule: reachable.induct) blast+

lemma reachable_steps: "R\<^sup>*\<^sup>* s t \<Longrightarrow> reachable I R s \<Longrightarrow> reachable I R t"
  by (erule rtranclp_induct) (auto intro: reachable.step)

end

