(* ===== verification/Net_Types.thy ===== *)
theory Net_Types
  imports Prelude "HOL-Library.Product_Lexorder"
begin

section \<open>Network addresses of \<^verbatim>\<open>std::net\<close>\<close>

text \<open>
  The address types of Rust's standard library as far as the program uses them, with the
  total order their derived \<^verbatim>\<open>Ord\<close> gives (IPv4 before IPv6, then the fields in declaration
  order). The skip list of routes is sorted by this order.
\<close>

datatype ip_addr = IpV4 u32 | IpV6 u128

datatype socket_addr = SockV4 (sa4_ip: u32) (sa4_port: u16)
  | SockV6 (sa6_ip: u128) (sa6_port: u16) (sa6_flowinfo: u32) (sa6_scope: u32)

text \<open>\<^verbatim>\<open>SocketAddr::new\<close>, \<^verbatim>\<open>SocketAddr::is_ipv4\<close> and \<^verbatim>\<open>IpAddr::is_unspecified\<close>.\<close>

fun socket_addr_new :: "ip_addr \<Rightarrow> u16 \<Rightarrow> socket_addr" where
  "socket_addr_new (IpV4 a) p = SockV4 a p"
| "socket_addr_new (IpV6 a) p = SockV6 a p 0 0"

fun is_ipv4 :: "socket_addr \<Rightarrow> bool" where
  "is_ipv4 (SockV4 a p) = True"
| "is_ipv4 (SockV6 a p f s) = False"

fun is_unspecified :: "ip_addr \<Rightarrow> bool" where
  "is_unspecified (IpV4 a) = (a = 0)"
| "is_unspecified (IpV6 a) = (a = 0)"

fun port_of :: "socket_addr \<Rightarrow> u16" where
  "port_of (SockV4 a p) = p"
| "port_of (SockV6 a p f s) = p"

lemma socket_addr_new_inject [simp]:
  "socket_addr_new a p = socket_addr_new b q \<longleftrightarrow> a = b \<and> p = q"
  by (cases a; cases b) auto

lemma port_of_new [simp]: "port_of (socket_addr_new a p) = p"
  by (cases a) auto

subsection \<open>The derived order\<close>

fun addr_rank :: "socket_addr \<Rightarrow> nat \<times> nat \<times> nat \<times> nat \<times> nat" where
  "addr_rank (SockV4 a p) = (0, unat a, unat p, 0, 0)"
| "addr_rank (SockV6 a p f s) = (1, unat a, unat p, unat f, unat s)"

lemma addr_rank_inj: "addr_rank a = addr_rank b \<longleftrightarrow> a = b"
  by (cases a; cases b) (auto simp: word_unat_eq_iff)

instantiation socket_addr :: linorder
begin

definition less_eq_socket_addr :: "socket_addr \<Rightarrow> socket_addr \<Rightarrow> bool" where
  "a \<le> b \<longleftrightarrow> addr_rank a \<le> addr_rank b"

definition less_socket_addr :: "socket_addr \<Rightarrow> socket_addr \<Rightarrow> bool" where
  "a < b \<longleftrightarrow> addr_rank a < addr_rank b"

instance
  by standard (auto simp: less_eq_socket_addr_def less_socket_addr_def addr_rank_inj
      less_le_not_le)

end

end
