(* ===== verification/Routes.thy ===== *)
theory Routes
  imports Net_Types
begin

section \<open>The route tables\<close>

text \<open>
  \<^verbatim>\<open>Route\<close> and \<^verbatim>\<open>RouteKey\<close> of \<^verbatim>\<open>src/channel/mod.rs\<close> and the operations of \<^verbatim>\<open>src/channel/sender.rs\<close>
  on the two shared tables: \<open>direct_route_table\<close> (peer id to route) and
  \<open>direct_route_table_time\<close> (route key to the ids behind that key, with the times of the last
  read and the last write). The concurrent maps of the crates \<^verbatim>\<open>dashmap\<close> and
  \<^verbatim>\<open>crossbeam_skiplist\<close> are finite maps here, with the \<^verbatim>\<open>get\<close>/\<^verbatim>\<open>insert\<close>/\<^verbatim>\<open>remove\<close> their
  documentation gives; the order in which they are iterated is an argument of the operations that
  iterate. The clock reading \<^verbatim>\<open>chrono::Local::now().timestamp_millis()\<close> is an argument. Each
  operation that holds the mutex \<^verbatim>\<open>lock\<close> is one step here.
\<close>

subsection \<open>Routes and route keys\<close>

datatype route_key = RouteKey (rk_index: nat) (rk_addr: socket_addr)

record route =
  r_index :: nat
  r_addr :: socket_addr
  r_metric :: u8
  r_rt :: i64

definition route_new :: "nat \<Rightarrow> socket_addr \<Rightarrow> u8 \<Rightarrow> i64 \<Rightarrow> route" where
  "route_new i a m t = \<lparr>r_index = i, r_addr = a, r_metric = m, r_rt = t\<rparr>"

definition route_from :: "route_key \<Rightarrow> u8 \<Rightarrow> i64 \<Rightarrow> route" where
  "route_from k m t = \<lparr>r_index = rk_index k, r_addr = rk_addr k, r_metric = m, r_rt = t\<rparr>"

definition route_key :: "route \<Rightarrow> route_key" where
  "route_key r = RouteKey (r_index r) (r_addr r)"

lemma route_key_from [simp]: "route_key (route_from k m t) = k"
  by (cases k) (simp add: route_key_def route_from_def)

lemma route_key_new [simp]: "route_key (route_new i a m t) = RouteKey i a"
  by (simp add: route_key_def route_new_def)

lemma route_key_update [simp]: "route_key (r\<lparr>r_metric := m, r_rt := t\<rparr>) = route_key r"
  by (simp add: route_key_def)

text \<open>The derived \<^verbatim>\<open>Ord\<close> of \<^verbatim>\<open>RouteKey\<close>: the index first, then the address.\<close>

definition rk_rank :: "route_key \<Rightarrow> nat \<times> socket_addr" where
  "rk_rank k = (rk_index k, rk_addr k)"

lemma rk_rank_inj: "rk_rank a = rk_rank b \<longleftrightarrow> a = b"
  by (cases a; cases b) (auto simp: rk_rank_def)

instantiation route_key :: linorder
begin

definition less_eq_route_key :: "route_key \<Rightarrow> route_key \<Rightarrow> bool" where
  "a \<le> b \<longleftrightarrow> rk_rank a \<le> rk_rank b"

definition less_route_key :: "route_key \<Rightarrow> route_key \<Rightarrow> bool" where
  "a < b \<longleftrightarrow> rk_rank a < rk_rank b"

instance
  by standard (auto simp: less_eq_route_key_def less_route_key_def rk_rank_inj less_le_not_le)

end

subsection \<open>The two tables\<close>

record 'id time_entry =
  te_ids :: "'id list"
  te_read :: i64
  te_write :: i64

type_synonym 'id time_table = "route_key \<rightharpoonup> 'id time_entry"

record 'id tables =
  direct_route_table :: "'id \<rightharpoonup> route"
  direct_route_table_time :: "'id time_table"

definition tables_new :: "'id tables" where
  "tables_new = \<lparr>direct_route_table = Map.empty, direct_route_table_time = Map.empty\<rparr>"

subsection \<open>Operations\<close>

text \<open>\<^verbatim>\<open>remove_id_route_\<close>: take an id off a key; the key goes with its last id.\<close>

definition remove_id_route :: "'id \<Rightarrow> route_key \<Rightarrow> 'id time_table \<Rightarrow> 'id time_table" where
  "remove_id_route i k tt =
     (case tt k of
        None \<Rightarrow> tt
      | Some e \<Rightarrow>
          let ids = filter (\<lambda>v. v \<noteq> i) (te_ids e) in
          if ids = [] then tt(k := None) else tt(k \<mapsto> e\<lparr>te_ids := ids\<rparr>))"

text \<open>\<^verbatim>\<open>add_route_\<close>; \<open>now\<close> is read only where a new key is entered.\<close>

definition add_route :: "'id \<Rightarrow> route \<Rightarrow> i64 \<Rightarrow> 'id tables \<Rightarrow> 'id tables" where
  "add_route i r now t =
     (let k = route_key r;
          tt = (case direct_route_table t i of
                  None \<Rightarrow> direct_route_table_time t
                | Some old \<Rightarrow>
                    if route_key old \<noteq> k
                    then remove_id_route i (route_key old) (direct_route_table_time t)
                    else direct_route_table_time t);
          tt' = (case tt k of
                   Some e \<Rightarrow>
                     if i \<in> set (te_ids e) then tt
                     else tt(k \<mapsto> e\<lparr>te_ids := te_ids e @ [i]\<rparr>)
                 | None \<Rightarrow> tt(k \<mapsto> \<lparr>te_ids = [i], te_read = now, te_write = now\<rparr>))
      in \<lparr>direct_route_table = (direct_route_table t)(i \<mapsto> r),
          direct_route_table_time = tt'\<rparr>)"

text \<open>\<^verbatim>\<open>update_route_\<close>: metric and round-trip time only, never the key.\<close>

definition update_route :: "'id \<Rightarrow> u8 \<Rightarrow> i64 \<Rightarrow> 'id tables \<Rightarrow> 'id tables" where
  "update_route i m rt t =
     (case direct_route_table t i of
        None \<Rightarrow> t
      | Some v \<Rightarrow> t\<lparr>direct_route_table :=
          (direct_route_table t)(i \<mapsto> v\<lparr>r_metric := m, r_rt := rt\<rparr>)\<rparr>)"

definition route_of :: "'id \<Rightarrow> 'id tables \<Rightarrow> route option" where
  "route_of i t = direct_route_table t i"

definition remove_route :: "'id \<Rightarrow> 'id tables \<Rightarrow> 'id tables" where
  "remove_route i t =
     (case direct_route_table t i of
        None \<Rightarrow> t
      | Some r \<Rightarrow> \<lparr>direct_route_table = (direct_route_table t)(i := None),
                   direct_route_table_time =
                     remove_id_route i (route_key r) (direct_route_table_time t)\<rparr>)"

definition route_to_id :: "route_key \<Rightarrow> 'id tables \<Rightarrow> 'id option" where
  "route_to_id k t =
     (case direct_route_table_time t k of
        None \<Rightarrow> None
      | Some e \<Rightarrow> vec_get (te_ids e) 0)"

text \<open>
  \<^verbatim>\<open>route_table_\<close> collects the pairs in the order in which the map is iterated (\<open>it\<close>).
\<close>

definition route_table :: "(('id \<rightharpoonup> route) \<Rightarrow> ('id \<times> route) list) \<Rightarrow> 'id tables \<Rightarrow> ('id \<times> route) list" where
  "route_table it t = map (\<lambda>e. (fst e, snd e)) (it (direct_route_table t))"

text \<open>
  \<^verbatim>\<open>Channel::update_time\<close> (a datagram was received on the key) and the store at the head of both
  \<^verbatim>\<open>send_to_route\<close> functions (a datagram is sent to it).
\<close>

definition touch_read :: "route_key \<Rightarrow> i64 \<Rightarrow> 'id tables \<Rightarrow> 'id tables" where
  "touch_read k now t =
     (case direct_route_table_time t k of
        None \<Rightarrow> t
      | Some e \<Rightarrow> t\<lparr>direct_route_table_time :=
          (direct_route_table_time t)(k \<mapsto> e\<lparr>te_read := now\<rparr>)\<rparr>)"

definition touch_write :: "route_key \<Rightarrow> i64 \<Rightarrow> 'id tables \<Rightarrow> 'id tables" where
  "touch_write k now t =
     (case direct_route_table_time t k of
        None \<Rightarrow> t
      | Some e \<Rightarrow> t\<lparr>direct_route_table_time :=
          (direct_route_table_time t)(k \<mapsto> e\<lparr>te_write := now\<rparr>)\<rparr>)"

subsection \<open>The abstract route store\<close>

text \<open>
  What the tables promise: one list of (id, route) pairs, in the order in which each id joined its
  current key. Every id has one route; the ids behind a key are the pairs with that key, oldest
  first. Adding an id under the key it already has keeps its place; under another key it moves to
  the end.
\<close>

type_synonym 'id store = "('id \<times> route) list"

definition ids_at :: "route_key \<Rightarrow> 'id store \<Rightarrow> 'id list" where
  "ids_at k l = map fst (filter (\<lambda>p. route_key (snd p) = k) l)"

definition spec_add :: "'id \<Rightarrow> route \<Rightarrow> 'id store \<Rightarrow> 'id store" where
  "spec_add i r l =
     (case map_of l i of
        Some old \<Rightarrow>
          if route_key old = route_key r
          then map (\<lambda>p. (fst p, if fst p = i then r else snd p)) l
          else filter (\<lambda>p. fst p \<noteq> i) l @ [(i, r)]
      | None \<Rightarrow> l @ [(i, r)])"

definition spec_update :: "'id \<Rightarrow> u8 \<Rightarrow> i64 \<Rightarrow> 'id store \<Rightarrow> 'id store" where
  "spec_update i m rt l =
     map (\<lambda>p. (fst p, if fst p = i then (snd p)\<lparr>r_metric := m, r_rt := rt\<rparr> else snd p)) l"

definition spec_remove :: "'id \<Rightarrow> 'id store \<Rightarrow> 'id store" where
  "spec_remove i l = filter (\<lambda>p. fst p \<noteq> i) l"

definition times_rel :: "'id store \<Rightarrow> 'id time_table \<Rightarrow> bool" where
  "times_rel l tt \<longleftrightarrow>
     (\<forall>k. case tt k of
            None \<Rightarrow> ids_at k l = []
          | Some e \<Rightarrow> te_ids e = ids_at k l \<and> te_ids e \<noteq> [])"

definition store_rel :: "'id store \<Rightarrow> 'id tables \<Rightarrow> bool" where
  "store_rel l t \<longleftrightarrow>
     distinct (map fst l) \<and> direct_route_table t = map_of l \<and>
     times_rel l (direct_route_table_time t)"

subsection \<open>Lemmas: the ids behind a key\<close>

named_theorems store_simps \<comment> \<open>how the abstract operations act on \<open>ids_at\<close> and \<open>map_of\<close>\<close>

lemma ids_at_filter [store_simps]:
  "ids_at k (filter (\<lambda>p. fst p \<noteq> i) l) = filter (\<lambda>v. v \<noteq> i) (ids_at k l)"
  by (induction l) (auto simp: ids_at_def)

lemma ids_at_append [store_simps]:
  "ids_at k (l @ [(i, r)]) = ids_at k l @ (if route_key r = k then [i] else [])"
  by (simp add: ids_at_def)

lemma ids_at_map_value:
  assumes "\<And>p. p \<in> set l \<Longrightarrow> route_key (f p) = route_key (snd p)"
  shows "ids_at k (map (\<lambda>p. (fst p, f p)) l) = ids_at k l"
  using assms by (induction l) (auto simp: ids_at_def)

lemma set_ids_at:
  "distinct (map fst l) \<Longrightarrow>
   i \<in> set (ids_at k l) \<longleftrightarrow> (\<exists>r. map_of l i = Some r \<and> route_key r = k)"
  by (force simp: ids_at_def)

lemma ids_at_not_mem [store_simps]:
  "distinct (map fst l) \<Longrightarrow> map_of l i = None \<Longrightarrow> filter (\<lambda>v. v \<noteq> i) (ids_at k l) = ids_at k l"
  by (intro filter_True) (auto simp: set_ids_at)

lemma filter_other_key:
  "distinct (map fst l) \<Longrightarrow> map_of l i = Some r \<Longrightarrow> k \<noteq> route_key r \<Longrightarrow>
   filter (\<lambda>v. v \<noteq> i) (ids_at k l) = ids_at k l"
  by (intro filter_True) (auto simp: set_ids_at)

lemma distinct_ids_at: "distinct (map fst l) \<Longrightarrow> distinct (ids_at k l)"
  by (simp add: ids_at_def distinct_map_filter)

lemma times_rel_Some:
  "times_rel l tt \<Longrightarrow> tt k = Some e \<Longrightarrow> te_ids e = ids_at k l \<and> ids_at k l \<noteq> []"
  unfolding times_rel_def by (drule spec [of _ k]) auto

lemma times_rel_None: "times_rel l tt \<Longrightarrow> tt k = None \<longleftrightarrow> ids_at k l = []"
  unfolding times_rel_def by (drule spec [of _ k]) (auto split: option.splits)

lemma times_relI:
  assumes "\<And>k. tt k = None \<Longrightarrow> ids_at k l = []"
    and "\<And>k e. tt k = Some e \<Longrightarrow> te_ids e = ids_at k l \<and> te_ids e \<noteq> []"
  shows "times_rel l tt"
  unfolding times_rel_def
proof
  fix k
  show "case tt k of None \<Rightarrow> ids_at k l = [] | Some e \<Rightarrow> te_ids e = ids_at k l \<and> te_ids e \<noteq> []"
    using assms(1) [of k] assms(2) [of k] by (cases "tt k") auto
qed

lemma times_rel_cong:
  assumes "\<And>k. ids_at k l' = ids_at k l"
  shows "times_rel l' tt = times_rel l tt"
  unfolding times_rel_def assms ..

subsection \<open>Every operation simulates the abstract one\<close>

lemma times_rel_remove_id:
  assumes "distinct (map fst l)" and "times_rel l tt" and "map_of l i = Some r"
  shows "times_rel (filter (\<lambda>p. fst p \<noteq> i) l) (remove_id_route i (route_key r) tt)"
    (is "times_rel ?l ?tt")
proof -
  from assms obtain e where e: "tt (route_key r) = Some e" "te_ids e = ids_at (route_key r) l"
    by (metis empty_iff empty_set option.exhaust set_ids_at times_rel_None times_rel_Some)
  note other = filter_other_key [OF assms(1,3)]
  show ?thesis
  proof (rule times_relI)
    fix k
    assume "?tt k = None"
    with e assms(2) show "ids_at k ?l = []"
      by (cases "k = route_key r")
        (auto simp: remove_id_route_def Let_def store_simps other times_rel_None split: if_splits)
  next
    fix k e'
    assume "?tt k = Some e'"
    with e assms(2) show "te_ids e' = ids_at k ?l \<and> te_ids e' \<noteq> []"
      by (cases "k = route_key r")
        (auto simp: remove_id_route_def Let_def store_simps other dest: times_rel_Some
          split: if_splits)
  qed
qed

lemma distinct_filter_key:
  "distinct (map fst l) \<Longrightarrow> distinct (map fst (filter (\<lambda>p. fst p \<noteq> i) l))"
  by (rule distinct_map_filter)

lemma store_rel_remove:
  assumes "store_rel l t"
  shows "store_rel (spec_remove i l) (remove_route i t)"
proof (cases "map_of l i")
  case None
  then have "\<forall>p \<in> set l. fst p \<noteq> i"
    by (auto simp: map_of_eq_None_iff)
  then have "spec_remove i l = l"
    by (simp add: spec_remove_def)
  with None assms show ?thesis
    by (simp add: remove_route_def store_rel_def)
next
  case (Some r)
  with assms times_rel_remove_id [of l _ i r] distinct_filter_key show ?thesis
    by (auto simp: remove_route_def store_rel_def spec_remove_def map_of_filter_key)
qed

lemma map_of_spec_update:
  "map_of (spec_update i m rt l) =
     (case map_of l i of None \<Rightarrow> map_of l
      | Some v \<Rightarrow> (map_of l)(i \<mapsto> v\<lparr>r_metric := m, r_rt := rt\<rparr>))"
  by (induction l) (auto simp: spec_update_def fun_eq_iff split: option.splits)

lemma store_rel_update:
  assumes "store_rel l t"
  shows "store_rel (spec_update i m rt l) (update_route i m rt t)"
proof -
  have ids: "ids_at k (spec_update i m rt l) = ids_at k l" for k
    unfolding spec_update_def by (rule ids_at_map_value) simp
  have tr: "times_rel (spec_update i m rt l) tt = times_rel l tt" for tt
    by (rule times_rel_cong) (rule ids)
  have "map_of (spec_update i m rt l) =
      (case map_of l i of None \<Rightarrow> map_of l
       | Some v \<Rightarrow> (map_of l)(i \<mapsto> v\<lparr>r_metric := m, r_rt := rt\<rparr>))"
    by (rule map_of_spec_update)
  moreover have "map fst (spec_update i m rt l) = map fst l"
    by (simp add: spec_update_def)
  ultimately show ?thesis
    using assms
    by (cases "map_of l i") (simp_all add: store_rel_def update_route_def tr)
qed

lemma times_rel_upd:
  assumes "times_rel l tt" and "ids_at k l' = te_ids e" and "te_ids e \<noteq> []"
    and "\<And>k'. k' \<noteq> k \<Longrightarrow> ids_at k' l' = ids_at k' l"
  shows "times_rel l' (tt(k \<mapsto> e))"
  using assms by (intro times_relI) (auto simp: times_rel_None dest: times_rel_Some split: if_splits)

lemma store_rel_touch:
  assumes "store_rel l t"
  shows "store_rel l (touch_read k now t)" and "store_rel l (touch_write k now t)"
  using assms times_rel_upd [of l "direct_route_table_time t" k l]
  by (auto simp: store_rel_def touch_read_def touch_write_def dest: times_rel_Some
      split: option.split)

text \<open>
  \<open>times_rel_enter\<close> is about the second half of \<^const>\<open>add_route\<close>: put an id that is in no list behind a key.
\<close>

lemma times_rel_enter:
  assumes "distinct (map fst l)" and "times_rel l tt" and "map_of l i = None"
  shows "times_rel (l @ [(i, r)])
     (case tt (route_key r) of
        Some e \<Rightarrow> if i \<in> set (te_ids e) then tt
                  else tt(route_key r \<mapsto> e\<lparr>te_ids := te_ids e @ [i]\<rparr>)
      | None \<Rightarrow> tt(route_key r \<mapsto> \<lparr>te_ids = [i], te_read = now, te_write = now\<rparr>))"
proof (cases "tt (route_key r)")
  case None
  with assms(2) have "ids_at (route_key r) l = []"
    by (simp add: times_rel_None)
  with None times_rel_upd [OF assms(2)] show ?thesis
    by (simp add: store_simps)
next
  case (Some e)
  with assms(2) have e: "te_ids e = ids_at (route_key r) l"
    by (auto dest: times_rel_Some)
  with assms(1,3) have "i \<notin> set (te_ids e)"
    by (simp add: set_ids_at)
  with Some e times_rel_upd [OF assms(2)] show ?thesis
    by (simp add: store_simps)
qed

lemma store_rel_add_same_key:
  assumes "store_rel l t" and old: "map_of l i = Some old" and key: "route_key old = route_key r"
  shows "store_rel (spec_add i r l) (add_route i r now t)"
proof -
  from assms have d: "distinct (map fst l)" and t: "direct_route_table t = map_of l"
    and tr: "times_rel l (direct_route_table_time t)"
    by (simp_all add: store_rel_def)
  let ?l = "map (\<lambda>p. (fst p, if fst p = i then r else snd p)) l"
  have "route_key (if fst p = i then r else snd p) = route_key (snd p)" if "p \<in> set l" for p
    using that old key map_of_is_SomeI [OF d, of "fst p" "snd p"] by auto
  then have ids: "ids_at k ?l = ids_at k l" for k
    by (rule ids_at_map_value)
  have m: "map_of ?l = (map_of l)(i \<mapsto> r)"
    using old by (rule map_of_replace)
  from old key d have "i \<in> set (ids_at (route_key r) l)"
    by (auto simp: set_ids_at)
  with tr obtain e where "direct_route_table_time t (route_key r) = Some e" "i \<in> set (te_ids e)"
    by (metis empty_iff empty_set option.exhaust times_rel_None times_rel_Some)
  with old key t have "direct_route_table_time (add_route i r now t) = direct_route_table_time t"
    by (simp add: add_route_def Let_def)
  moreover have "spec_add i r l = ?l"
    using old key by (simp add: spec_add_def)
  moreover have "direct_route_table (add_route i r now t) = (map_of l)(i \<mapsto> r)"
    using t by (simp add: add_route_def Let_def)
  ultimately show ?thesis
    using m tr d times_rel_cong [of ?l l, OF ids] by (simp add: store_rel_def comp_def)
qed

lemma store_rel_add:
  assumes "store_rel l t"
  shows "store_rel (spec_add i r l) (add_route i r now t)"
proof (cases "map_of l i")
  case None
  have sa: "spec_add i r l = l @ [(i, r)]"
    using None by (simp add: spec_add_def)
  from assms have "distinct (map fst l)" and "direct_route_table t = map_of l"
    and "times_rel l (direct_route_table_time t)"
    by (simp_all add: store_rel_def)
  moreover have "direct_route_table (add_route i r now t) = map_of (l @ [(i, r)])"
    using calculation by (simp add: add_route_def Let_def map_of_append_new [OF None] del: map_of_append)
  moreover have "times_rel (l @ [(i, r)]) (direct_route_table_time (add_route i r now t))"
    using times_rel_enter [OF calculation(1,3) None] None calculation
    by (simp add: add_route_def Let_def)
  ultimately show ?thesis
    using None by (simp add: store_rel_def sa map_of_eq_None_iff del: map_of_append)
next
  case (Some old)
  show ?thesis
  proof (cases "route_key old = route_key r")
    case True
    with assms Some show ?thesis by (rule store_rel_add_same_key)
  next
    case False
    let ?l = "filter (\<lambda>p. fst p \<noteq> i) l"
    let ?tt = "remove_id_route i (route_key old) (direct_route_table_time t)"
    from assms Some have d: "distinct (map fst ?l)" and tr: "times_rel ?l ?tt"
      by (auto simp: store_rel_def intro: times_rel_remove_id distinct_filter_key)
    have n: "map_of ?l i = None"
      by (simp add: map_of_filter_key)
    have t: "direct_route_table t = map_of l"
      using assms by (simp add: store_rel_def)
    have sa: "spec_add i r l = ?l @ [(i, r)]"
      using Some False by (simp add: spec_add_def)
    show ?thesis
      unfolding store_rel_def sa
    proof (intro conjI)
      show "distinct (map fst (?l @ [(i, r)]))"
        using d by auto
      show "direct_route_table (add_route i r now t) = map_of (?l @ [(i, r)])"
        using t by (simp add: add_route_def Let_def map_of_append_new [OF n] map_of_filter_key del: map_of_append)
      show "times_rel (?l @ [(i, r)]) (direct_route_table_time (add_route i r now t))"
        using times_rel_enter [OF d tr n, of r now] Some False t
        by (simp add: add_route_def Let_def)
    qed
  qed
qed

lemma store_rel_new: "store_rel [] tables_new"
  by (simp add: store_rel_def tables_new_def times_rel_def ids_at_def)

end
