(* ===== verification/Route_Store.thy ===== *)
theory Route_Store
  imports Routes
begin

section \<open>The route tables as a store: contract, invariant, properties\<close>

text \<open>
  The contract that \<^verbatim>\<open>Channel\<close>, \<^verbatim>\<open>Sender\<close> and the users of \<^verbatim>\<open>Idle\<close> rely on when they share the two
  tables, as a locale interpreted on the operations of \<^theory_text>\<open>Routes\<close>; the invariant
  that ties the two tables together; and the properties of every sequence of operations.
\<close>

subsection \<open>The contract of a route store\<close>

locale route_store =
  fixes inv :: "'s \<Rightarrow> bool"
    and add :: "'id \<Rightarrow> route \<Rightarrow> i64 \<Rightarrow> 's \<Rightarrow> 's"
    and update :: "'id \<Rightarrow> u8 \<Rightarrow> i64 \<Rightarrow> 's \<Rightarrow> 's"
    and remove :: "'id \<Rightarrow> 's \<Rightarrow> 's"
    and lookup :: "'id \<Rightarrow> 's \<Rightarrow> route option"
    and members :: "route_key \<Rightarrow> 's \<Rightarrow> 'id list"
    and first :: "route_key \<Rightarrow> 's \<Rightarrow> 'id option"
  assumes inv_add: "inv s \<Longrightarrow> inv (add i r now s)"
    and inv_update: "inv s \<Longrightarrow> inv (update i m rt s)"
    and inv_remove: "inv s \<Longrightarrow> inv (remove i s)"
    and lookup_add: "lookup j (add i r now s) = (if j = i then Some r else lookup j s)"
    and lookup_update: "lookup j (update i m rt s) =
      map_option (\<lambda>r. if j = i then r\<lparr>r_metric := m, r_rt := rt\<rparr> else r) (lookup j s)"
    and lookup_remove: "lookup j (remove i s) = (if j = i then None else lookup j s)"
    and members_iff: "inv s \<Longrightarrow>
      i \<in> set (members k s) \<longleftrightarrow> (\<exists>r. lookup i s = Some r \<and> route_key r = k)"
    and members_distinct: "inv s \<Longrightarrow> distinct (members k s)"
    and first_members: "first k s = (case members k s of [] \<Rightarrow> None | i # _ \<Rightarrow> Some i)"
begin

lemma first_owner:
  assumes "inv s" and "first k s = Some i"
  shows "\<exists>r. lookup i s = Some r \<and> route_key r = k"
proof -
  from assms(2) have "i \<in> set (members k s)"
    by (auto simp: first_members split: list.splits)
  with assms(1) show ?thesis by (simp add: members_iff)
qed

lemma first_None_iff:
  assumes "inv s"
  shows "first k s = None \<longleftrightarrow> (\<forall>i r. lookup i s = Some r \<longrightarrow> route_key r \<noteq> k)"
proof -
  have "first k s = None \<longleftrightarrow> set (members k s) = {}"
    by (simp add: first_members split: list.splits)
  also have "\<dots> \<longleftrightarrow> (\<forall>i. i \<notin> set (members k s))"
    by auto
  finally show ?thesis
    using assms by (auto simp: members_iff)
qed

lemma moved_away:
  assumes "inv s" and "k \<noteq> route_key r"
  shows "i \<notin> set (members k (add i r now s))"
  using assms by (simp add: members_iff inv_add lookup_add)

lemma inv_fold_remove: "inv s \<Longrightarrow> inv (fold remove is s)"
  by (induction "is" arbitrary: s) (simp_all add: inv_remove)

lemma lookup_fold_remove:
  "lookup j (fold remove is s) = (if j \<in> set is then None else lookup j s)"
  by (induction "is" arbitrary: s) (auto simp: lookup_remove)

lemma evict_key:
  assumes "inv s"
  shows "members k (fold remove (members k s) s) = []"
proof -
  have "i \<notin> set (members k (fold remove (members k s) s))" for i
    using assms members_iff [OF assms, of i k]
    by (auto simp: members_iff inv_fold_remove lookup_fold_remove)
  then show ?thesis by (metis list.set_intros(1) neq_Nil_conv)
qed

lemma evict_others:
  assumes "inv s" and "lookup j s = Some r" and "route_key r \<noteq> k"
  shows "lookup j (fold remove (members k s) s) = Some r"
  using assms by (auto simp: lookup_fold_remove members_iff)

end

subsection \<open>The tables fulfil it\<close>

definition tables_ok :: "'id tables \<Rightarrow> bool" where
  "tables_ok t \<longleftrightarrow> (\<exists>l. store_rel l t)"

definition ids_behind :: "route_key \<Rightarrow> 'id tables \<Rightarrow> 'id list" where
  "ids_behind k t = (case direct_route_table_time t k of None \<Rightarrow> [] | Some e \<Rightarrow> te_ids e)"

lemma store_rel_ids_behind: "store_rel l t \<Longrightarrow> ids_behind k t = ids_at k l"
  by (cases "direct_route_table_time t k")
    (auto simp: store_rel_def ids_behind_def times_rel_None dest: times_rel_Some)

lemma store_rel_lookup: "store_rel l t \<Longrightarrow> route_of i t = map_of l i"
  by (simp add: store_rel_def route_of_def)

lemma tables_ok_new: "tables_ok tables_new"
  using store_rel_new by (auto simp: tables_ok_def)

lemma route_of_add: "route_of j (add_route i r now t) = (if j = i then Some r else route_of j t)"
  by (simp add: route_of_def add_route_def Let_def)

lemma route_of_update:
  "route_of j (update_route i m rt t) =
     map_option (\<lambda>r. if j = i then r\<lparr>r_metric := m, r_rt := rt\<rparr> else r) (route_of j t)"
  by (cases "direct_route_table t i"; cases "direct_route_table t j")
    (auto simp: route_of_def update_route_def)

lemma route_of_remove: "route_of j (remove_route i t) = (if j = i then None else route_of j t)"
  by (auto simp: route_of_def remove_route_def split: option.split)

interpretation rs: route_store tables_ok add_route update_route remove_route route_of
  ids_behind route_to_id
proof unfold_locales
  fix t :: "'a tables" and i j k r now m rt
  show "tables_ok t \<Longrightarrow> tables_ok (add_route i r now t)"
    and "tables_ok t \<Longrightarrow> tables_ok (update_route i m rt t)"
    and "tables_ok t \<Longrightarrow> tables_ok (remove_route i t)"
    unfolding tables_ok_def by (blast intro: store_rel_add store_rel_update store_rel_remove)+
  show "tables_ok t \<Longrightarrow>
      i \<in> set (ids_behind k t) \<longleftrightarrow> (\<exists>r. route_of i t = Some r \<and> route_key r = k)"
    and "tables_ok t \<Longrightarrow> distinct (ids_behind k t)"
    by (auto simp: tables_ok_def store_rel_ids_behind store_rel_lookup)
      (auto simp: store_rel_def set_ids_at distinct_ids_at)
  show "route_to_id k t = (case ids_behind k t of [] \<Rightarrow> None | i # _ \<Rightarrow> Some i)"
    by (auto simp: route_to_id_def ids_behind_def split: option.split list.split)
qed (simp_all add: route_of_add route_of_update route_of_remove)

subsection \<open>Sequences of operations\<close>

text \<open>
  Everything the program ever does to the tables: the four table operations and the two clock
  stores, each with the clock reading it takes.
\<close>

datatype 'id table_op = Add 'id route i64 | Update 'id u8 i64 | Remove 'id
  | TouchRead route_key i64 | TouchWrite route_key i64

fun table_step :: "'id table_op \<Rightarrow> 'id tables \<Rightarrow> 'id tables" where
  "table_step (Add i r now) t = add_route i r now t"
| "table_step (Update i m rt) t = update_route i m rt t"
| "table_step (Remove i) t = remove_route i t"
| "table_step (TouchRead k now) t = touch_read k now t"
| "table_step (TouchWrite k now) t = touch_write k now t"

fun spec_step :: "'id table_op \<Rightarrow> 'id store \<Rightarrow> 'id store" where
  "spec_step (Add i r now) l = spec_add i r l"
| "spec_step (Update i m rt) l = spec_update i m rt l"
| "spec_step (Remove i) l = spec_remove i l"
| "spec_step (TouchRead k now) l = l"
| "spec_step (TouchWrite k now) l = l"

lemma store_rel_step: "store_rel l t \<Longrightarrow> store_rel (spec_step op l) (table_step op t)"
  by (cases op) (simp_all add: store_rel_add store_rel_update store_rel_remove store_rel_touch)

lemma store_rel_run: "store_rel l t \<Longrightarrow> store_rel (fold spec_step ops l) (fold table_step ops t)"
  by (induction ops arbitrary: l t) (simp_all add: store_rel_step)

lemma store_rel_run_new: "store_rel (fold spec_step ops []) (fold table_step ops tables_new)"
  by (rule store_rel_run) (rule store_rel_new)

lemma tables_ok_run: "tables_ok (fold table_step ops tables_new)"
  unfolding tables_ok_def using store_rel_run_new by blast

text \<open>
  The invariant between the tables, spelled out: no key without ids, no id twice behind a key, and
  an id is behind a key exactly when its route has that key.
\<close>

definition tables_wf :: "'id tables \<Rightarrow> bool" where
  "tables_wf t \<longleftrightarrow>
     (\<forall>k e. direct_route_table_time t k = Some e \<longrightarrow> te_ids e \<noteq> [] \<and> distinct (te_ids e)) \<and>
     (\<forall>i k. (\<exists>e. direct_route_table_time t k = Some e \<and> i \<in> set (te_ids e)) \<longleftrightarrow>
            (\<exists>r. direct_route_table t i = Some r \<and> route_key r = k))"

lemma tables_ok_wf: "tables_ok t \<Longrightarrow> tables_wf t"
proof -
  assume ok: "tables_ok t"
  then obtain l where l: "store_rel l t" by (auto simp: tables_ok_def)
  have "te_ids e \<noteq> []" if "direct_route_table_time t k = Some e" for k e
    using l that by (auto simp: store_rel_def dest: times_rel_Some)
  moreover have "distinct (te_ids e)" if "direct_route_table_time t k = Some e" for k e
    using rs.members_distinct [OF ok, of k] that by (simp add: ids_behind_def)
  moreover have "(\<exists>e. direct_route_table_time t k = Some e \<and> i \<in> set (te_ids e)) \<longleftrightarrow>
      (\<exists>r. direct_route_table t i = Some r \<and> route_key r = k)" for i k
    using rs.members_iff [OF ok, of i k]
    by (cases "direct_route_table_time t k") (simp_all add: ids_behind_def route_of_def)
  ultimately show ?thesis
    by (simp add: tables_wf_def)
qed

subsection \<open>Properties\<close>

text \<open>
  After any sequence of table operations, in any order and with any clock readings, the two
  tables represent exactly the abstract store that the same sequence builds: the routes are its
  map, and the ids behind each key are its pairs with that key, in the order they joined it.
\<close>

theorem tables_refine_store:
  "store_rel (fold spec_step ops []) (fold table_step ops tables_new)"
  by (rule store_rel_run_new)

text \<open>
  C2: After any sequence of table operations no key is left without ids, no id is listed twice
  behind a key, and the two tables agree on which id is behind which key.
\<close>

theorem tables_consistent: "tables_wf (fold table_step ops tables_new)"
  by (rule tables_ok_wf) (rule tables_ok_run)

text \<open>
  After any sequence of operations \<^verbatim>\<open>route_to_id\<close> answers with the id that has been behind
  the key for longest, and with nothing exactly when no id has a route with that key.
\<close>

theorem route_to_id_oldest:
  "route_to_id k (fold table_step ops tables_new) =
     (case ids_at k (fold spec_step ops []) of [] \<Rightarrow> None | i # _ \<Rightarrow> Some i)"
  by (simp only: rs.first_members store_rel_ids_behind [OF store_rel_run_new])

text \<open>
  The route of an id changes only by the operations that name it: \<^verbatim>\<open>add_route\<close> sets it,
  \<^verbatim>\<open>update_route\<close> sets metric and round-trip time of an id that has one and never its key,
  \<^verbatim>\<open>remove_route\<close> deletes it, and traffic leaves it alone.
\<close>

theorem route_lookup_frame:
  "route_of j (table_step op t) =
     (case op of
        Add i r now \<Rightarrow> if j = i then Some r else route_of j t
      | Update i m rt \<Rightarrow>
          map_option (\<lambda>r. if j = i then r\<lparr>r_metric := m, r_rt := rt\<rparr> else r) (route_of j t)
      | Remove i \<Rightarrow> if j = i then None else route_of j t
      | _ \<Rightarrow> route_of j t)"
  by (cases op)
    (simp_all add: rs.lookup_add rs.lookup_update rs.lookup_remove,
     simp_all add: route_of_def touch_read_def touch_write_def split: option.split)

text \<open>
  The activity clock of a key: when it was last read from and last written to.
\<close>

definition clock_of :: "route_key \<Rightarrow> 'id tables \<Rightarrow> (i64 \<times> i64) option" where
  "clock_of k t = map_option (\<lambda>e. (te_read e, te_write e)) (direct_route_table_time t k)"

lemma clock_of_remove_id:
  "k \<noteq> k' \<Longrightarrow> remove_id_route i k' tt k = tt k"
  by (auto simp: remove_id_route_def Let_def split: option.split)

lemma add_route_entry_same:
  "clock_of (route_key r) (add_route i r now t) =
     Some (case clock_of (route_key r) t of None \<Rightarrow> (now, now) | Some c \<Rightarrow> c)"
  by (cases "direct_route_table t i"; cases "direct_route_table_time t (route_key r)")
    (auto simp: add_route_def Let_def clock_of_def clock_of_remove_id)

lemma add_route_entry_other:
  assumes "k \<noteq> route_key r"
  shows "direct_route_table_time (add_route i r now t) k =
    (case direct_route_table t i of
       Some old \<Rightarrow> if route_key old \<noteq> route_key r \<and> k = route_key old
                   then remove_id_route i k (direct_route_table_time t) k
                   else direct_route_table_time t k
     | None \<Rightarrow> direct_route_table_time t k)"
  using assms
  by (auto simp: add_route_def Let_def clock_of_remove_id split: option.split)

lemma remove_id_route_clock:
  "map_option (\<lambda>e. (te_read e, te_write e)) (remove_id_route i k tt k) =
     (case tt k of None \<Rightarrow> None
      | Some e \<Rightarrow> if filter (\<lambda>v. v \<noteq> i) (te_ids e) = [] then None else Some (te_read e, te_write e))"
  by (auto simp: remove_id_route_def Let_def split: option.split)

lemma filter_singleton_iff:
  "distinct xs \<Longrightarrow> i \<in> set xs \<Longrightarrow> filter (\<lambda>v. v \<noteq> i) xs = [] \<longleftrightarrow> xs = [i]"
  by (cases xs) (auto simp: filter_empty_conv, metis distinct.simps(2) list.set_intros(1) neq_Nil_conv)

text \<open>
  Adding a route starts the clock of a key that is new with the current time for both
  directions, and leaves the clock of a key already in use as it is: a second id behind the same
  key does not count as traffic. Of the other keys, only one that had no other id loses its clock.
\<close>

theorem add_route_clock:
  assumes "tables_ok t"
  shows "clock_of k (add_route i r now t) =
    (if k = route_key r
     then Some (case clock_of k t of None \<Rightarrow> (now, now) | Some c \<Rightarrow> c)
     else if ids_behind k t = [i] then None
     else clock_of k t)"
proof (cases "k = route_key r")
  case True
  then show ?thesis by (simp add: add_route_entry_same)
next
  case False
  note other = add_route_entry_other [OF False, of i now t]
  show ?thesis
  proof (cases "i \<in> set (ids_behind k t)")
    case True
    then obtain old where old: "direct_route_table t i = Some old" "route_key old = k"
      using rs.members_iff [OF assms] by (auto simp: route_of_def)
    from filter_singleton_iff [OF rs.members_distinct [OF assms] True] True old False
    show ?thesis
      unfolding clock_of_def other
      by (cases "direct_route_table_time t k")
        (simp_all add: remove_id_route_clock ids_behind_def)
  next
    case out: False
    then have "\<And>old. direct_route_table t i = Some old \<Longrightarrow> route_key old \<noteq> k"
      using rs.members_iff [OF assms] by (auto simp: route_of_def)
    with out False show ?thesis
      unfolding clock_of_def other by (auto split: option.split)
  qed
qed

theorem add_route_clock_witness:
  "clock_of (RouteKey 0 (SockV4 9 9)) (add_route (2::nat) (route_new 0 (SockV4 9 9) 1 1) 7
      (add_route 1 (route_new 0 (SockV4 9 9) 1 1) 5 tables_new)) = Some (5, 5)"
proof -
  let ?r = "route_new 0 (SockV4 9 9) 1 1" and ?k = "RouteKey 0 (SockV4 9 9)"
  have ok: "tables_ok (add_route (1::nat) ?r 5 tables_new)"
    by (rule rs.inv_add [OF tables_ok_new])
  have "clock_of ?k (add_route (1::nat) ?r 5 tables_new) = Some (5, 5)"
    by (simp add: clock_of_def add_route_def tables_new_def Let_def)
  then show ?thesis
    using add_route_clock [OF ok, of ?k 2 ?r 7] by simp
qed

text \<open>
  Removing every id that an idle report lists for a key frees the key: the key is gone from the
  time table, \<^verbatim>\<open>route_to_id\<close> no longer finds it, and every peer that is behind another key keeps
  its route.
\<close>

theorem evicting_listed_ids_frees_key:
  assumes "tables_ok t"
  shows "direct_route_table_time (fold remove_route (ids_behind k t) t) k = None \<and>
    route_to_id k (fold remove_route (ids_behind k t) t) = None \<and>
    (\<forall>j r. route_of j t = Some r \<and> route_key r \<noteq> k \<longrightarrow>
           route_of j (fold remove_route (ids_behind k t) t) = Some r)"
proof (intro conjI allI impI)
  let ?t = "fold remove_route (ids_behind k t) t"
  have empty: "ids_behind k ?t = []"
    by (rule rs.evict_key [OF assms])
  have "tables_wf ?t"
    by (rule tables_ok_wf) (rule rs.inv_fold_remove [OF assms])
  with empty show "direct_route_table_time ?t k = None"
    by (cases "direct_route_table_time ?t k") (auto simp: tables_wf_def ids_behind_def)
  show "route_to_id k ?t = None"
    by (simp add: rs.first_members empty)
  fix j r
  assume "route_of j t = Some r \<and> route_key r \<noteq> k"
  then show "route_of j ?t = Some r"
    using rs.evict_others [OF assms] by blast
qed

theorem evicting_listed_ids_frees_key_witness:
  "route_to_id (RouteKey 0 (SockV4 9 9))
     (fold remove_route (ids_behind (RouteKey 0 (SockV4 9 9))
        (add_route (1::nat) (route_new 0 (SockV4 9 9) 1 1) 5 tables_new))
        (add_route (1::nat) (route_new 0 (SockV4 9 9) 1 1) 5 tables_new)) = None"
  using evicting_listed_ids_frees_key [OF rs.inv_add [OF tables_ok_new],
      of "RouteKey 0 (SockV4 9 9)" "1::nat" "route_new 0 (SockV4 9 9) 1 1" 5]
  by blast

end
