(* ===== verification/Route_Clocks.thy ===== *)
theory Route_Clocks
  imports Route_Store
begin

section \<open>The route tables with their clocks\<close>

text \<open>
  \<^theory_text>\<open>Route_Store\<close> relates the tables to the ordered store of routes and leaves open what the activity
  clocks of the keys say. Here the clocks join the abstract state, and the two tables become a function of
  it: nothing that they hold depends on anything but the sequence of operations. The contract
  \<open>route_store\<close> grows by the laws of the clocks, and is interpreted on the same operations (\<open>cs\<close>).
\<close>

subsection \<open>The abstract state\<close>

text \<open>
  The routes in the order in which their ids joined their keys, and for every key when it was last read
  from and last written to. The clock of a key without ids has no meaning; it starts when the
  first id joins the key.
\<close>

type_synonym clocks = "route_key \<Rightarrow> i64 \<times> i64"

fun clock_step :: "'id table_op \<Rightarrow> 'id store \<Rightarrow> clocks \<Rightarrow> clocks" where
  "clock_step (Add i r now) l c =
     (if ids_at (route_key r) l = [] then c(route_key r := (now, now)) else c)"
| "clock_step (TouchRead k now) l c = c(k := (now, snd (c k)))"
| "clock_step (TouchWrite k now) l c = c(k := (fst (c k), now))"
| "clock_step (Update i m rt) l c = c"
| "clock_step (Remove i) l c = c"

fun timed_step :: "'id table_op \<Rightarrow> 'id store \<times> clocks \<Rightarrow> 'id store \<times> clocks" where
  "timed_step op (l, c) = (spec_step op l, clock_step op l c)"

definition timed_new :: "'id store \<times> clocks" where
  "timed_new = ([], \<lambda>k. (0, 0))"

text \<open>The tables that an abstract state stands for.\<close>

definition entry_at :: "route_key \<Rightarrow> 'id store \<times> clocks \<Rightarrow> 'id time_entry option" where
  "entry_at k a =
     (if ids_at k (fst a) = [] then None
      else Some \<lparr>te_ids = ids_at k (fst a), te_read = fst (snd a k), te_write = snd (snd a k)\<rparr>)"

definition tables_of :: "'id store \<times> clocks \<Rightarrow> 'id tables" where
  "tables_of a = \<lparr>direct_route_table = map_of (fst a),
     direct_route_table_time = (\<lambda>k. entry_at k a)\<rparr>"

subsection \<open>The clocks under every operation\<close>

lemma clock_of_None: "tables_ok t \<Longrightarrow> clock_of k t = None \<longleftrightarrow> ids_behind k t = []"
  by (auto simp: tables_ok_def store_rel_ids_behind clock_of_def store_rel_def times_rel_None)

lemma clock_of_touch_read:
  "clock_of k' (touch_read k now t) =
     map_option (\<lambda>c. if k' = k then (now, snd c) else c) (clock_of k' t)"
  by (cases "direct_route_table_time t k"; cases "direct_route_table_time t k'")
    (auto simp: clock_of_def touch_read_def)

lemma clock_of_touch_write:
  "clock_of k' (touch_write k now t) =
     map_option (\<lambda>c. if k' = k then (fst c, now) else c) (clock_of k' t)"
  by (cases "direct_route_table_time t k"; cases "direct_route_table_time t k'")
    (auto simp: clock_of_def touch_write_def)

lemma clock_of_update: "clock_of k (update_route i m rt t) = clock_of k t"
  by (simp add: clock_of_def update_route_def split: option.split)

lemma clock_of_remove:
  assumes "tables_ok t"
  shows "clock_of k (remove_route i t) = (if ids_behind k t = [i] then None else clock_of k t)"
proof (cases "i \<in> set (ids_behind k t)")
  case True
  then obtain old where "direct_route_table t i = Some old" "route_key old = k"
    using rs.members_iff [OF assms] by (auto simp: route_of_def)
  with filter_singleton_iff [OF rs.members_distinct [OF assms] True] True show ?thesis
    by (cases "direct_route_table_time t k")
      (simp_all add: clock_of_def remove_route_def remove_id_route_clock ids_behind_def)
next
  case False
  then have "route_key old \<noteq> k" if "direct_route_table t i = Some old" for old
    using rs.members_iff [OF assms] that by (auto simp: route_of_def)
  with False show ?thesis
    by (auto simp: clock_of_def remove_route_def clock_of_remove_id split: option.split)
qed

lemma entry_split:
  "direct_route_table_time t k =
     map_option (\<lambda>c. \<lparr>te_ids = ids_behind k t, te_read = fst c, te_write = snd c\<rparr>) (clock_of k t)"
  by (simp add: clock_of_def ids_behind_def split: option.split)

subsection \<open>The contract with clocks\<close>

locale clocked_store =
  route_store inv add update remove lookup members first
  for inv :: "'s \<Rightarrow> bool"
    and add :: "'id \<Rightarrow> route \<Rightarrow> i64 \<Rightarrow> 's \<Rightarrow> 's"
    and update :: "'id \<Rightarrow> u8 \<Rightarrow> i64 \<Rightarrow> 's \<Rightarrow> 's"
    and remove :: "'id \<Rightarrow> 's \<Rightarrow> 's"
    and lookup :: "'id \<Rightarrow> 's \<Rightarrow> route option"
    and members :: "route_key \<Rightarrow> 's \<Rightarrow> 'id list"
    and first :: "route_key \<Rightarrow> 's \<Rightarrow> 'id option" +
  fixes clock :: "route_key \<Rightarrow> 's \<Rightarrow> (i64 \<times> i64) option"
    and reading :: "route_key \<Rightarrow> i64 \<Rightarrow> 's \<Rightarrow> 's"
    and writing :: "route_key \<Rightarrow> i64 \<Rightarrow> 's \<Rightarrow> 's"
  assumes clock_None: "inv s \<Longrightarrow> clock k s = None \<longleftrightarrow> members k s = []"
    and clock_add: "inv s \<Longrightarrow> clock k (add i r now s) =
      (if k = route_key r then Some (case clock k s of None \<Rightarrow> (now, now) | Some c \<Rightarrow> c)
       else if members k s = [i] then None else clock k s)"
    and clock_remove: "inv s \<Longrightarrow> clock k (remove i s) =
      (if members k s = [i] then None else clock k s)"
    and clock_reading: "clock k (reading k' now s) =
      map_option (\<lambda>c. if k = k' then (now, snd c) else c) (clock k s)"
    and clock_writing: "clock k (writing k' now s) =
      map_option (\<lambda>c. if k = k' then (fst c, now) else c) (clock k s)"
begin

text \<open>A key that was evicted starts afresh with the next route on it.\<close>

lemma evicted_clock:
  assumes "inv s"
  shows "clock k (fold remove (members k s) s) = None"
  by (simp add: clock_None inv_fold_remove assms evict_key)

lemma evicted_starts_afresh:
  assumes "inv s" and "route_key r = k"
  shows "clock k (add i r now (fold remove (members k s) s)) = Some (now, now)"
  by (simp add: clock_add inv_fold_remove evicted_clock assms)

text \<open>Eviction and the return of a peer do not touch the clocks of the keys of others.\<close>

lemma clock_remove_other:
  assumes "inv s" and "i \<notin> set (members k s)"
  shows "clock k (remove i s) = clock k s"
  using assms by (auto simp: clock_remove)

lemma evict_keeps_other_clocks:
  assumes "inv s" and "k' \<noteq> k"
  shows "clock k' (fold remove (members k s) s) = clock k' s"
proof -
  have keep: "\<forall>i \<in> set is. i \<notin> set (members k' u) \<Longrightarrow> inv u \<Longrightarrow>
      clock k' (fold remove is u) = clock k' u" for "is" u
  proof (induction "is" arbitrary: u)
    case (Cons i "is")
    then have "\<forall>j \<in> set is. j \<notin> set (members k' (remove i u))"
      by (simp add: members_iff inv_remove lookup_remove)
    with Cons show ?case by (simp add: inv_remove clock_remove_other)
  qed simp
  from assms show ?thesis
    by (intro keep) (auto simp: members_iff)
qed

end

interpretation cs: clocked_store tables_ok add_route update_route remove_route route_of
  ids_behind route_to_id clock_of touch_read touch_write
  by unfold_locales
    (simp_all add: clock_of_None add_route_clock clock_of_remove clock_of_touch_read
      clock_of_touch_write)

subsection \<open>The tables are a function of the abstract state\<close>

definition timed_rel :: "'id store \<times> clocks \<Rightarrow> 'id tables \<Rightarrow> bool" where
  "timed_rel a t \<longleftrightarrow> store_rel (fst a) t \<and> (\<forall>k c. clock_of k t = Some c \<longrightarrow> c = snd a k)"

lemma timed_relD:
  assumes "timed_rel a t"
  shows "store_rel (fst a) t" and "tables_ok t"
  using assms by (auto simp: timed_rel_def tables_ok_def)

lemma timed_rel_clock: "timed_rel a t \<Longrightarrow> clock_of k t = Some c \<Longrightarrow> c = snd a k"
  unfolding timed_rel_def by blast

lemma timed_rel_tables_of:
  assumes "timed_rel a t"
  shows "t = tables_of a"
proof -
  have "direct_route_table_time t k = entry_at k a" for k
    using timed_relD [OF assms] timed_rel_clock [OF assms, of k] clock_of_None [of t k]
    by (cases "clock_of k t")
      (simp_all add: entry_split [of t k] entry_at_def store_rel_ids_behind)
  moreover have "direct_route_table t = map_of (fst a)"
    using timed_relD(1) [OF assms] by (simp add: store_rel_def)
  ultimately show ?thesis
    by (cases t) (simp add: tables_of_def fun_eq_iff)
qed

lemma timed_rel_new: "timed_rel timed_new tables_new"
  using store_rel_new by (simp add: timed_rel_def timed_new_def clock_of_def tables_new_def)

lemma clock_step_rel:
  assumes "timed_rel (l, c) t" and "clock_of k (table_step op t) = Some d"
  shows "d = clock_step op l c k"
proof (cases op)
  case (Add i r now)
  note rel = timed_relD [OF assms(1)]
  show ?thesis
    using assms(2) timed_rel_clock [OF assms(1), of k] clock_of_None [OF rel(2), of k]
    by (cases "clock_of k t")
      (auto simp: Add cs.clock_add [OF rel(2)] store_rel_ids_behind [OF rel(1)] split: if_splits)
next
  case (Remove i)
  with assms(2) timed_relD [OF assms(1)] timed_rel_clock [OF assms(1), of k] show ?thesis
    by (auto simp: cs.clock_remove split: if_splits)
qed (use assms timed_rel_clock [OF assms(1), of k] in
  \<open>simp_all add: clock_of_update cs.clock_reading cs.clock_writing\<close>, auto)

lemma timed_rel_step: "timed_rel a t \<Longrightarrow> timed_rel (timed_step op a) (table_step op t)"
proof (cases a)
  case (Pair l c)
  moreover assume rel: "timed_rel a t"
  ultimately show ?thesis
    using store_rel_step [OF timed_relD(1) [OF rel], of op] clock_step_rel [of l c t _ op]
    by (simp add: timed_rel_def [of "(spec_step op l, clock_step op l c)"])
qed

lemma timed_rel_run: "timed_rel a t \<Longrightarrow> timed_rel (fold timed_step ops a) (fold table_step ops t)"
  by (induction ops arbitrary: a t) (simp_all add: timed_rel_step)

text \<open>
  C1: After any sequence of table operations, in any order and with any clock readings, both tables
  are determined to the last field by the abstract state that the same sequence builds: the
  routes are its map; the entry of a key lists its ids in the order in which they joined
  it; its two clocks say when the key was last read from and last written to since its first id
  joined, or else when that was; and a key that nobody is behind has no entry.
\<close>

theorem tables_determined:
  "fold table_step ops tables_new = tables_of (fold timed_step ops timed_new)"
  by (rule timed_rel_tables_of) (rule timed_rel_run [OF timed_rel_new])

text \<open>
  A peer that comes back after its key was evicted for being idle starts with fresh clocks in both
  directions, whatever the evicted entry said; the clocks of every other key have not moved.
\<close>

theorem evicted_peer_starts_afresh:
  assumes "tables_ok t" and "route_key r = k"
  shows "clock_of k (add_route i r now (fold remove_route (ids_behind k t) t)) = Some (now, now) \<and>
    (\<forall>k'. k' \<noteq> k \<longrightarrow> clock_of k' (fold remove_route (ids_behind k t) t) = clock_of k' t)"
  using cs.evicted_starts_afresh [OF assms] cs.evict_keeps_other_clocks [OF assms(1)] by blast

theorem evicted_peer_starts_afresh_witness:
  "clock_of (RouteKey 0 (SockV4 9 9)) (add_route (1::nat) (route_new 0 (SockV4 9 9) 1 1) 9
     (fold remove_route (ids_behind (RouteKey 0 (SockV4 9 9))
        (add_route (1::nat) (route_new 0 (SockV4 9 9) 1 1) 5 tables_new))
        (add_route (1::nat) (route_new 0 (SockV4 9 9) 1 1) 5 tables_new))) = Some (9, 9)"
proof -
  have "route_key (route_new 0 (SockV4 9 9) 1 1) = RouteKey 0 (SockV4 9 9)"
    by (simp add: route_key_def route_new_def)
  then show ?thesis
    using evicted_peer_starts_afresh [OF rs.inv_add [OF tables_ok_new],
        of "route_new 0 (SockV4 9 9) 1 1" "RouteKey 0 (SockV4 9 9)" "1::nat" 9
           "1::nat" "route_new 0 (SockV4 9 9) 1 1" 5]
    by blast
qed

end
