(* ===== verification/Send_All.thy ===== *)
theory Send_All
  imports Net_Types
begin

section \<open>Sending one datagram: the trait \<^verbatim>\<open>SendAll\<close>\<close>

text \<open>
  The operating system's answer to \<^verbatim>\<open>send_to\<close> is an argument, an arbitrary function of what was
  done before; what the program does to the outside is recorded call by call. \<^verbatim>\<open>SendAll\<close> of
  \<^verbatim>\<open>src/channel/sender.rs\<close> has one implementation for \<^verbatim>\<open>std\<close> sockets and one for \<^verbatim>\<open>mio\<close> sockets;
  both are modelled, and the contract they share is a locale.
\<close>

subsection \<open>The outside\<close>

text \<open>
  A \<open>sock\<close> is an operating-system socket: a handle made with \<^verbatim>\<open>try_clone\<close> is the same socket.
\<close>

type_synonym sock = nat

datatype os_call = SendTo sock bytes socket_addr | YieldNow | SleepMs nat

type_synonym history = "os_call list"

type_synonym os_send = "history \<Rightarrow> sock \<Rightarrow> bytes \<Rightarrow> socket_addr \<Rightarrow> io_error + nat"

fun sent_by :: "os_call \<Rightarrow> (sock \<times> bytes \<times> socket_addr) option" where
  "sent_by (SendTo s buf a) = Some (s, buf, a)"
| "sent_by YieldNow = None"
| "sent_by (SleepMs n) = None"

definition sends :: "history \<Rightarrow> (sock \<times> bytes \<times> socket_addr) list" where
  "sends h = List.map_filter sent_by h"

lemma sends_simps [simp]:
  "sends [] = []"
  "sends (SendTo s buf a # h) = (s, buf, a) # sends h"
  "sends (YieldNow # h) = sends h"
  "sends (SleepMs n # h) = sends h"
  "sends (h1 @ h2) = sends h1 @ sends h2"
  by (simp_all add: sends_def List.map_filter_def)

definition retryable :: "io_error \<Rightarrow> bool" where
  "retryable e \<longleftrightarrow> err_kind e = WouldBlock \<or> err_kind e = TimedOut"

subsection \<open>The two implementations\<close>

function send_all_std_loop ::
    "os_send \<Rightarrow> sock \<Rightarrow> bytes \<Rightarrow> socket_addr \<Rightarrow> nat \<Rightarrow> history \<Rightarrow> nat outcome \<times> history" where
  "send_all_std_loop os s buf a count h =
     (let h1 = h @ [SendTo s buf a] in
      case os h s buf a of
        Inr len \<Rightarrow> (Ok len, h1)
      | Inl e \<Rightarrow>
          if retryable e then
            let h2 = h1 @ [YieldNow]; count' = count + 1 in
            if count' > 10 then (Err e, h2) else send_all_std_loop os s buf a count' h2
          else (Err e, h1))"
  by pat_completeness auto
termination
  by (relation "measure (\<lambda>(os, s, buf, a, count, h). 11 - count)") auto

function send_all_mio_loop ::
    "os_send \<Rightarrow> sock \<Rightarrow> bytes \<Rightarrow> socket_addr \<Rightarrow> nat \<Rightarrow> history \<Rightarrow> nat outcome \<times> history" where
  "send_all_mio_loop os s buf a count h =
     (let h1 = h @ [SendTo s buf a] in
      case os h s buf a of
        Inr len \<Rightarrow> (Ok len, h1)
      | Inl e \<Rightarrow>
          if retryable e then
            let count' = count + 1; h2 = h1 @ [YieldNow] in
            if count' > 10 then (Err e, h2) else send_all_mio_loop os s buf a count' h2
          else (Err e, h1))"
  by pat_completeness auto
termination
  by (relation "measure (\<lambda>(os, s, buf, a, count, h). 11 - count)") auto

declare send_all_std_loop.simps [simp del] send_all_mio_loop.simps [simp del]

definition send_all_std ::
    "os_send \<Rightarrow> sock \<Rightarrow> bytes \<Rightarrow> socket_addr \<Rightarrow> history \<Rightarrow> nat outcome \<times> history" where
  "send_all_std os s buf a h = send_all_std_loop os s buf a 0 h"

definition send_all_mio ::
    "os_send \<Rightarrow> sock \<Rightarrow> bytes \<Rightarrow> socket_addr \<Rightarrow> history \<Rightarrow> nat outcome \<times> history" where
  "send_all_mio os s buf a h = send_all_mio_loop os s buf a 0 h"

lemma send_all_loops_agree:
  "send_all_mio_loop os s buf a count h = send_all_std_loop os s buf a count h"
proof (induction os s buf a count h rule: send_all_std_loop.induct)
  case (1 os s buf a count h)
  then show ?case
    by (subst send_all_mio_loop.simps, subst send_all_std_loop.simps)
      (simp add: Let_def split: sum.split)
qed

lemma send_all_agree: "send_all_mio = send_all_std"
  by (intro ext) (simp add: send_all_mio_def send_all_std_def send_all_loops_agree)

subsection \<open>What the loop does\<close>

text \<open>\<open>tried n\<close> is the history after \<open>n\<close> attempts that were answered "not now".\<close>

definition tried :: "sock \<Rightarrow> bytes \<Rightarrow> socket_addr \<Rightarrow> nat \<Rightarrow> history \<Rightarrow> history" where
  "tried s buf a n h = h @ concat (replicate n [SendTo s buf a, YieldNow])"

lemma tried_0 [simp]: "tried s buf a 0 h = h"
  by (simp add: tried_def)

lemma tried_Suc: "tried s buf a (Suc n) h = tried s buf a n (h @ [SendTo s buf a, YieldNow])"
  by (simp add: tried_def)

definition not_now :: "os_send \<Rightarrow> sock \<Rightarrow> bytes \<Rightarrow> socket_addr \<Rightarrow> history \<Rightarrow> bool" where
  "not_now os s buf a h = (case os h s buf a of Inl e \<Rightarrow> retryable e | Inr _ \<Rightarrow> False)"

definition final_answer :: "io_error + nat \<Rightarrow> nat outcome" where
  "final_answer r = (case r of Inl e \<Rightarrow> Err e | Inr len \<Rightarrow> Ok len)"

text \<open>
  \<open>ends_after n\<close>: the first \<open>n\<close> answers were "not now" and the loop returned the next one, which
  is "not now" again only where the attempts are used up (\<open>fin\<close>).
\<close>

definition ends_after :: "os_send \<Rightarrow> sock \<Rightarrow> bytes \<Rightarrow> socket_addr \<Rightarrow> history \<Rightarrow> nat \<Rightarrow> bool \<Rightarrow>
    nat outcome \<times> history \<Rightarrow> bool" where
  "ends_after os s buf a h n fin res \<longleftrightarrow>
     (\<forall>i < n. not_now os s buf a (tried s buf a i h)) \<and>
     (not_now os s buf a (tried s buf a n h) \<longrightarrow> fin) \<and>
     res = (final_answer (os (tried s buf a n h) s buf a),
            tried s buf a n h @ [SendTo s buf a] @
            (if not_now os s buf a (tried s buf a n h) then [YieldNow] else []))"

lemma ends_after_Suc:
  assumes "not_now os s buf a h"
    and "ends_after os s buf a (h @ [SendTo s buf a, YieldNow]) n fin res"
  shows "ends_after os s buf a h (Suc n) fin res"
proof -
  have "not_now os s buf a (tried s buf a i h)" if "i < Suc n" for i
    using assms that by (cases i) (simp_all add: tried_Suc ends_after_def)
  with assms(2) show ?thesis
    by (simp add: ends_after_def tried_Suc)
qed

lemma send_all_std_loop_stop:
  assumes "\<not> not_now os s buf a h \<or> 10 \<le> count"
  shows "ends_after os s buf a h 0 (10 \<le> count) (send_all_std_loop os s buf a count h)"
  using assms
  by (subst send_all_std_loop.simps)
    (auto simp: ends_after_def Let_def not_now_def final_answer_def split: sum.splits)

lemma send_all_std_loop_again:
  assumes "not_now os s buf a h" and "count < 10"
  shows "send_all_std_loop os s buf a count h =
    send_all_std_loop os s buf a (Suc count) (h @ [SendTo s buf a, YieldNow])"
  using assms
  by (subst send_all_std_loop.simps) (auto simp: Let_def not_now_def split: sum.splits)

lemma send_all_std_loop_ends:
  "count \<le> 10 \<Longrightarrow> \<exists>n. count + n \<le> 10 \<and>
     ends_after os s buf a h n (count + n = 10) (send_all_std_loop os s buf a count h)"
proof (induction "10 - count" arbitrary: count h)
  case 0
  then show ?case
    using send_all_std_loop_stop [of os s buf a h count] by (intro exI [of _ 0]) simp
next
  case (Suc m)
  show ?case
  proof (cases "not_now os s buf a h")
    case False
    with send_all_std_loop_stop [of os s buf a h count] Suc.prems show ?thesis
      by (intro exI [of _ 0]) (auto simp: ends_after_def)
  next
    case True
    have "m = 10 - Suc count" and le: "Suc count \<le> 10"
      using Suc(2) by auto
    from Suc(1) [OF this] obtain n where n: "Suc count + n \<le> 10"
      "ends_after os s buf a (h @ [SendTo s buf a, YieldNow]) n (Suc count + n = 10)
         (send_all_std_loop os s buf a (Suc count) (h @ [SendTo s buf a, YieldNow]))"
      by blast
    with ends_after_Suc [OF True n(2)] send_all_std_loop_again [OF True] le show ?thesis
      by (intro exI [of _ "Suc n"]) simp
  qed
qed

lemma send_all_std_ends:
  "\<exists>n \<le> 10. ends_after os s buf a h n (n = 10) (send_all_std os s buf a h)"
  using send_all_std_loop_ends [of 0 os s buf a h] by (auto simp: send_all_std_def)

subsection \<open>The contract of \<^verbatim>\<open>SendAll\<close>\<close>

locale datagram_sender =
  fixes send :: "os_send \<Rightarrow> sock \<Rightarrow> bytes \<Rightarrow> socket_addr \<Rightarrow> history \<Rightarrow> nat outcome \<times> history"
  assumes extends: "\<exists>n ext. n \<le> 10 \<and> snd (send os s buf a h) = h @ ext \<and>
      sends ext = replicate (Suc n) (s, buf, a)"
    and no_panic: "fst (send os s buf a h) \<noteq> Panic"
    and answered: "\<exists>h'. fst (send os s buf a h) = final_answer (os h' s buf a)"
    and accepted: "os h s buf a = Inr len \<Longrightarrow>
      send os s buf a h = (Ok len, h @ [SendTo s buf a])"
begin

lemma sends_after: "\<exists>n. n \<le> 10 \<and> sends (snd (send os s buf a h)) = sends h @ replicate (Suc n) (s, buf, a)"
  using extends [of os s buf a h] by auto

lemma set_sends: "set (sends (snd (send os s buf a h))) = insert (s, buf, a) (set (sends h))"
  using sends_after [of os s buf a h] by auto

lemma outcome_cases:
  obtains len h' where "send os s buf a h = (Ok len, h')"
  | e h' where "send os s buf a h = (Err e, h')"
  using no_panic [of os s buf a h]
  by (cases "send os s buf a h"; cases "fst (send os s buf a h)") auto

lemma at_most_eleven: "length (sends (snd (send os s buf a h))) \<le> length (sends h) + 11"
  using sends_after [of os s buf a h] by auto

end

lemma sends_tried: "sends (tried s buf a n h) = sends h @ replicate n (s, buf, a)"
  by (induction n arbitrary: h) (simp_all add: tried_Suc)

lemma tried_extends: "\<exists>ext. tried s buf a n h = h @ ext \<and> sends ext = replicate n (s, buf, a)"
  using sends_tried [of s buf a n "[]"] by (auto simp: tried_def)

interpretation std_socket: datagram_sender send_all_std
proof unfold_locales
  fix os s buf a h and len :: nat
  obtain n where n: "n \<le> 10" and out: "ends_after os s buf a h n (n = 10) (send_all_std os s buf a h)"
    using send_all_std_ends by blast
  show "\<exists>n ext. n \<le> 10 \<and> snd (send_all_std os s buf a h) = h @ ext \<and>
      sends ext = replicate (Suc n) (s, buf, a)"
    using n out tried_extends [of s buf a n h]
    by (intro exI [of _ n]) (auto simp: ends_after_def replicate_append_same)
  show "fst (send_all_std os s buf a h) \<noteq> Panic"
    using out by (auto simp: ends_after_def final_answer_def split: sum.splits)
  show "\<exists>h'. fst (send_all_std os s buf a h) = final_answer (os h' s buf a)"
    using out by (auto simp: ends_after_def)
  show "os h s buf a = Inr len \<Longrightarrow>
      send_all_std os s buf a h = (Ok len, h @ [SendTo s buf a])"
    by (simp add: send_all_std_def, subst send_all_std_loop.simps) simp
qed

interpretation mio_socket: datagram_sender send_all_mio
  unfolding send_all_agree by (rule std_socket.datagram_sender_axioms)

subsection \<open>Properties\<close>

text \<open>
  C38: Both implementations of \<^verbatim>\<open>send_all\<close> make at most eleven attempts: they stop at the first
  answer that is not \<^verbatim>\<open>WouldBlock\<close> or \<^verbatim>\<open>TimedOut\<close> and return it, yield the thread after each of
  those two, and give up with the eleventh of them.
\<close>

theorem send_all_attempts:
  "send_all_mio = send_all_std \<and>
   (\<exists>n \<le> 10. (\<forall>i < n. not_now os s buf a (tried s buf a i h)) \<and>
      (if not_now os s buf a (tried s buf a n h)
       then n = 10 \<and> send_all_std os s buf a h =
              (final_answer (os (tried s buf a 10 h) s buf a), tried s buf a 11 h)
       else send_all_std os s buf a h =
              (final_answer (os (tried s buf a n h) s buf a), tried s buf a n h @ [SendTo s buf a])))"
proof
  show "send_all_mio = send_all_std" by (rule send_all_agree)
  have last: "tried s buf a 10 h @ [SendTo s buf a, YieldNow] = tried s buf a 11 h"
    by (simp add: tried_def numeral_eq_Suc)
  obtain n where n: "n \<le> 10" "ends_after os s buf a h n (n = 10) (send_all_std os s buf a h)"
    using send_all_std_ends by blast
  then show "\<exists>n \<le> 10. (\<forall>i < n. not_now os s buf a (tried s buf a i h)) \<and>
      (if not_now os s buf a (tried s buf a n h)
       then n = 10 \<and> send_all_std os s buf a h =
              (final_answer (os (tried s buf a 10 h) s buf a), tried s buf a 11 h)
       else send_all_std os s buf a h =
              (final_answer (os (tried s buf a n h) s buf a), tried s buf a n h @ [SendTo s buf a]))"
    using last by (intro exI [of _ n]) (auto simp: ends_after_def)
qed

theorem send_all_attempts_witness:
  "fst (send_all_mio (\<lambda>h s b a. if length h < 4 then Inl (IoError WouldBlock ''busy'') else Inr 3)
      0 [1, 2, 3] (SockV4 5 6) []) = Ok 3"
proof -
  let ?os = "\<lambda>h s b a. if length h < 4 then Inl (IoError WouldBlock ''busy'') else Inr 3 :: io_error + nat"
  let ?a = "SockV4 5 6"
  have len: "length (tried 0 [1, 2, 3] ?a n []) = 2 * n" for n
    by (induction n) (simp_all add: tried_def)
  from send_all_attempts [of ?os 0 "[1, 2, 3]" ?a "[]"] show ?thesis
    by (auto simp: not_now_def final_answer_def retryable_def len split: if_splits)
qed

end
