(* ===== verification/Sender.thy ===== *)
theory Sender
  imports Route_Store Send_All
begin

section \<open>The shared state and \<^verbatim>\<open>Sender\<close>\<close>

text \<open>
  What \<^verbatim>\<open>Channel\<close>, \<^verbatim>\<open>Sender\<close>, \<^verbatim>\<open>Punch\<close> and \<^verbatim>\<open>Idle\<close> share through \<^verbatim>\<open>Arc\<close>s, as one record that the
  operations pass on, and the operations of \<^verbatim>\<open>src/channel/sender.rs\<close> on it.
\<close>

subsection \<open>State\<close>

datatype status = StCone | StSymmetric | StClose

text \<open>
  \<open>parked_token\<close> is the token of the crossbeam \<^verbatim>\<open>Parker\<close> that \<^verbatim>\<open>Idle\<close> owns: \<^verbatim>\<open>unpark\<close> makes it
  available, and a \<^verbatim>\<open>park\<close> returns at once when it is. The channels also share the generator of
  their flags and the list of (flag, waker) pairs; a waker is named by the \<^verbatim>\<open>mio::Poll\<close> it wakes,
  and \<open>woken\<close> are the polls with a wake-up that was not consumed yet. \<open>calls\<close> is what was sent to
  the outside.
\<close>

record 'id shared =
  status :: status
  share_info :: "sock list"
  tables :: "'id tables"
  parked_token :: bool
  channel_flag_gen :: u64
  change_waker_list :: "(u64 \<times> nat) list"
  woken :: "nat set"
  calls :: history

text \<open>The shared state when the first channel is made, with the status it is given.\<close>

definition shared_new :: "status \<Rightarrow> 'id shared" where
  "shared_new st =
     \<lparr>status = st, share_info = [], tables = tables_new, parked_token = False,
      channel_flag_gen = 1, change_waker_list = [], woken = {}, calls = []\<rparr>"

record sender =
  sd_default_udp :: sock

definition DEFAULT_TOKEN_INDEX :: nat where
  "DEFAULT_TOKEN_INDEX = 100000"

definition unpark :: "'id shared \<Rightarrow> 'id shared" where
  "unpark sh = sh\<lparr>parked_token := True\<rparr>"

definition not_fount :: io_error where
  "not_fount = IoError Other ''not fount''"

subsection \<open>Status and cloning\<close>

definition sender_is_close :: "'id shared \<Rightarrow> bool" where
  "sender_is_close sh \<longleftrightarrow> status sh = StClose"

definition sender_is_cone :: "'id shared \<Rightarrow> bool" where
  "sender_is_cone sh \<longleftrightarrow> status sh = StCone"

text \<open>\<open>dup\<close> is the answer of the system to \<^verbatim>\<open>UdpSocket::try_clone\<close>.\<close>

definition sender_try_clone :: "(sock \<Rightarrow> io_error + sock) \<Rightarrow> sender \<Rightarrow> sender outcome" where
  "sender_try_clone dup sd =
     (case dup (sd_default_udp sd) of
        Inl e \<Rightarrow> Err e
      | Inr s \<Rightarrow> Ok \<lparr>sd_default_udp = s\<rparr>)"

subsection \<open>Sending\<close>

definition sender_send_to_addr ::
    "os_send \<Rightarrow> sender \<Rightarrow> bytes \<Rightarrow> socket_addr \<Rightarrow> history \<Rightarrow> nat outcome \<times> history" where
  "sender_send_to_addr os sd buf a h = send_all_std os (sd_default_udp sd) buf a h"

text \<open>
  The loop of \<^verbatim>\<open>send_to_addr_all\<close>: \<open>count\<close> sockets are done; after a socket that makes
  \<^verbatim>\<open>count & 2 == 2\<close> true the thread sleeps for a millisecond.
\<close>

fun send_each ::
    "os_send \<Rightarrow> bytes \<Rightarrow> socket_addr \<Rightarrow> sock list \<Rightarrow> nat \<Rightarrow> history \<Rightarrow> unit outcome \<times> history" where
  "send_each os buf a [] count h = (Ok (), h)"
| "send_each os buf a (u # us) count h =
     and_then (send_all_std os u buf a h) (\<lambda>_ h1.
       let count' = count + 1;
           h2 = (if and count' 2 = 2 then h1 @ [SleepMs 1] else h1)
       in send_each os buf a us count' h2)"

definition sender_send_to_addr_all ::
    "os_send \<Rightarrow> sender \<Rightarrow> sock list \<Rightarrow> bytes \<Rightarrow> socket_addr \<Rightarrow> history \<Rightarrow> unit outcome \<times> history" where
  "sender_send_to_addr_all os sd share buf a h =
     and_then (send_all_std os (sd_default_udp sd) buf a h) (\<lambda>_ h1.
       send_each os buf a share 0 h1)"

definition sender_send_to_route ::
    "os_send \<Rightarrow> i64 \<Rightarrow> sender \<Rightarrow> bytes \<Rightarrow> route_key \<Rightarrow> 'id shared \<Rightarrow> nat outcome \<times> 'id shared" where
  "sender_send_to_route os now sd buf k sh =
     (let sh1 = sh\<lparr>tables := touch_write k now (tables sh)\<rparr> in
      if rk_index k = DEFAULT_TOKEN_INDEX then
        let (r, h) = send_all_std os (sd_default_udp sd) buf (rk_addr k) (calls sh1)
        in (r, sh1\<lparr>calls := h\<rparr>)
      else
        case vec_get (share_info sh1) (rk_index k) of
          Some udp \<Rightarrow>
            let (r, h) = send_all_std os udp buf (rk_addr k) (calls sh1)
            in (r, sh1\<lparr>calls := h\<rparr>)
        | None \<Rightarrow> (Err not_fount, sh1))"

definition sender_send_to_id ::
    "os_send \<Rightarrow> i64 \<Rightarrow> sender \<Rightarrow> bytes \<Rightarrow> 'id \<Rightarrow> 'id shared \<Rightarrow> nat outcome \<times> 'id shared" where
  "sender_send_to_id os now sd buf i sh =
     (case direct_route_table (tables sh) i of
        None \<Rightarrow> (Err (IoError Other ''not fount route''), sh)
      | Some e \<Rightarrow> sender_send_to_route os now sd buf (route_key e) sh)"

subsection \<open>Routes\<close>

text \<open>The public operations of \<^verbatim>\<open>Sender\<close> on the tables; adding a route wakes the idle thread.\<close>

definition sender_add_route :: "'id \<Rightarrow> route \<Rightarrow> i64 \<Rightarrow> 'id shared \<Rightarrow> 'id shared" where
  "sender_add_route i r now sh = unpark (sh\<lparr>tables := add_route i r now (tables sh)\<rparr>)"

definition sender_update_route :: "'id \<Rightarrow> u8 \<Rightarrow> i64 \<Rightarrow> 'id shared \<Rightarrow> 'id shared" where
  "sender_update_route i m rt sh = sh\<lparr>tables := update_route i m rt (tables sh)\<rparr>"

definition sender_remove_route :: "'id \<Rightarrow> 'id shared \<Rightarrow> 'id shared" where
  "sender_remove_route i sh = sh\<lparr>tables := remove_route i (tables sh)\<rparr>"

definition sender_route :: "'id \<Rightarrow> 'id shared \<Rightarrow> route option" where
  "sender_route i sh = route_of i (tables sh)"

definition sender_route_to_id :: "route_key \<Rightarrow> 'id shared \<Rightarrow> 'id option" where
  "sender_route_to_id k sh = route_to_id k (tables sh)"

definition sender_route_table ::
    "(('id \<rightharpoonup> route) \<Rightarrow> ('id \<times> route) list) \<Rightarrow> 'id shared \<Rightarrow> ('id \<times> route) list" where
  "sender_route_table it sh = route_table it (tables sh)"

subsection \<open>The contract of sending to an address\<close>

text \<open>
  \<^verbatim>\<open>Punch\<close> sends through \<^verbatim>\<open>send_to_addr\<close> or \<^verbatim>\<open>send_to_addr_all\<close>. What it relies on: only the given
  bytes go out, only to the given address, from the sockets \<open>socks\<close>; all of them are used when the
  call succeeds; no socket is used more than eleven times.
\<close>

locale address_sender =
  fixes send :: "socket_addr \<Rightarrow> history \<Rightarrow> 'r outcome \<times> history"
    and buf :: bytes
    and socks :: "sock list"
  assumes sent_only: "\<exists>ext. sends (snd (send a h)) = sends h @ map (\<lambda>s. (s, buf, a)) ext \<and>
      set ext \<subseteq> set socks \<and> length ext \<le> 11 * length socks \<and>
      (is_ok (fst (send a h)) \<longrightarrow> set ext = set socks)"
    and never_panics: "fst (send a h) \<noteq> Panic"
begin

lemma dest_only:
  "(s, b, d) \<in> set (sends (snd (send a h))) \<Longrightarrow>
   (s, b, d) \<in> set (sends h) \<or> (b = buf \<and> d = a \<and> s \<in> set socks)"
  using sent_only [of a h] by auto

lemma sends_kept: "set (sends h) \<subseteq> set (sends (snd (send a h)))"
  using sent_only [of a h] by auto

lemma ok_reaches: "fst (send a h) = Ok r \<Longrightarrow> s \<in> set socks \<Longrightarrow>
   (s, buf, a) \<in> set (sends (snd (send a h)))"
  using sent_only [of a h] by auto

lemma cost: "length (sends (snd (send a h))) \<le> length (sends h) + 11 * length socks"
  using sent_only [of a h] by auto

end

interpretation one: address_sender "\<lambda>a. sender_send_to_addr os sd buf a" buf "[sd_default_udp sd]"
proof unfold_locales
  fix a h
  obtain n where "n \<le> 10" and "sends (snd (sender_send_to_addr os sd buf a h)) =
      sends h @ replicate (Suc n) (sd_default_udp sd, buf, a)"
    using std_socket.sends_after [of os "sd_default_udp sd" buf a h]
    by (auto simp: sender_send_to_addr_def)
  then show "\<exists>ext. sends (snd (sender_send_to_addr os sd buf a h)) =
      sends h @ map (\<lambda>s. (s, buf, a)) ext \<and> set ext \<subseteq> set [sd_default_udp sd] \<and>
      length ext \<le> 11 * length [sd_default_udp sd] \<and>
      (is_ok (fst (sender_send_to_addr os sd buf a h)) \<longrightarrow> set ext = set [sd_default_udp sd])"
    by (intro exI [of _ "replicate (Suc n) (sd_default_udp sd)"]) auto
  show "fst (sender_send_to_addr os sd buf a h) \<noteq> Panic"
    by (simp add: sender_send_to_addr_def std_socket.no_panic)
qed

lemma sends_sleep [simp]: "sends (if b then h @ [SleepMs n] else h) = sends h"
  by simp

lemma send_each_spec:
  "\<exists>ext. sends (snd (send_each os buf a us count h)) = sends h @ map (\<lambda>s. (s, buf, a)) ext \<and>
     set ext \<subseteq> set us \<and> length ext \<le> 11 * length us \<and>
     (is_ok (fst (send_each os buf a us count h)) \<longrightarrow> set ext = set us) \<and>
     fst (send_each os buf a us count h) \<noteq> Panic"
proof (induction us arbitrary: count h)
  case Nil
  then show ?case by (intro exI [of _ "[]"]) simp
next
  case (Cons u us)
  obtain n where n: "n \<le> 10" "sends (snd (send_all_std os u buf a h)) =
      sends h @ replicate (Suc n) (u, buf, a)"
    using std_socket.sends_after [of os u buf a h] by blast
  show ?case
  proof (cases rule: std_socket.outcome_cases [of os u buf a h])
    case (1 len h1)
    let ?h = "if and (count + 1) 2 = 2 then h1 @ [SleepMs 1] else h1"
    obtain ext where ext: "sends (snd (send_each os buf a us (count + 1) ?h)) =
        sends ?h @ map (\<lambda>s. (s, buf, a)) ext" "set ext \<subseteq> set us" "length ext \<le> 11 * length us"
      "is_ok (fst (send_each os buf a us (count + 1) ?h)) \<longrightarrow> set ext = set us"
      "fst (send_each os buf a us (count + 1) ?h) \<noteq> Panic"
      using Cons.IH [of "count + 1" ?h] by blast
    have "sends ?h = sends h @ replicate (Suc n) (u, buf, a)"
      using n 1 by simp
    with 1 n(1) ext show ?thesis
      by (intro exI [of _ "replicate (Suc n) u @ ext"]) (auto simp: Let_def)
  next
    case (2 e h1)
    with n show ?thesis
      by (intro exI [of _ "replicate (Suc n) u"]) auto
  qed
qed

lemma send_to_addr_all_spec:
  "\<exists>ext. sends (snd (sender_send_to_addr_all os sd share buf a h)) =
       sends h @ map (\<lambda>s. (s, buf, a)) ext \<and>
     set ext \<subseteq> set (sd_default_udp sd # share) \<and> length ext \<le> 11 * length (sd_default_udp sd # share) \<and>
     (is_ok (fst (sender_send_to_addr_all os sd share buf a h)) \<longrightarrow>
        set ext = set (sd_default_udp sd # share)) \<and>
     fst (sender_send_to_addr_all os sd share buf a h) \<noteq> Panic"
proof -
  let ?u = "sd_default_udp sd"
  obtain n where n: "n \<le> 10" "sends (snd (send_all_std os ?u buf a h)) =
      sends h @ replicate (Suc n) (?u, buf, a)"
    using std_socket.sends_after [of os ?u buf a h] by blast
  show ?thesis
  proof (cases rule: std_socket.outcome_cases [of os ?u buf a h])
    case (1 len h1)
    obtain ext where "sends (snd (send_each os buf a share 0 h1)) =
        sends h1 @ map (\<lambda>s. (s, buf, a)) ext" "set ext \<subseteq> set share" "length ext \<le> 11 * length share"
      "is_ok (fst (send_each os buf a share 0 h1)) \<longrightarrow> set ext = set share"
      "fst (send_each os buf a share 0 h1) \<noteq> Panic"
      using send_each_spec [of os buf a share 0 h1] by blast
    with 1 n show ?thesis
      by (intro exI [of _ "replicate (Suc n) ?u @ ext"]) (auto simp: sender_send_to_addr_all_def)
  next
    case (2 e h1)
    with n show ?thesis
      by (intro exI [of _ "replicate (Suc n) ?u"]) (auto simp: sender_send_to_addr_all_def)
  qed
qed

interpretation every: address_sender "\<lambda>a. sender_send_to_addr_all os sd share buf a" buf
    "sd_default_udp sd # share"
  using send_to_addr_all_spec by unfold_locales blast+

subsection \<open>Properties\<close>

text \<open>
  C7: Sending to a peer id. Without a route nothing happens and the error is "not fount route".
  With a route, the write clock of its key is set even when the send fails; if the key's index is
  the default index or an index of the shared socket list, the bytes go out from that socket to the
  address of the route and nowhere else, once for every answer "not now" and once more, eleven times at most, and
  the result is the system's answer to the last of them, the number of bytes or the error; otherwise nothing
  is sent and the error is "not fount". The routes, the sockets and the status do not change.
\<close>

theorem send_to_id_target:
  "case sender_send_to_id os now sd buf i sh of (r, sh') \<Rightarrow>
   case route_of i (tables sh) of
     None \<Rightarrow> r = Err (IoError Other ''not fount route'') \<and> sh' = sh
   | Some q \<Rightarrow>
       tables sh' = touch_write (route_key q) now (tables sh) \<and>
       status sh' = status sh \<and> share_info sh' = share_info sh \<and>
       (case (if r_index q = 100000 then Some (sd_default_udp sd)
              else vec_get (share_info sh) (r_index q)) of
          None \<Rightarrow> r = Err (IoError Other ''not fount'') \<and> calls sh' = calls sh
        | Some u \<Rightarrow> \<exists>n. n \<le> 10 \<and>
            sends (calls sh') = sends (calls sh) @ replicate (Suc n) (u, buf, r_addr q) \<and>
            (\<forall>j < n. not_now os u buf (r_addr q) (tried u buf (r_addr q) j (calls sh))) \<and>
            (n = 10 \<or> \<not> not_now os u buf (r_addr q) (tried u buf (r_addr q) n (calls sh))) \<and>
            r = final_answer (os (tried u buf (r_addr q) n (calls sh)) u buf (r_addr q)))"
proof -
  have out: "\<exists>n \<le> 10. sends (snd (send_all_std os u buf a h)) = sends h @ replicate (Suc n) (u, buf, a) \<and>
      (\<forall>j < n. not_now os u buf a (tried u buf a j h)) \<and>
      (n = 10 \<or> \<not> not_now os u buf a (tried u buf a n h)) \<and>
      fst (send_all_std os u buf a h) = final_answer (os (tried u buf a n h) u buf a)" for u a h
  proof -
    obtain n where "n \<le> 10" "ends_after os u buf a h n (n = 10) (send_all_std os u buf a h)"
      using send_all_std_ends by blast
    then show ?thesis
      by (intro exI [of _ n]) (auto simp: ends_after_def sends_tried replicate_append_same)
  qed
  show ?thesis
    using out
    by (auto simp: sender_send_to_id_def sender_send_to_route_def route_of_def route_key_def
        DEFAULT_TOKEN_INDEX_def not_fount_def Let_def case_prod_beta
        split: option.split)
qed

theorem send_to_id_target_witness:
  "\<exists>sh'. sender_send_to_id (\<lambda>h s b a. Inr 2) 40 \<lparr>sd_default_udp = 5\<rparr> [7] (4 :: nat)
       ((shared_new StSymmetric)\<lparr>share_info := [3, 8],
          tables := add_route 4 (route_new 1 (SockV4 9 80) 1 1) 30 tables_new\<rparr>) = (Ok 2, sh') \<and>
     sends (calls sh') = [(8, [7], SockV4 9 80)]"
proof -
  let ?sh = "(shared_new StSymmetric)\<lparr>share_info := [3, 8],
    tables := add_route 4 (route_new 1 (SockV4 9 80) 1 1) 30 tables_new\<rparr> :: nat shared"
  let ?os = "\<lambda>h s b a. Inr 2"
  obtain r sh' where run: "sender_send_to_id ?os 40 \<lparr>sd_default_udp = 5\<rparr> [7] 4 ?sh = (r, sh')" by fastforce
  have route: "route_of 4 (tables ?sh) = Some (route_new 1 (SockV4 9 80) 1 1)" by (simp add: rs.lookup_add)
  have never: "\<not> not_now ?os 8 [7] (SockV4 9 80) h" for h by (simp add: not_now_def)
  obtain n where n: "n \<le> 10" "\<forall>j < n. not_now ?os 8 [7] (SockV4 9 80) (tried 8 [7] (SockV4 9 80) j (calls ?sh))"
    "sends (calls sh') = sends (calls ?sh) @ replicate (Suc n) (8, [7], SockV4 9 80)" "r = final_answer (Inr 2)"
    using send_to_id_target [where os = ?os and now = 40 and sd = "\<lparr>sd_default_udp = 5\<rparr>" and buf = "[7]" and i = 4 and sh = ?sh] run route
    by (auto simp: route_new_def)
  have "n = 0" using n(2) never by blast
  with run n(3,4) show ?thesis by (simp add: final_answer_def shared_new_def)
qed

text \<open>
  \<^verbatim>\<open>send_to_addr_all\<close>: only the given bytes are sent, only to the given address, and only
  from the default socket and the shared sockets, at most eleven copies from each; when it
  succeeds every one of these sockets has sent. It never panics.
\<close>

theorem send_to_addr_all_reaches_from_every_socket:
  "\<exists>ext. sends (snd (sender_send_to_addr_all os sd share buf a h)) =
           sends h @ map (\<lambda>s. (s, buf, a)) ext \<and>
         set ext \<subseteq> set (sd_default_udp sd # share) \<and>
         length ext \<le> 11 * length (sd_default_udp sd # share) \<and>
         (fst (sender_send_to_addr_all os sd share buf a h) = Ok () \<longrightarrow>
            set ext = set (sd_default_udp sd # share)) \<and>
         fst (sender_send_to_addr_all os sd share buf a h) \<noteq> Panic"
  using every.sent_only [of os sd share buf a h] every.never_panics [of os sd share buf a h]
  by (auto simp: is_ok_iff)

theorem send_to_addr_all_reaches_from_every_socket_witness:
  "\<exists>ext. sends (snd (sender_send_to_addr_all (\<lambda>h s b a. Inr 2) \<lparr>sd_default_udp = 1\<rparr> [4, 5]
            [7, 7] (SockV4 9 80) [])) = map (\<lambda>s. (s, [7, 7], SockV4 9 80)) ext \<and> set ext = {1, 4, 5}"
proof -
  have "fst (sender_send_to_addr_all (\<lambda>h s b a. Inr 2) \<lparr>sd_default_udp = 1\<rparr> [4, 5]
      [7, 7] (SockV4 9 80) []) = Ok ()"
    by (simp add: sender_send_to_addr_all_def std_socket.accepted Let_def)
  then show ?thesis
    using send_to_addr_all_reaches_from_every_socket [of "\<lambda>h s b a. Inr 2" "\<lparr>sd_default_udp = 1\<rparr>"
        "[4, 5]" "[7, 7]" "SockV4 9 80" "[]"]
    by auto
qed

text \<open>
  The route table that \<^verbatim>\<open>route_table\<close> returns lists every peer that has a route exactly once,
  with its current route, whatever order the concurrent map is iterated in.
\<close>

theorem route_table_complete:
  assumes "iterates_map it" and "tables_ok (tables sh)"
  shows "distinct (map fst (sender_route_table it sh)) \<and>
    (\<forall>i r. (i, r) \<in> set (sender_route_table it sh) \<longleftrightarrow> sender_route i sh = Some r)"
proof -
  from assms(2) have "finite (dom (direct_route_table (tables sh)))"
    by (auto simp: tables_ok_def store_rel_def finite_dom_map_of)
  with assms(1) have "distinct (map fst (it (direct_route_table (tables sh))))"
    and "map_of (it (direct_route_table (tables sh))) = direct_route_table (tables sh)"
    by (auto simp: iterates_map_def)
  moreover have "sender_route_table it sh = it (direct_route_table (tables sh))"
    by (simp add: sender_route_table_def route_table_def)
  ultimately show ?thesis
    by (metis map_of_eq_Some_iff route_of_def sender_route_def)
qed

theorem route_table_complete_witness:
  "(7::nat, route_new 0 (SockV4 9 9) 1 1) \<in> set (sender_route_table sorted_iter
     (sender_add_route 7 (route_new 0 (SockV4 9 9) 1 1) 5 (shared_new StCone)))"
proof -
  let ?sh = "sender_add_route (7::nat) (route_new 0 (SockV4 9 9) 1 1) 5 (shared_new StCone)"
  have "tables_ok (tables ?sh)"
    by (simp add: sender_add_route_def unpark_def shared_new_def rs.inv_add [OF tables_ok_new])
  then have "(7, route_new 0 (SockV4 9 9) 1 1) \<in> set (sender_route_table sorted_iter ?sh) \<longleftrightarrow>
      sender_route 7 ?sh = Some (route_new 0 (SockV4 9 9) 1 1)"
    using route_table_complete [OF sorted_iter_iterates] by blast
  then show ?thesis
    by (simp add: sender_route_def sender_add_route_def unpark_def rs.lookup_add)
qed

end
