(* ===== verification/Idle.thy ===== *)
theory Idle
  imports Sender
begin

section \<open>Idle routes\<close>

text \<open>
  \<^verbatim>\<open>src/idle/mod.rs\<close>: the thread that waits for a route on which nothing was read or written for
  too long. The clock, the other threads and the parking are arguments: \<open>ie_now k\<close> and
  \<open>ie_later k\<close> are the two clock readings of round \<open>k\<close>, \<open>ie_between k\<close> is what the other threads
  do to the shared state between the scan of the table and the test whether it is empty, and
  \<open>ie_park k\<close> what they do while the thread is parked. The scan itself sees one state of the
  table. The loop may run for ever, so it takes fuel, one unit for each round.
\<close>

subsection \<open>Model\<close>

datatype idle_status = IdleWrite | IdleRead | IdleBoth

record idle =
  read_idle :: i64
  write_idle :: i64

definition idle_new :: "i64 \<Rightarrow> i64 \<Rightarrow> idle" where
  "idle_new r w = \<lparr>read_idle = r, write_idle = w\<rparr>"

datatype park_call = Park | ParkTimeout u64

record 'id idle_env =
  ie_now :: "nat \<Rightarrow> i64"
  ie_later :: "nat \<Rightarrow> i64"
  ie_between :: "nat \<Rightarrow> 'id shared \<Rightarrow> 'id shared"
  ie_park :: "nat \<Rightarrow> park_call \<Rightarrow> 'id shared \<Rightarrow> 'id shared"
  ie_iter :: "'id time_table \<Rightarrow> (route_key \<times> 'id time_entry) list"

type_synonym 'id idle_report = "idle_status \<times> 'id list \<times> route_key"

text \<open>
  The scan of the entries: the first idle one is reported; without one the result is \<open>least\<close> (\<^verbatim>\<open>min\<close> in the code), the
  earliest clock that was looked at. All comparisons are signed.
\<close>

fun idle_scan ::
    "idle \<Rightarrow> i64 \<Rightarrow> i64 \<Rightarrow> (route_key \<times> 'id time_entry) list \<Rightarrow> i64 \<Rightarrow> 'id idle_report + i64" where
  "idle_scan idl last_read_idle last_write_idle [] least = Inr least"
| "idle_scan idl last_read_idle last_write_idle ((key, e) # es) least =
     (let is_read_idle = (0 <s read_idle idl \<and> te_read e <s last_read_idle);
          min1 = (if 0 <s read_idle idl \<and> \<not> te_read e <s last_read_idle \<and> te_read e <s least
                  then te_read e else least)
      in if 0 <s write_idle idl then
           if te_write e <s last_write_idle then
             Inl (if is_read_idle then IdleBoth else IdleWrite, te_ids e, key)
           else
             let min2 = (if te_write e <s min1 then te_write e else min1)
             in if is_read_idle then Inl (IdleRead, te_ids e, key)
                else idle_scan idl last_read_idle last_write_idle es min2
         else if is_read_idle then Inl (IdleRead, te_ids e, key)
         else idle_scan idl last_read_idle last_write_idle es min1)"

text \<open>
  One round: the scan, then parking, then the test of the status. The result is the value to
  return, if there is one, the call that parked the thread, if it was parked, and the state.
\<close>

type_synonym 'id idle_result = "'id idle_report outcome option \<times> park_call option \<times> 'id shared"

definition park_for ::
    "bool \<Rightarrow> 'id idle_env \<Rightarrow> nat \<Rightarrow> i64 \<Rightarrow> 'id shared \<Rightarrow> park_call option outcome" where
  "park_for chk env k least sh =
     (if direct_route_table_time (tables sh) = Map.empty then Ok (Some Park)
      else bind_outcome (i64_sub chk (ie_later env k) least) (\<lambda>sleep_time.
        Ok (if 0 <s sleep_time then Some (ParkTimeout sleep_time) else None)))"

definition idle_wait ::
    "bool \<Rightarrow> 'id idle_env \<Rightarrow> nat \<Rightarrow> i64 \<Rightarrow> 'id shared \<Rightarrow> 'id idle_result" where
  "idle_wait chk env k least sh =
     (let sh1 = ie_between env k sh in
      case park_for chk env k least sh1 of
        Panic \<Rightarrow> (Some Panic, None, sh1)
      | Err e \<Rightarrow> (Some (Err e), None, sh1)
      | Ok p \<Rightarrow>
          let sh2 = (case p of Some c \<Rightarrow> ie_park env k c sh1 | None \<Rightarrow> sh1)
          in (if status sh2 = StClose then Some (Err (IoError Other ''closed'')) else None, p, sh2))"

definition idle_round ::
    "bool \<Rightarrow> 'id idle_env \<Rightarrow> idle \<Rightarrow> nat \<Rightarrow> 'id shared \<Rightarrow> 'id idle_result" where
  "idle_round chk env idl k sh =
     (case bind_outcome (i64_sub chk (ie_now env k) (read_idle idl)) (\<lambda>last_read_idle.
           bind_outcome (i64_sub chk (ie_now env k) (write_idle idl)) (\<lambda>last_write_idle.
             Ok (idle_scan idl last_read_idle last_write_idle
                   (ie_iter env (direct_route_table_time (tables sh))) i64_max))) of
        Panic \<Rightarrow> (Some Panic, None, sh)
      | Err e \<Rightarrow> (Some (Err e), None, sh)
      | Ok (Inl report) \<Rightarrow> (Some (Ok report), None, sh)
      | Ok (Inr least) \<Rightarrow> idle_wait chk env k least sh)"

fun next_idle ::
    "nat \<Rightarrow> bool \<Rightarrow> 'id idle_env \<Rightarrow> idle \<Rightarrow> nat \<Rightarrow> 'id shared
     \<Rightarrow> ('id idle_report outcome \<times> 'id shared) option" where
  "next_idle 0 chk env idl k sh = None"
| "next_idle (Suc fuel) chk env idl k sh =
     (case idle_round chk env idl k sh of
        (Some rs, p, sh') \<Rightarrow> Some (rs, sh')
      | (None, p, sh') \<Rightarrow> next_idle fuel chk env idl (k + 1) sh')"

subsection \<open>Which routes are idle\<close>

text \<open>
  The specification: at time \<open>now\<close> an entry is read-idle when more than \<open>read_idle\<close> milliseconds
  have passed since its last read, and a limit that is not positive switches the test off.
\<close>

definition idle_kind :: "idle \<Rightarrow> i64 \<Rightarrow> 'id time_entry \<Rightarrow> idle_status option" where
  "idle_kind idl now e =
     (let r = (0 < sint (read_idle idl) \<and> sint (te_read e) + sint (read_idle idl) < sint now);
          w = (0 < sint (write_idle idl) \<and> sint (te_write e) + sint (write_idle idl) < sint now)
      in if r \<and> w then Some IdleBoth else if r then Some IdleRead
         else if w then Some IdleWrite else None)"

definition limits_fit :: "idle \<Rightarrow> i64 \<Rightarrow> bool" where
  "limits_fit idl now \<longleftrightarrow> i64_fits now (read_idle idl) \<and> i64_fits now (write_idle idl)"

text \<open>The clocks of an entry that the scan looks at.\<close>

definition watched :: "idle \<Rightarrow> 'id time_entry \<Rightarrow> i64 set" where
  "watched idl e =
     (if 0 <s read_idle idl then {te_read e} else {}) \<union>
     (if 0 <s write_idle idl then {te_write e} else {})"

lemma idle_kind_words:
  assumes "limits_fit idl now"
  shows "idle_kind idl now e =
    (let r = (0 <s read_idle idl \<and> te_read e <s now - read_idle idl);
         w = (0 <s write_idle idl \<and> te_write e <s now - write_idle idl)
     in if r \<and> w then Some IdleBoth else if r then Some IdleRead
        else if w then Some IdleWrite else None)"
  using assms
  by (auto simp: idle_kind_def limits_fit_def word_sless_alt sint_diff_fits Let_def)

lemma idle_scan_step:
  assumes "limits_fit idl now"
  shows "idle_scan idl (now - read_idle idl) (now - write_idle idl) ((key, e) # es) least =
    (case idle_kind idl now e of
       Some st \<Rightarrow> Inl (st, te_ids e, key)
     | None \<Rightarrow> idle_scan idl (now - read_idle idl) (now - write_idle idl) es
         (let m1 = (if 0 <s read_idle idl \<and> te_read e <s least then te_read e else least)
          in if 0 <s write_idle idl \<and> te_write e <s m1 then te_write e else m1))"
  by (simp add: idle_kind_words [OF assms] Let_def del: One_nat_def)

abbreviation scan_at :: "idle \<Rightarrow> i64 \<Rightarrow> (route_key \<times> 'id time_entry) list \<Rightarrow> i64 \<Rightarrow> 'id idle_report + i64" where
  "scan_at idl now \<equiv> idle_scan idl (now - read_idle idl) (now - write_idle idl)"

text \<open>Without an idle entry the scan is a minimum over the clocks it watches.\<close>

lemma scan_no_idle:
  assumes "limits_fit idl now" and "\<And>key e. (key, e) \<in> set es \<Longrightarrow> idle_kind idl now e = None"
  shows "\<exists>m. scan_at idl now es least = Inr m \<and>
    sint m = Min (insert (sint least) (\<Union>p \<in> set es. sint ` watched idl (snd p)))"
  using assms(2)
proof (induction es arbitrary: least)
  case Nil
  then show ?case by simp
next
  case (Cons p es)
  obtain key e where p: "p = (key, e)" by (cases p)
  let ?m1 = "if 0 <s read_idle idl \<and> te_read e <s least then te_read e else least"
  let ?m = "if 0 <s write_idle idl \<and> te_write e <s ?m1 then te_write e else ?m1"
  have "idle_kind idl now e = None"
    using Cons.prems [of key e] p by simp
  then have step: "scan_at idl now (p # es) least = scan_at idl now es ?m"
    unfolding p by (simp only: idle_scan_step [OF assms(1)] option.case Let_def)
  have m: "sint ?m = Min (insert (sint least) (sint ` watched idl e))"
    by (auto simp: watched_def word_sless_alt min_def)
  obtain r where r: "scan_at idl now es ?m = Inr r"
    "sint r = Min (insert (sint ?m) (\<Union>p \<in> set es. sint ` watched idl (snd p)))"
    using Cons.IH [of ?m] Cons.prems by auto
  have fin: "finite (sint ` watched idl e)" "finite (\<Union>p \<in> set es. sint ` watched idl (snd p))"
    by (auto simp: watched_def)
  have "Min (insert (Min (insert a B)) C) = Min (insert a (B \<union> C))"
    if "finite B" "finite C" for a :: int and B C
    using that by (cases "B = {}"; cases "C = {}") (auto simp: Min_Un min.assoc)
  from this [OF fin, of "sint least"] step r m p show ?case
    by simp
qed

lemma scan_found:
  assumes "limits_fit idl now" and "\<And>key e. (key, e) \<in> set es1 \<Longrightarrow> idle_kind idl now e = None"
    and "idle_kind idl now e = Some st"
  shows "scan_at idl now (es1 @ (key, e) # es2) least = Inl (st, te_ids e, key)"
  using assms(2)
proof (induction es1 arbitrary: least)
  case Nil
  then show ?case by (simp add: idle_scan_step [OF assms(1)] assms(3) del: idle_scan.simps)
next
  case (Cons p es1)
  then have "idle_kind idl now (snd p) = None" by (cases p) auto
  moreover have "scan_at idl now (es1 @ (key, e) # es2) m = Inl (st, te_ids e, key)" for m
    by (rule Cons.IH) (metis Cons.prems list.set_intros(2))
  ultimately show ?case
    by (cases p) (simp add: idle_scan_step [OF assms(1)] del: idle_scan.simps)
qed

lemma scan_cases:
  assumes "limits_fit idl now"
  obtains (found) es1 key e es2 st where "es = es1 @ (key, e) # es2" "idle_kind idl now e = Some st"
      "\<forall>(key, e) \<in> set es1. idle_kind idl now e = None"
      "scan_at idl now es least = Inl (st, te_ids e, key)"
    | (none) m where "\<forall>(key, e) \<in> set es. idle_kind idl now e = None" "scan_at idl now es least = Inr m"
proof (cases "\<exists>p \<in> set es. idle_kind idl now (snd p) \<noteq> None")
  case True
  then obtain es1 p es2 where es: "es = es1 @ p # es2" "idle_kind idl now (snd p) \<noteq> None"
    "\<forall>q \<in> set es1. \<not> idle_kind idl now (snd q) \<noteq> None"
    using split_list_first_prop [of es "\<lambda>p. idle_kind idl now (snd p) \<noteq> None"] by blast
  obtain st where st: "idle_kind idl now (snd p) = Some st"
    using es(2) by auto
  show ?thesis
  proof (rule found)
    show "es = es1 @ (fst p, snd p) # es2" using es by simp
    show "idle_kind idl now (snd p) = Some st" by (rule st)
    show "\<forall>(key, e) \<in> set es1. idle_kind idl now e = None" using es(3) by auto
    show "scan_at idl now es least = Inl (st, te_ids (snd p), fst p)"
      unfolding es(1) using scan_found [OF assms, of es1 "snd p" st "fst p" es2 least] es(3) st by force
  qed
next
  case False
  then have no: "\<forall>(key, e) \<in> set es. idle_kind idl now e = None" by auto
  then obtain m where "scan_at idl now es least = Inr m"
    using scan_no_idle [OF assms, of es least] by auto
  with no show ?thesis by (rule none)
qed

subsection \<open>Iterating the time table\<close>

lemma tables_ok_finite: "tables_ok t \<Longrightarrow> finite (dom (direct_route_table_time t))"
proof -
  assume "tables_ok t"
  then obtain l where l: "store_rel l t" by (auto simp: tables_ok_def)
  have "dom (direct_route_table_time t) \<subseteq> (route_key \<circ> snd) ` set l"
  proof
    fix k assume "k \<in> dom (direct_route_table_time t)"
    then have "ids_at k l \<noteq> []"
      using l by (auto simp: store_rel_def dest: times_rel_Some)
    then show "k \<in> (route_key \<circ> snd) ` set l"
      by (auto simp: ids_at_def filter_empty_conv)
  qed
  then show ?thesis by (rule finite_subset) simp
qed

text \<open>The entries in the order of the scan: what comes before an entry are the smaller keys.\<close>

lemma in_order_before:
  assumes "iterates_in_order it" and "finite (dom m)" and "it m = es1 @ (key, e) # es2"
  shows "m key = Some e" and "k' < key \<Longrightarrow> m k' = Some e' \<Longrightarrow> (k', e') \<in> set es1"
    and "(k', e') \<in> set es1 \<Longrightarrow> k' < key"
proof -
  have d: "distinct (map fst (it m))" and o: "map_of (it m) = m" and s: "sorted (map fst (it m))"
    using assms(1,2) by (auto simp: iterates_in_order_def iterates_map_def)
  have mem: "m k = Some v \<longleftrightarrow> (k, v) \<in> set (it m)" for k v
    using d o by (metis map_of_eq_Some_iff)
  show "m key = Some e"
    by (simp add: mem assms(3))
  have le: "key \<le> k2" if "(k2, e2) \<in> set es2" for k2 e2
    using s that by (force simp: assms(3) sorted_append)
  show "(k', e') \<in> set es1" if "k' < key" "m k' = Some e'"
    using that le [of k' e'] by (auto simp: mem assms(3))
  show "k' < key" if "(k', e') \<in> set es1"
    using s d that by (force simp: assms(3) sorted_append order.strict_iff_order)
qed

lemma iterates_set: "iterates_in_order it \<Longrightarrow> finite (dom m) \<Longrightarrow> (k, v) \<in> set (it m) \<longleftrightarrow> m k = Some v"
  unfolding iterates_in_order_def iterates_map_def by (metis map_of_eq_Some_iff)

subsection \<open>Rounds\<close>

lemma idle_round_scan:
  assumes "limits_fit idl (ie_now env k)"
  shows "idle_round chk env idl k sh =
    (case scan_at idl (ie_now env k) (ie_iter env (direct_route_table_time (tables sh))) i64_max of
       Inl report \<Rightarrow> (Some (Ok report), None, sh)
     | Inr m \<Rightarrow> idle_wait chk env k m sh)"
  using assms by (simp add: idle_round_def limits_fit_def i64_sub_fits)

lemma idle_wait_no_report: "fst (idle_wait chk env k m sh) \<noteq> Some (Ok r)"
  by (simp add: idle_wait_def Let_def split: outcome.split)

lemma idle_round_report:
  assumes "limits_fit idl (ie_now env k)" and "iterates_in_order (ie_iter env)"
    and "tables_ok (tables sh)" and "idle_round chk env idl k sh = (Some (Ok (st, ids, key)), p, sh')"
  shows "sh' = sh \<and> (\<exists>e. direct_route_table_time (tables sh) key = Some e \<and> ids = te_ids e \<and>
    idle_kind idl (ie_now env k) e = Some st \<and>
    (\<forall>k' e'. k' < key \<and> direct_route_table_time (tables sh) k' = Some e' \<longrightarrow>
       idle_kind idl (ie_now env k) e' = None))"
proof -
  let ?m = "direct_route_table_time (tables sh)"
  let ?es = "ie_iter env ?m"
  have fin: "finite (dom ?m)" using assms(3) by (rule tables_ok_finite)
  show ?thesis
  proof (cases rule: scan_cases [OF assms(1), of ?es i64_max])
    case found: (1 es1 key' e es2 st')
    have r: "sh' = sh" "st = st'" "ids = te_ids e" "key = key'"
      using assms(4) by (simp_all add: idle_round_scan [OF assms(1)] found(4))
    have "idle_kind idl (ie_now env k) e2 = None" if "k2 < key" "?m k2 = Some e2" for k2 e2
      using in_order_before(2) [OF assms(2) fin found(1)] that found(3) r by blast
    with r found(2) in_order_before(1) [OF assms(2) fin found(1)] show ?thesis by blast
  next
    case none: (2 m)
    with assms(4) idle_wait_no_report [of chk env k m sh "(st, ids, key)"] show ?thesis
      by (simp add: idle_round_scan [OF assms(1)])
  qed
qed

lemma idle_round_finds:
  assumes "limits_fit idl (ie_now env k)" and "iterates_in_order (ie_iter env)"
    and "tables_ok (tables sh)" and "direct_route_table_time (tables sh) key = Some e"
    and "idle_kind idl (ie_now env k) e \<noteq> None"
  shows "\<exists>st ids key'. key' \<le> key \<and> idle_round chk env idl k sh = (Some (Ok (st, ids, key')), None, sh)"
proof -
  let ?m = "direct_route_table_time (tables sh)"
  have fin: "finite (dom ?m)" using assms(3) by (rule tables_ok_finite)
  have mem: "(key, e) \<in> set (ie_iter env ?m)"
    using iterates_set [OF assms(2) fin] assms(4) by blast
  show ?thesis
  proof (cases rule: scan_cases [OF assms(1), of "ie_iter env ?m" i64_max])
    case found: (1 es1 key' e' es2 st')
    have "key' \<le> key"
    proof (rule ccontr)
      assume "\<not> key' \<le> key"
      then have "(key, e) \<in> set es1"
        using in_order_before(2) [OF assms(2) fin found(1)] assms(4) by simp
      with found(3) assms(5) show False by auto
    qed
    with found(4) show ?thesis
      by (simp add: idle_round_scan [OF assms(1)])
  next
    case none: (2 m)
    with mem assms(5) show ?thesis by auto
  qed
qed

lemma next_idle_report:
  assumes "\<And>n. limits_fit idl (ie_now env n)"
    and "next_idle fuel chk env idl k sh = Some (Ok r, sh')"
  shows "\<exists>n. k \<le> n \<and> (\<exists>s p. idle_round chk env idl n s = (Some (Ok r), p, sh'))"
  using assms(2)
proof (induction fuel arbitrary: k sh)
  case 0
  then show ?case by simp
next
  case (Suc fuel)
  obtain q p s where q: "idle_round chk env idl k sh = (q, p, s)"
    by (cases "idle_round chk env idl k sh") auto
  show ?case
  proof (cases q)
    case None
    with Suc.prems q have "next_idle fuel chk env idl (k + 1) s = Some (Ok r, sh')" by simp
    from Suc.IH [OF this] show ?thesis by (meson add_leE)
  next
    case (Some rs)
    with Suc.prems q have "idle_round chk env idl k sh = (Some (Ok r), p, sh')" by simp
    then show ?thesis by blast
  qed
qed

lemma idle_round_report_state:
  assumes "limits_fit idl (ie_now env k)" and "idle_round chk env idl k sh = (Some (Ok r), p, sh')"
  shows "sh' = sh"
  using assms(2) idle_wait_no_report [of chk env k _ sh r]
  by (auto simp: idle_round_scan [OF assms(1)] split: sum.splits dest!: arg_cong [where f = fst])

subsection \<open>Properties\<close>

text \<open>For the witnesses: nothing happens beside the idle thread, the clock shows \<open>c k\<close> in round \<open>k\<close>.\<close>

definition calm :: "(nat \<Rightarrow> i64) \<Rightarrow> 'id idle_env" where
  "calm c = \<lparr>ie_now = c, ie_later = c, ie_between = (\<lambda>_ sh. sh), ie_park = (\<lambda>_ _ sh. sh),
     ie_iter = sorted_iter\<rparr>"

lemma calm_simps [simp]:
  "ie_now (calm c) = c" "ie_later (calm c) = c" "ie_between (calm c) n sh = sh"
  "ie_park (calm c) n p sh = sh" "iterates_in_order (ie_iter (calm c))"
  by (simp_all add: calm_def sorted_iter_in_order)

definition one_route :: "i64 \<Rightarrow> nat shared" where
  "one_route now = (shared_new StCone)\<lparr>tables :=
     add_route 4 (route_new 0 (SockV4 9 9) 1 1) now tables_new\<rparr>"

lemma one_route_ok: "tables_ok (tables (one_route now))"
  by (simp add: one_route_def rs.inv_add tables_ok_new)

lemma one_route_times:
  "direct_route_table_time (tables (one_route now)) =
     [RouteKey 0 (SockV4 9 9) \<mapsto> \<lparr>te_ids = [4], te_read = now, te_write = now\<rparr>]"
  by (simp add: one_route_def add_route_def tables_new_def Let_def)

lemma one_route_status [simp]: "status (one_route now) = StCone"
  by (simp add: one_route_def shared_new_def)

lemma sorted_iter_one: "sorted_iter [k \<mapsto> v] = [(k, v)]"
  by (simp add: sorted_iter_def)

text \<open>
  C10: What \<^verbatim>\<open>next_idle\<close> reports is right: the key is in the time table when the report is made, the
  ids are exactly the peers behind it (at least one), its kind says which of the two limits were
  exceeded at the clock reading of some round, and no smaller key was idle then.
\<close>

theorem idle_report_exact:
  assumes "iterates_in_order (ie_iter env)" and "\<And>n. limits_fit idl (ie_now env n)"
    and "next_idle fuel chk env idl k sh = Some (Ok (st, ids, key), sh')"
    and "tables_ok (tables sh')"
  shows "\<exists>n e. k \<le> n \<and> direct_route_table_time (tables sh') key = Some e \<and>
    ids = te_ids e \<and> ids \<noteq> [] \<and> idle_kind idl (ie_now env n) e = Some st \<and>
    (\<forall>k' e'. k' < key \<and> direct_route_table_time (tables sh') k' = Some e' \<longrightarrow>
       idle_kind idl (ie_now env n) e' = None)"
proof -
  obtain n s p where n: "k \<le> n" and r: "idle_round chk env idl n s = (Some (Ok (st, ids, key)), p, sh')"
    using next_idle_report [OF assms(2,3)] by blast
  have "sh' = s"
    using idle_round_report_state [OF assms(2) r] .
  with r have r': "idle_round chk env idl n sh' = (Some (Ok (st, ids, key)), p, sh')" by simp
  obtain e where e: "direct_route_table_time (tables sh') key = Some e" "ids = te_ids e"
    "idle_kind idl (ie_now env n) e = Some st" "\<forall>k' e'. k' < key \<and>
       direct_route_table_time (tables sh') k' = Some e' \<longrightarrow> idle_kind idl (ie_now env n) e' = None"
    using idle_round_report [OF assms(2,1,4) r'] by blast
  moreover have "ids \<noteq> []"
    using tables_ok_wf [OF assms(4)] e(1,2) by (auto simp: tables_wf_def)
  ultimately show ?thesis using n by blast
qed

lemma sample_report:
  "next_idle 1 chk (calm (\<lambda>_. 90)) (idle_new 30 0) 0 (one_route 50) =
     Some (Ok (IdleRead, [4], RouteKey 0 (SockV4 9 9)), one_route 50)"
  by (simp add: idle_round_def one_route_times sorted_iter_one idle_new_def i64_sub_def
      i64_fits_def word_sless_alt calm_def Let_def)

lemma sample_limits: "limits_fit (idle_new 30 0) 90"
  by (simp add: limits_fit_def i64_fits_def idle_new_def)

theorem idle_report_exact_witness:
  "\<exists>e. direct_route_table_time (tables (one_route 50)) (RouteKey 0 (SockV4 9 9)) = Some e \<and>
    te_ids e = [4] \<and> idle_kind (idle_new 30 0) 90 e = Some IdleRead"
proof -
  have "limits_fit (idle_new 30 0) (ie_now (calm (\<lambda>_. 90) :: nat idle_env) n)" for n
    using sample_limits by simp
  from idle_report_exact [OF calm_simps(5) this sample_report one_route_ok]
  show ?thesis by (metis calm_simps(1))
qed

text \<open>
  An idle route is reported at once: if some entry is idle at the first clock reading, the call
  returns in its first round without parking, with that key or a smaller one.
\<close>

theorem idle_route_reported:
  assumes "iterates_in_order (ie_iter env)" and "limits_fit idl (ie_now env k)"
    and "tables_ok (tables sh)" and "direct_route_table_time (tables sh) key = Some e"
    and "idle_kind idl (ie_now env k) e \<noteq> None"
  shows "\<exists>st ids key'. key' \<le> key \<and>
    next_idle (Suc fuel) chk env idl k sh = Some (Ok (st, ids, key'), sh)"
proof -
  obtain st ids key' where "key' \<le> key"
    "idle_round chk env idl k sh = (Some (Ok (st, ids, key')), None, sh)"
    using idle_round_finds [OF assms(2,1,3,4,5)] by blast
  then show ?thesis by auto
qed

theorem idle_route_reported_witness:
  "\<exists>st ids key'. key' \<le> RouteKey 0 (SockV4 9 9) \<and>
    next_idle 1 True (calm (\<lambda>_. 90)) (idle_new 30 0) 0 (one_route 50) =
      Some (Ok (st, ids, key'), one_route 50)"
  using idle_route_reported [of "calm (\<lambda>_. 90)" "idle_new 30 0" 0 "one_route 50"
      "RouteKey 0 (SockV4 9 9)" _ 0 True] sample_limits one_route_ok
  by (simp add: one_route_times idle_kind_def idle_new_def)

text \<open>
  A closed channel ends the idle thread: if the status is closed when the thread has waited,
  the call returns in that round, with the error "closed" or a report, however often it waited
  before.
\<close>

theorem closed_ends_idle:
  assumes "\<And>s. status (ie_between env (k + d) s) = StClose"
    and "\<And>s c. status s = StClose \<Longrightarrow> status (ie_park env (k + d) c s) = StClose"
  shows "\<exists>r sh'. next_idle (Suc d) chk env idl k sh = Some (r, sh')"
  using assms
proof (induction d arbitrary: k sh)
  case 0
  have "fst (idle_wait chk env k m s) \<noteq> None" for m s
    using 0 by (auto simp: idle_wait_def Let_def split: outcome.split option.split)
  then have "fst (idle_round chk env idl k sh) \<noteq> None"
    by (auto simp: idle_round_def split: outcome.split sum.split)
  then show ?case by (auto split: option.split prod.split)
next
  case (Suc d)
  have "\<exists>r sh'. next_idle (Suc d) chk env idl (k + 1) s = Some (r, sh')" for s
    by (rule Suc.IH) (use Suc.prems in simp_all)
  then show ?case
    by (subst next_idle.simps) (simp split: option.split prod.split del: next_idle.simps)
qed

theorem closed_ends_idle_witness:
  "\<exists>r sh'. next_idle 2 True ((calm (\<lambda>_. 60))\<lparr>ie_between := \<lambda>n s. if n = 1 then s\<lparr>status := StClose\<rparr> else s\<rparr>)
     (idle_new 30 0) 0 (one_route 50) = Some (r, sh')"
  using closed_ends_idle [of "(calm (\<lambda>_. 60))\<lparr>ie_between := \<lambda>n s. if n = 1 then s\<lparr>status := StClose\<rparr> else s\<rparr>"
      0 1 True "idle_new 30 0" "one_route 50"]
  by (simp add: numeral_2_eq_2 calm_def)

subsection \<open>How long the thread sleeps\<close>

text \<open>All clocks that the scan of a table looks at.\<close>

definition watched_clocks :: "idle \<Rightarrow> 'id time_table \<Rightarrow> i64 set" where
  "watched_clocks idl m = (\<Union>e \<in> ran m. watched idl e)"

lemma watched_iter:
  assumes "iterates_in_order it" and "finite (dom m)"
  shows "(\<Union>p \<in> set (it m). sint ` watched idl (snd p)) = sint ` watched_clocks idl m"
  using iterates_set [OF assms] by (force simp: watched_clocks_def ran_def)

lemma idle_round_no_idle:
  assumes "limits_fit idl (ie_now env k)" and "iterates_in_order (ie_iter env)"
    and "finite (dom (direct_route_table_time (tables sh)))"
    and "\<forall>key e. direct_route_table_time (tables sh) key = Some e \<longrightarrow> idle_kind idl (ie_now env k) e = None"
  shows "\<exists>m. idle_round chk env idl k sh = idle_wait chk env k m sh \<and>
    sint m = Min (insert (2 ^ 63 - 1) (sint ` watched_clocks idl (direct_route_table_time (tables sh))))"
proof -
  let ?m = "direct_route_table_time (tables sh)"
  have no: "idle_kind idl (ie_now env k) e = None" if "(key, e) \<in> set (ie_iter env ?m)" for key e
    using that assms(4) iterates_set [OF assms(2,3)] by blast
  have "\<exists>m. scan_at idl (ie_now env k) (ie_iter env ?m) i64_max = Inr m \<and> sint m =
      Min (insert (sint i64_max) (\<Union>p \<in> set (ie_iter env ?m). sint ` watched idl (snd p)))"
    by (rule scan_no_idle [OF assms(1)]) (rule no)
  then show ?thesis
    by (auto simp: idle_round_scan [OF assms(1)] watched_iter [OF assms(2,3)] sint_i64_max)
qed

lemma park_for_nonempty:
  assumes "direct_route_table_time (tables sh) \<noteq> Map.empty" and "i64_fits (ie_later env k) m"
  shows "park_for chk env k m sh =
    Ok (if sint m < sint (ie_later env k) then Some (ParkTimeout (ie_later env k - m)) else None)"
  using assms by (simp add: park_for_def i64_sub_fits word_sless_alt sint_diff_fits)

lemma idle_wait_slept:
  assumes "i64_fits (ie_later env k) m"
  shows "fst (snd (idle_wait chk env k m sh)) =
    (if direct_route_table_time (tables (ie_between env k sh)) = Map.empty then Some Park
     else if sint m < sint (ie_later env k) then Some (ParkTimeout (ie_later env k - m)) else None)"
proof (cases "direct_route_table_time (tables (ie_between env k sh)) = Map.empty")
  case True
  then show ?thesis by (simp add: idle_wait_def park_for_def Let_def)
next
  case False
  then show ?thesis using assms by (simp add: idle_wait_def park_for_nonempty Let_def)
qed

text \<open>
  How a round without an idle route waits, for clocks that are not negative: with an empty table
  the thread parks until it is woken; otherwise for the time that has already passed since the
  oldest clock the scan looked at, and not at all when that time is not positive.
\<close>

theorem idle_wait_time:
  assumes "limits_fit idl (ie_now env k)" and "iterates_in_order (ie_iter env)"
    and "finite (dom (direct_route_table_time (tables sh)))"
    and "\<And>key e. direct_route_table_time (tables sh) key = Some e \<Longrightarrow> idle_kind idl (ie_now env k) e = None"
    and "0 \<le> sint (ie_later env k)"
    and "\<And>c. c \<in> watched_clocks idl (direct_route_table_time (tables sh)) \<Longrightarrow> 0 \<le> sint c"
  shows "let oldest = Min (insert (2 ^ 63 - 1) (sint ` watched_clocks idl (direct_route_table_time (tables sh))));
             slept = fst (snd (idle_round chk env idl k sh))
    in if direct_route_table_time (tables (ie_between env k sh)) = Map.empty then slept = Some Park
       else if sint (ie_later env k) \<le> oldest then slept = None
       else \<exists>d. slept = Some (ParkTimeout d) \<and> sint d = sint (ie_later env k) - oldest"
proof -
  let ?W = "watched_clocks idl (direct_route_table_time (tables sh))"
  obtain m where m: "idle_round chk env idl k sh = idle_wait chk env k m sh"
    "sint m = Min (insert (2 ^ 63 - 1) (sint ` ?W))"
    using idle_round_no_idle [OF assms(1-3)] assms(4) by blast
  have "finite ?W"
    using assms(3) by (auto simp: watched_clocks_def watched_def finite_ran)
  then have "0 \<le> sint m"
    unfolding m(2) using assms(6) by (intro Min.boundedI) auto
  then have fits: "i64_fits (ie_later env k) m"
    using assms(5) by (simp add: i64_fits_nonneg)
  show ?thesis
    unfolding Let_def m(1) idle_wait_slept [OF fits] m(2) [symmetric]
    using sint_diff_fits [OF fits] by simp
qed

theorem idle_wait_time_witness:
  "\<exists>d. fst (snd (idle_round True (calm (\<lambda>_. 70)) (idle_new 30 0) 0 (one_route 50))) =
     Some (ParkTimeout d) \<and> sint d = 20"
proof -
  have fits: "limits_fit (idle_new 30 0) (ie_now (calm (\<lambda>_. 70) :: nat idle_env) 0)"
    by (simp add: limits_fit_def i64_fits_def idle_new_def)
  have "watched_clocks (idle_new 30 0) (direct_route_table_time (tables (one_route 50))) = {50}"
    by (auto simp: watched_clocks_def watched_def one_route_times idle_new_def word_sless_alt)
  moreover have "idle_kind (idle_new 30 0) (ie_now (calm (\<lambda>_. 70) :: nat idle_env) 0) e = None"
    if "direct_route_table_time (tables (one_route 50)) key = Some e" for key e
    using that by (auto simp: one_route_times idle_kind_def idle_new_def split: if_splits)
  ultimately show ?thesis
    using idle_wait_time [OF fits calm_simps(5) tables_ok_finite [OF one_route_ok], of 50 True]
    by (simp add: Let_def one_route_times split: if_splits)
qed

lemma two_times_fits:
  assumes "0 \<le> sint L" and "0 < sint R" and "sint L + 2 * sint R < 2 ^ 63"
  shows "sint (L + R :: i64) = sint L + sint R" and "sint (L + 2 * R) = sint L + 2 * sint R"
    and "sint (L + R + 1) = sint L + sint R + 1"
  using assms by (simp_all add: sint_word_ariths signed_take_bit_int_eq_self)

text \<open>
  C36: A quiet route can be reported a whole limit too late. With one route and only a read limit
  \<open>R\<close>, a scan at exactly \<open>R\<close> after the last read finds nothing and parks for \<open>R\<close> milliseconds more,
  though the route is idle one millisecond later; if the park times out, the report comes \<open>2 R\<close>
  after the last read. (The code sleeps for the time that has passed instead of the time that is
  left.)
\<close>

theorem idle_reported_late:
  assumes "direct_route_table_time (tables sh) = [key \<mapsto> e]" and "status sh \<noteq> StClose"
    and "0 \<le> sint (te_read e)" and "0 < sint R" and "sint (te_read e) + 2 * sint R < 2 ^ 63"
    and "c k = te_read e + R" and "c (k + 1) = te_read e + 2 * R"
  shows "idle_round chk (calm c) (idle_new R 0) k sh = (None, Some (ParkTimeout R), sh) \<and>
    idle_kind (idle_new R 0) (c k + 1) e = Some IdleRead \<and>
    next_idle 2 chk (calm c) (idle_new R 0) k sh = Some (Ok (IdleRead, te_ids e, key), sh)"
proof -
  note sums = two_times_fits [OF assms(3-5)]
  have fits: "i64_fits (te_read e + R) R" "i64_fits (te_read e + 2 * R) R"
    "i64_fits (te_read e + R) 0" "i64_fits (te_read e + 2 * R) 0" "i64_fits (te_read e + R) (te_read e)"
    using assms(3-5) by (simp_all add: i64_fits_def sums)
  have diffs: "sint (te_read e + R - R) = sint (te_read e)"
    "sint (te_read e + 2 * R - R) = sint (te_read e) + sint R"
    using sint_diff_fits [OF fits(1)] sint_diff_fits [OF fits(2)] by (simp_all add: sums)
  have small: "sint (te_read e) < 2 ^ 63 - 1"
    using assms(4,5) by linarith
  have one: "idle_round chk (calm c) (idle_new R 0) k sh = (None, Some (ParkTimeout R), sh)"
    using assms(1,2,4,6) fits diffs small
    by (simp add: idle_round_def idle_new_def calm_def sorted_iter_one i64_sub_fits word_sless_alt
        idle_wait_def park_for_def Let_def sint_i64_max)
  have two: "idle_round chk (calm c) (idle_new R 0) (k + 1) sh =
      (Some (Ok (IdleRead, te_ids e, key)), None, sh)"
    using assms(1,4,7) fits diffs
    by (simp add: idle_round_def idle_new_def calm_def sorted_iter_one i64_sub_fits word_sless_alt Let_def)
  have "idle_kind (idle_new R 0) (c k + 1) e = Some IdleRead"
    using assms(4,6) by (simp add: idle_kind_def idle_new_def sums)
  with one two show ?thesis
    by (simp add: numeral_2_eq_2)
qed

theorem idle_reported_late_witness:
  "next_idle 2 True (calm (\<lambda>n. 80 + 30 * of_nat n)) (idle_new 30 0) 0 (one_route 50) =
     Some (Ok (IdleRead, [4], RouteKey 0 (SockV4 9 9)), one_route 50)"
proof -
  have "status (one_route 50) \<noteq> StClose"
    by simp
  from idle_reported_late [OF one_route_times this, of 30 "\<lambda>n. 80 + 30 * of_nat n" 0 True]
  show ?thesis by simp
qed

text \<open>
  With both limits switched off and some route in the table the thread does not sleep at all:
  no round parks it, and the call never returns while the channel stays open and nothing changes.
\<close>

theorem idle_spins_without_limits:
  assumes "sint (read_idle idl) \<le> 0" and "sint (write_idle idl) \<le> 0"
    and "\<And>n. limits_fit idl (c n)" and "\<And>n. 0 \<le> sint (c n)"
    and "finite (dom (direct_route_table_time (tables sh)))"
    and "direct_route_table_time (tables sh) \<noteq> Map.empty" and "status sh \<noteq> StClose"
  shows "idle_round chk (calm c) idl k sh = (None, None, sh) \<and>
    next_idle fuel chk (calm c) idl k sh = None"
proof -
  have off: "\<not> 0 <s read_idle idl" "\<not> 0 <s write_idle idl"
    using assms(1,2) by (simp_all add: word_sless_alt)
  have none: "watched_clocks idl m = {}" for m :: "'a time_table"
    by (simp add: watched_clocks_def watched_def off)
  have kind: "idle_kind idl n e = None" for n and e :: "'a time_entry"
    using assms(1,2) by (simp add: idle_kind_def)
  have spin: "idle_round chk (calm c) idl n sh = (None, None, sh)" for n
  proof -
    have fit: "limits_fit idl (ie_now (calm c :: 'a idle_env) n)"
      using assms(3) by simp
    obtain m where m: "idle_round chk (calm c) idl n sh = idle_wait chk (calm c) n m sh"
      "sint m = 2 ^ 63 - 1"
      using idle_round_no_idle [OF fit calm_simps(5) assms(5)] kind none by force
    have "i64_fits (ie_later (calm c :: 'a idle_env) n) m"
      using assms(4) m(2) by (intro i64_fits_nonneg) simp_all
    moreover have "\<not> sint m < sint (c n)"
      using m(2) sint_i64_bounds(2) [of "c n"] by simp
    ultimately show ?thesis
      using m(1) assms(6,7) by (simp add: idle_wait_def park_for_nonempty Let_def)
  qed
  moreover have "next_idle fuel chk (calm c) idl n sh = None" for n
    by (induction fuel arbitrary: n) (simp_all add: spin)
  ultimately show ?thesis by blast
qed

theorem idle_spins_without_limits_witness:
  "next_idle 1000 True (calm (\<lambda>n. 80)) (idle_new 0 0) 0 (one_route 50) = None"
proof -
  have "limits_fit (idle_new 0 0) 80"
    by (simp add: limits_fit_def i64_fits_def idle_new_def)
  then show ?thesis
    using idle_spins_without_limits [of "idle_new 0 0" "\<lambda>n. 80" "one_route 50" True 0 1000]
    by (simp add: idle_new_def one_route_times)
qed

end
