(* ===== verification/Interleaving.thy ===== *)
theory Interleaving
  imports Route_Store
begin

section \<open>The table operations, interleaved\<close>

text \<open>
  The operations of \<^verbatim>\<open>src/channel/sender.rs\<close> on the two route tables as the threads really take them:
  one access at a time. \<^verbatim>\<open>add_route_\<close> and \<^verbatim>\<open>remove_route_\<close> hold the mutex \<^verbatim>\<open>lock\<close> over several accesses;
  \<^verbatim>\<open>update_route_\<close>, the clock stores, sending and the readers take no lock and come in between. An entry of the
  skip list is a node of a store: whoever has got it keeps it, also after its key was taken out of
  the list. An access to one concurrent map is one step, and so is what a thread does to an id list under the
  list's own mutex, where it does nothing else while it has that mutex; the holder of \<^verbatim>\<open>lock\<close>, the only one that changes the
  key table, finds a node and uses it in one step. Threads wait for one another in three places: for \<^verbatim>\<open>lock\<close>; for the
  mutex of an id list, which a reader has while it clones and \<^verbatim>\<open>remove_id_route_\<close> has until the key is out; and for the shard of
  the id table that a write needs, which \<^verbatim>\<open>send_to_id\<close> keeps for reading until the datagram is sent. The wake-up of the
  idle thread after \<^verbatim>\<open>drop(lock)\<close> is left to \<^theory_text>\<open>Sender\<close>.
\<close>

subsection \<open>Memory and threads\<close>

record 'id memory =
  m_routes :: "'id \<rightharpoonup> route"
  m_index :: "route_key \<rightharpoonup> nat"
  m_nodes :: "nat \<Rightarrow> 'id time_entry"
  m_fresh :: nat
  m_owner :: "nat \<rightharpoonup> nat"
  m_held :: "(nat \<times> 'id) list"
  m_lock :: "nat option"
  m_reads :: "'id list list"

text \<open>
  \<open>m_owner\<close>: the thread that has the mutex of a node's id list; \<open>m_held\<close>: the threads that keep the entry of an id for
  reading; \<open>m_lock\<close>: the thread that holds \<^verbatim>\<open>lock\<close>; \<open>m_reads\<close>: the id lists that readers have cloned, in order. Where a
  thread stands: \<open>Queue\<close> asks for \<^verbatim>\<open>lock\<close>; \<open>Unlink\<close> and \<open>DropKey\<close> are the two halves of \<^verbatim>\<open>remove_id_route_\<close>, with what comes
  after; \<open>GetTouch\<close> and \<open>TouchAt\<close> set a clock (the flag says which), and go on to \<open>Sending\<close> inside \<^verbatim>\<open>send_to_id\<close>.
\<close>

datatype 'id position =
    Idling
  | Queue "'id position"
  | AddInsert 'id route
  | AddLink 'id route
  | RemTake 'id
  | Unlink 'id route_key "'id position"
  | DropKey nat route_key "'id position"
  | Unlock
  | UpdateRoute 'id u8 i64
  | GetSend 'id
  | GetTouch bool route_key "'id position"
  | TouchAt bool nat "'id position"
  | Sending
  | GetRead route_key
  | ReadIds nat
  | CloneIds nat

text \<open>
  \<open>hash\<close> is the shard of the concurrent map that an id falls into: a write to the entry of an id waits
  while some thread keeps an entry of the same shard.
\<close>

definition shard_kept :: "('id \<Rightarrow> nat) \<Rightarrow> 'id memory \<Rightarrow> 'id \<Rightarrow> bool" where
  "shard_kept hash m i = list_ex (\<lambda>p. hash (snd p) = hash i) (m_held m)"

text \<open>One step of the thread \<open>u\<close> at time \<open>now\<close>; \<open>None\<close> says that it has to wait.\<close>

fun micro :: "('id \<Rightarrow> nat) \<Rightarrow> nat \<Rightarrow> i64 \<Rightarrow> 'id memory \<Rightarrow> 'id position \<Rightarrow> ('id memory \<times> 'id position) option" where
  "micro hash u now m Idling = None"
| "micro hash u now m (Queue p) =
     (if m_lock m = None then Some (m\<lparr>m_lock := Some u\<rparr>, p) else None)"
| "micro hash u now m (AddInsert i r) =
     (if shard_kept hash m i then None
      else Some (m\<lparr>m_routes := (m_routes m)(i \<mapsto> r)\<rparr>,
        case m_routes m i of
          Some old \<Rightarrow> if route_key old \<noteq> route_key r then Unlink i (route_key old) (AddLink i r) else AddLink i r
        | None \<Rightarrow> AddLink i r))"
| "micro hash u now m (AddLink i r) =
     (case m_index m (route_key r) of
        Some n \<Rightarrow>
          if m_owner m n \<noteq> None then None
          else
            let e = m_nodes m n
            in Some (if i \<in> set (te_ids e) then m
                     else m\<lparr>m_nodes := (m_nodes m)(n := e\<lparr>te_ids := te_ids e @ [i]\<rparr>)\<rparr>, Unlock)
      | None \<Rightarrow>
          Some (m\<lparr>m_nodes := (m_nodes m)(m_fresh m := \<lparr>te_ids = [i], te_read = now, te_write = now\<rparr>),
                  m_index := (m_index m)(route_key r \<mapsto> m_fresh m), m_fresh := m_fresh m + 1\<rparr>, Unlock))"
| "micro hash u now m (RemTake i) =
     (if shard_kept hash m i then None
      else Some (case m_routes m i of
         Some r \<Rightarrow> (m\<lparr>m_routes := (m_routes m)(i := None)\<rparr>, Unlink i (route_key r) Unlock)
       | None \<Rightarrow> (m, Unlock)))"
| "micro hash u now m (Unlink i k p) =
     (case m_index m k of
        None \<Rightarrow> Some (m, p)
      | Some n \<Rightarrow>
          if m_owner m n \<noteq> None then None
          else
            let e = m_nodes m n; ids = filter (\<lambda>v. v \<noteq> i) (te_ids e);
                m' = m\<lparr>m_nodes := (m_nodes m)(n := e\<lparr>te_ids := ids\<rparr>)\<rparr>
            in Some (if ids = [] then (m'\<lparr>m_owner := (m_owner m)(n \<mapsto> u)\<rparr>, DropKey n k p) else (m', p)))"
| "micro hash u now m (DropKey n k p) =
     Some (m\<lparr>m_index := (m_index m)(k := None), m_owner := (m_owner m)(n := None)\<rparr>, p)"
| "micro hash u now m Unlock = Some (m\<lparr>m_lock := None\<rparr>, Idling)"
| "micro hash u now m (UpdateRoute i mt rt) =
     (if shard_kept hash m i then None
      else Some (case m_routes m i of
         None \<Rightarrow> m
       | Some v \<Rightarrow> m\<lparr>m_routes := (m_routes m)(i \<mapsto> v\<lparr>r_metric := mt, r_rt := rt\<rparr>)\<rparr>, Idling))"
| "micro hash u now m (GetSend i) =
     Some (case m_routes m i of
         None \<Rightarrow> (m, Idling)
       | Some r \<Rightarrow> (m\<lparr>m_held := (u, i) # m_held m\<rparr>, GetTouch True (route_key r) Sending))"
| "micro hash u now m (GetTouch w k p) =
     Some (m, case m_index m k of None \<Rightarrow> p | Some n \<Rightarrow> TouchAt w n p)"
| "micro hash u now m (TouchAt w n p) =
     Some (m\<lparr>m_nodes := (m_nodes m)(n := if w then (m_nodes m n)\<lparr>te_write := now\<rparr>
                                          else (m_nodes m n)\<lparr>te_read := now\<rparr>)\<rparr>, p)"
| "micro hash u now m Sending = Some (m\<lparr>m_held := filter (\<lambda>p. fst p \<noteq> u) (m_held m)\<rparr>, Idling)"
| "micro hash u now m (GetRead k) =
     Some (m, case m_index m k of None \<Rightarrow> Idling | Some n \<Rightarrow> ReadIds n)"
| "micro hash u now m (ReadIds n) =
     (if m_owner m n \<noteq> None then None else Some (m\<lparr>m_owner := (m_owner m)(n \<mapsto> u)\<rparr>, CloneIds n))"
| "micro hash u now m (CloneIds n) =
     Some (m\<lparr>m_reads := m_reads m @ [te_ids (m_nodes m n)], m_owner := (m_owner m)(n := None)\<rparr>, Idling)"

text \<open>
  Any number of threads. An idle thread begins an operation; a thread inside one goes on when it does not have to
  wait.
\<close>

type_synonym 'id threads = "nat \<Rightarrow> 'id position"

fun begins :: "'id position \<Rightarrow> bool" where
  "begins (Queue (AddInsert i r)) = True"
| "begins (Queue (RemTake i)) = True"
| "begins (UpdateRoute i mt rt) = True"
| "begins (GetSend i) = True"
| "begins (GetTouch w k Idling) = True"
| "begins (GetRead k) = True"
| "begins _ = False"

inductive interleaved ::
    "('id \<Rightarrow> nat) \<Rightarrow> 'id memory \<times> 'id threads \<Rightarrow> 'id memory \<times> 'id threads \<Rightarrow> bool" for hash where
  begin_op: "ps t = Idling \<Longrightarrow> begins p \<Longrightarrow> interleaved hash (m, ps) (m, ps(t := p))"
| go_on: "micro hash t now m (ps t) = Some (m', p') \<Longrightarrow> interleaved hash (m, ps) (m', ps(t := p'))"

definition memory_new :: "'id memory" where
  "memory_new = \<lparr>m_routes = Map.empty, m_index = Map.empty,
     m_nodes = (\<lambda>_. \<lparr>te_ids = [], te_read = 0, te_write = 0\<rparr>), m_fresh = 0, m_owner = Map.empty,
     m_held = [], m_lock = None, m_reads = []\<rparr>"

definition interleaving_start :: "'id memory \<times> 'id threads \<Rightarrow> bool" where
  "interleaving_start s \<longleftrightarrow> s = (memory_new, \<lambda>_. Idling)"

text \<open>The tables that a memory represents.\<close>

definition tables_of :: "'id memory \<Rightarrow> 'id tables" where
  "tables_of m = \<lparr>direct_route_table = m_routes m,
     direct_route_table_time = (\<lambda>k. map_option (m_nodes m) (m_index m k))\<rparr>"

subsection \<open>What is left of an operation\<close>

text \<open>
  \<open>link\<close> is the second half of \<^const>\<open>add_route\<close>; \<open>complete\<close> does on the tables what the holder of the lock still
  has to do.
\<close>

definition link :: "'id \<Rightarrow> route \<Rightarrow> i64 \<Rightarrow> 'id time_table \<Rightarrow> 'id time_table" where
  "link i r now tt =
     (case tt (route_key r) of
        Some e \<Rightarrow> if i \<in> set (te_ids e) then tt else tt(route_key r \<mapsto> e\<lparr>te_ids := te_ids e @ [i]\<rparr>)
      | None \<Rightarrow> tt(route_key r \<mapsto> \<lparr>te_ids = [i], te_read = now, te_write = now\<rparr>))"

fun complete :: "i64 \<Rightarrow> 'id position \<Rightarrow> 'id tables \<Rightarrow> 'id tables" where
  "complete now (Unlink i k p) t =
     complete now p (t\<lparr>direct_route_table_time := remove_id_route i k (direct_route_table_time t)\<rparr>)"
| "complete now (DropKey n k p) t =
     complete now p (t\<lparr>direct_route_table_time := (direct_route_table_time t)(k := None)\<rparr>)"
| "complete now (AddLink i r) t =
     t\<lparr>direct_route_table_time := link i r now (direct_route_table_time t)\<rparr>"
| "complete now _ t = t"

text \<open>The positions a holder of the lock goes through after its first access.\<close>

fun middle :: "'id position \<Rightarrow> bool" where
  "middle (AddLink i r) = True"
| "middle (Unlink i k (AddLink j r)) = (i = j \<and> k \<noteq> route_key r)"
| "middle (Unlink i k Unlock) = True"
| "middle (DropKey n k (AddLink j r)) = (k \<noteq> route_key r)"
| "middle (DropKey n k Unlock) = True"
| "middle Unlock = True"
| "middle _ = False"

subsection \<open>Steps on the tables\<close>

definition heap_ok :: "'id memory \<Rightarrow> bool" where
  "heap_ok m \<longleftrightarrow>
     (\<forall>k k' n. m_index m k = Some n \<and> m_index m k' = Some n \<longrightarrow> k = k') \<and>
     (\<forall>k n. m_index m k = Some n \<longrightarrow> n < m_fresh m)"

lemma tables_of_node:
  assumes "heap_ok m" and "m_index m k = Some n"
  shows "tables_of (m\<lparr>m_nodes := (m_nodes m)(n := e)\<rparr>) = (tables_of m)\<lparr>direct_route_table_time :=
    (direct_route_table_time (tables_of m))(k \<mapsto> e)\<rparr>"
proof -
  have uniq: "m_index m k' = Some n \<Longrightarrow> k' = k" for k'
    using assms unfolding heap_ok_def by blast
  have "map_option ((m_nodes m)(n := e)) (m_index m k') =
      (if k' = k then Some e else map_option (m_nodes m) (m_index m k'))" for k'
    using assms(2) uniq [of k'] by (cases "m_index m k'") auto
  then show ?thesis by (simp add: tables_of_def fun_eq_iff)
qed

lemma tables_of_detached:
  assumes "n \<notin> ran (m_index m)"
  shows "tables_of (m\<lparr>m_nodes := (m_nodes m)(n := e)\<rparr>) = tables_of m"
proof -
  have "map_option ((m_nodes m)(n := e)) (m_index m k) = map_option (m_nodes m) (m_index m k)" for k
    using assms by (cases "m_index m k") (auto simp: ran_def)
  then show ?thesis by (simp add: tables_of_def)
qed

lemma tables_of_simps [simp]:
  "direct_route_table (tables_of m) = m_routes m"
  "direct_route_table_time (tables_of m) k = map_option (m_nodes m) (m_index m k)"
  "tables_of (m\<lparr>m_lock := l\<rparr>) = tables_of m" "tables_of (m\<lparr>m_owner := g\<rparr>) = tables_of m"
  "tables_of (m\<lparr>m_held := hs\<rparr>) = tables_of m"
  "tables_of (m\<lparr>m_reads := rs\<rparr>) = tables_of m"
  by (simp_all add: tables_of_def)

text \<open>A step in the middle of a locked operation does the first part of what is left.\<close>

lemma unlink_tables:
  assumes "heap_ok m" and "micro hash u now m (Unlink i k p) = Some (m', p')"
  shows "complete now' p' (tables_of m') = complete now' (Unlink i k p) (tables_of m)"
proof (cases "m_index m k")
  case None
  with assms(2) show ?thesis by (auto simp: remove_id_route_def)
next
  case (Some n)
  let ?ids = "filter (\<lambda>v. v \<noteq> i) (te_ids (m_nodes m n))"
  let ?m = "m\<lparr>m_nodes := (m_nodes m)(n := (m_nodes m n)\<lparr>te_ids := ?ids\<rparr>)\<rparr>"
  have t: "tables_of ?m = (tables_of m)\<lparr>direct_route_table_time :=
      (direct_route_table_time (tables_of m))(k \<mapsto> (m_nodes m n)\<lparr>te_ids := ?ids\<rparr>)\<rparr>"
    using assms(1) Some by (rule tables_of_node)
  show ?thesis
  proof (cases "?ids = []")
    case True
    with assms(2) Some have m': "m' = ?m\<lparr>m_owner := (m_owner m)(n \<mapsto> u)\<rparr>" "p' = DropKey n k p"
      by (auto simp: Let_def split: if_splits)
    have "remove_id_route i k (direct_route_table_time (tables_of m)) = (direct_route_table_time (tables_of m))(k := None)"
      using True Some by (simp add: remove_id_route_def Let_def)
    with t show ?thesis unfolding m' by simp
  next
    case False
    with assms(2) Some have m': "m' = ?m" "p' = p"
      by (auto simp: Let_def split: if_splits)
    have "remove_id_route i k (direct_route_table_time (tables_of m)) =
        (direct_route_table_time (tables_of m))(k \<mapsto> (m_nodes m n)\<lparr>te_ids := ?ids\<rparr>)"
      using False Some by (simp add: remove_id_route_def Let_def)
    with t show ?thesis unfolding m' by simp
  qed
qed

lemma drop_tables:
  "micro hash u now m (DropKey n k p) = Some (m', p') \<Longrightarrow>
   complete now' p' (tables_of m') = complete now' (DropKey n k p) (tables_of m)"
proof -
  assume "micro hash u now m (DropKey n k p) = Some (m', p')"
  moreover have "tables_of (m\<lparr>m_index := (m_index m)(k := None)\<rparr>) =
      (tables_of m)\<lparr>direct_route_table_time := (direct_route_table_time (tables_of m))(k := None)\<rparr>"
    by (simp add: tables_of_def fun_eq_iff)
  ultimately show ?thesis by auto
qed

lemma link_tables:
  assumes "heap_ok m" and "micro hash u now m (AddLink i r) = Some (m', p')"
  shows "tables_of m' = complete now (AddLink i r) (tables_of m)"
proof (cases "m_index m (route_key r)")
  case None
  let ?e = "\<lparr>te_ids = [i], te_read = now, te_write = now\<rparr>"
  have "map_option ((m_nodes m)(m_fresh m := ?e)) (m_index m k) = map_option (m_nodes m) (m_index m k)" for k
    using assms(1) by (cases "m_index m k") (auto simp: heap_ok_def)
  then show ?thesis
    using assms(2) None by (auto simp: tables_of_def link_def fun_eq_iff)
next
  case (Some n)
  with assms(2) tables_of_node [OF assms(1) Some] show ?thesis
    by (auto simp: link_def Let_def split: if_splits)
qed

lemma insert_tables:
  assumes "micro hash u now m (AddInsert i r) = Some (m', p')"
  shows "complete now' p' (tables_of m') = add_route i r now' (tables_of m)"
proof -
  have t: "tables_of (m\<lparr>m_routes := x\<rparr>) = (tables_of m)\<lparr>direct_route_table := x\<rparr>" for x
    by (simp add: tables_of_def)
  show ?thesis
    using assms
    by (cases "m_routes m i") (auto simp: t add_route_def link_def Let_def split: if_splits)
qed

lemma take_tables:
  assumes "micro hash u now m (RemTake i) = Some (m', p')"
  shows "complete now' p' (tables_of m') = remove_route i (tables_of m)"
proof -
  have t: "tables_of (m\<lparr>m_routes := x\<rparr>) = (tables_of m)\<lparr>direct_route_table := x\<rparr>" for x
    by (simp add: tables_of_def)
  show ?thesis
    using assms by (cases "m_routes m i") (auto simp: t remove_route_def split: if_splits)
qed

text \<open>Accesses of other threads in between do not disturb what is left.\<close>

lemma update_route_frame:
  "direct_route_table_time (update_route i mt rt t) = direct_route_table_time t"
  "update_route i mt rt (t\<lparr>direct_route_table_time := x\<rparr>) = (update_route i mt rt t)\<lparr>direct_route_table_time := x\<rparr>"
  by (auto simp: update_route_def split: option.split)

lemma complete_update:
  "complete now p (update_route i mt rt t) = update_route i mt rt (complete now p t)"
  by (induction now p t rule: complete.induct) (simp_all add: update_route_frame)

definition touch :: "bool \<Rightarrow> route_key \<Rightarrow> i64 \<Rightarrow> 'id tables \<Rightarrow> 'id tables" where
  "touch w k c t = (if w then touch_write k c t else touch_read k c t)"

definition stamp :: "bool \<Rightarrow> i64 \<Rightarrow> 'id time_entry \<Rightarrow> 'id time_entry" where
  "stamp w c e = (if w then e\<lparr>te_write := c\<rparr> else e\<lparr>te_read := c\<rparr>)"

lemma te_ids_stamp [simp]: "te_ids (stamp w c e) = te_ids e" "(stamp w c e)\<lparr>te_ids := x\<rparr> = stamp w c (e\<lparr>te_ids := x\<rparr>)"
  by (simp_all add: stamp_def)

lemma touch_eq:
  "touch w k c t = t\<lparr>direct_route_table_time := (case direct_route_table_time t k of
     None \<Rightarrow> direct_route_table_time t | Some e \<Rightarrow> (direct_route_table_time t)(k \<mapsto> stamp w c e))\<rparr>"
  by (auto simp: touch_def touch_read_def touch_write_def stamp_def split: option.split)

lemma touch_frame:
  "touch w k c (t\<lparr>direct_route_table_time := x\<rparr>) = t\<lparr>direct_route_table_time := (case x k of
     None \<Rightarrow> x | Some e \<Rightarrow> x(k \<mapsto> stamp w c e))\<rparr>"
  by (simp add: touch_eq split: option.split)

lemma remove_id_touch:
  "remove_id_route i k' (direct_route_table_time (touch w k c t)) =
     direct_route_table_time (touch w k c (t\<lparr>direct_route_table_time := remove_id_route i k' (direct_route_table_time t)\<rparr>))"
  by (cases "direct_route_table_time t k"; cases "direct_route_table_time t k'"; cases "k = k'")
    (auto simp: touch_eq remove_id_route_def Let_def fun_upd_twist)

lemma link_touch:
  assumes "direct_route_table_time t k \<noteq> None \<or> k \<noteq> route_key r"
  shows "link i r now (direct_route_table_time (touch w k c t)) =
     direct_route_table_time (touch w k c (t\<lparr>direct_route_table_time := link i r now (direct_route_table_time t)\<rparr>))"
  using assms
  by (cases "direct_route_table_time t k"; cases "direct_route_table_time t (route_key r)"; cases "k = route_key r")
    (auto simp: touch_eq link_def fun_upd_twist)

lemma touch_table [simp]: "direct_route_table (touch w k c t) = direct_route_table t"
  by (simp add: touch_eq)

lemma touch_absent: "direct_route_table_time t k = None \<Longrightarrow> touch w k c t = t"
  by (simp add: touch_eq)

lemma complete_touch:
  assumes "middle p" and "direct_route_table_time t k \<noteq> None"
  shows "complete now p (touch w k c t) = touch w k c (complete now p t)"
proof -
  have link: "complete now (AddLink i r) (touch w k c t) = touch w k c (complete now (AddLink i r) t)"
    if "direct_route_table_time t k \<noteq> None \<or> k \<noteq> route_key r" for i r and t :: "'a tables"
    using link_touch [OF that, of i now w c]
    by (simp add: touch_eq)
  have unlink: "touch w k c t\<lparr>direct_route_table_time := remove_id_route i k' (direct_route_table_time (touch w k c t))\<rparr>
      = touch w k c (t\<lparr>direct_route_table_time := remove_id_route i k' (direct_route_table_time t)\<rparr>)" for i k'
    unfolding remove_id_touch by (simp add: touch_eq)
  have drop: "touch w k c t\<lparr>direct_route_table_time := (direct_route_table_time (touch w k c t))(k' := None)\<rparr>
      = touch w k c (t\<lparr>direct_route_table_time := (direct_route_table_time t)(k' := None)\<rparr>)" for k'
    by (cases "k = k'"; cases "direct_route_table_time t k") (auto simp: touch_eq fun_upd_twist)
  show ?thesis
    using assms
  proof (cases p rule: middle.cases)
    case (1 i r)
    with assms(2) link show ?thesis by blast
  next
    case (2 i k' j r)
    with assms(1) have "k' \<noteq> route_key r" by simp
    then have "direct_route_table_time (t\<lparr>direct_route_table_time := remove_id_route i k' (direct_route_table_time t)\<rparr>) k \<noteq> None
        \<or> k \<noteq> route_key r"
      using assms(2) by (cases "k = k'") (auto simp: clock_of_remove_id)
    from link [OF this, of j] show ?thesis
      unfolding 2 by (simp only: complete.simps(1) unlink)
  next
    case (3 i k')
    show ?thesis unfolding 3 by (simp add: unlink)
  next
    case (4 nn k' j r)
    with assms(1) have "k' \<noteq> route_key r" by simp
    then have "direct_route_table_time (t\<lparr>direct_route_table_time := (direct_route_table_time t)(k' := None)\<rparr>) k \<noteq> None
        \<or> k \<noteq> route_key r"
      using assms(2) by auto
    from link [OF this, of j] show ?thesis
      unfolding 4 by (simp only: complete.simps(2) drop)
  next
    case (5 nn k')
    show ?thesis unfolding 5 by (simp add: drop)
  qed auto
qed

end
