(* ===== verification/Interleaving_Props.thy ===== *)
theory Interleaving_Props
  imports Interleaving
begin

section \<open>Properties of the interleaved table operations\<close>

text \<open>
  Whatever the threads do and however their accesses interleave: the tables are those that some sequence
  of the atomic operations of \<^theory_text>\<open>Route_Store\<close> builds, whenever no thread holds the lock. And what the
  missing lock of the readers costs.
\<close>

subsection \<open>The invariant\<close>

fun first_access :: "'id position \<Rightarrow> bool" where
  "first_access (AddInsert i r) = True"
| "first_access (RemTake i) = True"
| "first_access _ = False"

fun after_touch :: "'id position \<Rightarrow> bool" where
  "after_touch Idling = True"
| "after_touch Sending = True"
| "after_touch _ = False"

fun free_position :: "'id position \<Rightarrow> bool" where
  "free_position (Queue p) = first_access p"
| "free_position (GetTouch w k p) = after_touch p"
| "free_position (TouchAt w n p) = after_touch p"
| "free_position p = (case p of
     Idling \<Rightarrow> True | UpdateRoute i mt rt \<Rightarrow> True | GetSend i \<Rightarrow> True | Sending \<Rightarrow> True | GetRead k \<Rightarrow> True
   | ReadIds n \<Rightarrow> True | CloneIds n \<Rightarrow> True | _ \<Rightarrow> False)"

fun handle :: "'id position \<Rightarrow> nat option" where
  "handle (TouchAt w n p) = Some n"
| "handle (ReadIds n) = Some n"
| "handle (CloneIds n) = Some n"
| "handle _ = None"

definition holder :: "'id memory \<Rightarrow> 'id threads \<Rightarrow> 'id position" where
  "holder m ps = (case m_lock m of None \<Rightarrow> Idling | Some h \<Rightarrow> ps h)"

definition inter_inv :: "'id memory \<times> 'id threads \<Rightarrow> bool" where
  "inter_inv s \<longleftrightarrow> (case s of (m, ps) \<Rightarrow>
     heap_ok m \<and> (\<forall>t n. handle (ps t) = Some n \<longrightarrow> n < m_fresh m) \<and>
     (\<forall>t. m_lock m \<noteq> Some t \<longrightarrow> free_position (ps t)) \<and>
     (\<forall>h. m_lock m = Some h \<longrightarrow> first_access (ps h) \<or> middle (ps h)) \<and>
     (\<forall>now. \<exists>ops. complete now (holder m ps) (tables_of m) = fold table_step ops tables_new))"

lemma complete_trivial: "free_position p \<or> first_access p \<Longrightarrow> complete now p t = t"
  by (cases p) auto

lemma free_not_locked: "free_position p \<Longrightarrow> \<not> first_access p \<and> \<not> middle p"
  by (cases p) auto

lemma middle_handle: "middle p \<or> first_access p \<Longrightarrow> handle p = None"
  by (cases p rule: middle.cases) auto

subsection \<open>The steps of the holder of the lock\<close>

lemma locked_step:
  assumes "first_access p \<or> middle p" and "micro hash u now m p = Some (m', p')" and "p \<noteq> Unlock"
  shows "middle p'" and "m_lock m' = m_lock m"
  using assms
  by (cases p rule: middle.cases; auto simp: Let_def split: option.splits if_splits)+

lemma heap_ok_step:
  assumes "heap_ok m" and "micro hash u now m p = Some (m', p')"
  shows "heap_ok m'" and "m_fresh m \<le> m_fresh m'"
proof -
  have cases: "m_index m' = m_index m \<and> m_fresh m' = m_fresh m \<or>
      (\<exists>k. m_index m' = (m_index m)(k := None) \<and> m_fresh m' = m_fresh m) \<or>
      (\<exists>k. m_index m k = None \<and> m_index m' = (m_index m)(k \<mapsto> m_fresh m) \<and> m_fresh m' = m_fresh m + 1)"
    using assms(2) by (cases p) (auto simp: Let_def split: option.splits if_splits)
  then show "m_fresh m \<le> m_fresh m'" by auto
  have new: "m_index m k \<noteq> Some (m_fresh m)" for k
    using assms(1) unfolding heap_ok_def by blast
  show "heap_ok m'"
    using cases assms(1) new unfolding heap_ok_def by (auto split: if_splits) (metis less_SucI)+
qed

text \<open>
  The first access of an operation turns the atomic operation into what is left of it; the later ones do
  a part of what is left.
\<close>

fun atomic :: "'id position \<Rightarrow> i64 \<Rightarrow> 'id tables \<Rightarrow> 'id tables" where
  "atomic (AddInsert i r) now t = add_route i r now t"
| "atomic (RemTake i) now t = remove_route i t"
| "atomic _ now t = t"

lemma first_abs:
  assumes "first_access p" and "micro hash u now m p = Some (m', p')"
  shows "complete c p' (tables_of m') = atomic p c (tables_of m)"
proof (cases p)
  case (AddInsert i r)
  with insert_tables [of hash u now m i r m' p' c] assms(2) show ?thesis by simp
next
  case (RemTake i)
  with take_tables [of hash u now m i m' p' c] assms(2) show ?thesis by simp
qed (use assms(1) in auto)

lemma middle_abs:
  assumes "heap_ok m" and "middle p" and "micro hash u now m p = Some (m', p')"
  shows "\<exists>c'. complete c p' (tables_of m') = complete c' p (tables_of m)"
proof (cases p)
  case (AddLink i r)
  with assms(3) have "p' = Unlock" by (auto simp: Let_def split: option.splits if_splits)
  with link_tables [OF assms(1), of hash u now i r m' p'] assms(3) AddLink show ?thesis by auto
next
  case (Unlink i k q)
  with unlink_tables [OF assms(1), of hash u now i k q m' p' c] assms(3) show ?thesis by blast
next
  case (DropKey nn k q)
  with drop_tables [of hash u now m nn k q m' p' c] assms(3) show ?thesis by blast
next
  case Unlock
  with assms(3) show ?thesis by auto
qed (use assms(2) in auto)

text \<open>So the sequence of operations stays, or the operation is added to it.\<close>

lemma atomic_op: "first_access p \<Longrightarrow> \<exists>op. table_step op t = atomic p c t"
  by (cases p) (auto intro: exI [of _ "Add i r c" for i r] exI [of _ "Remove i" for i])

lemma locked_abs:
  assumes "heap_ok m" and "first_access p \<or> middle p" and "micro hash u now m p = Some (m', p')"
    and "\<forall>c. \<exists>ops. complete c p (tables_of m) = fold table_step ops tables_new"
  shows "\<exists>ops. complete c p' (tables_of m') = fold table_step ops tables_new"
proof (cases "first_access p")
  case True
  with assms(4) obtain ops where "tables_of m = fold table_step ops tables_new"
    by (auto simp: complete_trivial)
  moreover obtain op where "table_step op (tables_of m) = atomic p c (tables_of m)"
    using atomic_op [OF True] by blast
  ultimately show ?thesis
    by (intro exI [of _ "ops @ [op]"]) (simp add: first_abs [OF True assms(3)])
next
  case False
  with middle_abs [OF assms(1) _ assms(3)] assms(2,4) show ?thesis by metis
qed

subsection \<open>The steps of the others\<close>

lemma after_touch_cases: "after_touch p \<Longrightarrow> p = Idling \<or> p = Sending"
  by (cases p) auto

lemma free_step:
  assumes "free_position p" and "\<And>q. p \<noteq> Queue q" and "micro hash u now m p = Some (m', p')"
  shows "free_position p'" and "m_lock m' = m_lock m"
    and "heap_ok m \<Longrightarrow> (\<And>n. handle p = Some n \<Longrightarrow> n < m_fresh m) \<Longrightarrow> handle p' = Some n \<Longrightarrow> n < m_fresh m'"
  using assms
  by (cases p; auto simp: heap_ok_def dest!: after_touch_cases split: option.splits if_splits)+

text \<open>Getting the lock.\<close>

lemma queue_step:
  assumes "free_position (Queue p)" and "micro hash u now m (Queue p) = Some (m', p')"
  shows "m_lock m = None" and "m' = m\<lparr>m_lock := Some u\<rparr>" and "p' = p" and "first_access p"
  using assms by (auto split: if_splits)

text \<open>The operations that take no lock.\<close>

fun unlocked_op :: "'id table_op \<Rightarrow> bool" where
  "unlocked_op (Add i r c) = False"
| "unlocked_op (Remove i) = False"
| "unlocked_op _ = True"

lemma free_abs:
  assumes "heap_ok m" and "free_position p" and "micro hash u now m p = Some (m', p')"
    and "middle q \<or> first_access q \<or> q = Idling"
  shows "\<exists>ops'. list_all unlocked_op ops' \<and>
    (\<forall>c. complete c q (tables_of m') = fold table_step ops' (complete c q (tables_of m)))"
proof (cases p)
  case (UpdateRoute i mt rt)
  with assms(3) have "tables_of m' = update_route i mt rt (tables_of m)"
    by (auto simp: tables_of_def update_route_def split: option.splits if_splits)
  then show ?thesis
    by (intro exI [of _ "[Update i mt rt]"]) (simp add: complete_update)
next
  case (TouchAt w n p0)
  show ?thesis
  proof (cases "n \<in> ran (m_index m)")
    case False
    have "m' = m\<lparr>m_nodes := (m_nodes m)(n := stamp w now (m_nodes m n))\<rparr>"
      using assms(3) TouchAt by (auto simp: stamp_def)
    then have "tables_of m' = tables_of m"
      by (simp only: tables_of_detached [OF False])
    then show ?thesis
      by (intro exI [of _ "[]"]) simp
  next
    case True
    then obtain k where k: "m_index m k = Some n" by (auto simp: ran_def)
    have t: "tables_of m' = touch w k now (tables_of m)"
      using assms(3) TouchAt tables_of_node [OF assms(1) k] k
      by (cases w) (auto simp: touch_eq stamp_def)
    have "complete c q (tables_of m') = touch w k now (complete c q (tables_of m))" for c
    proof (cases "middle q")
      case True
      with complete_touch [of q "tables_of m" k] k show ?thesis by (simp add: t)
    next
      case False
      with assms(4) t show ?thesis by (auto simp: complete_trivial)
    qed
    then show ?thesis
      by (intro exI [of _ "[if w then TouchWrite k now else TouchRead k now]"]) (simp add: touch_def)
  qed
qed (use assms in \<open>auto intro: exI [of _ "[]"] split: if_splits option.splits\<close>)

subsection \<open>Every step keeps the invariant\<close>

lemma memory_new_fields [simp]:
  "m_index memory_new = Map.empty" "m_owner memory_new = Map.empty" "m_held memory_new = []"
  "m_lock memory_new = None"
  by (simp_all add: memory_new_def)

lemma tables_of_new: "\<exists>ops. tables_of memory_new = fold table_step ops tables_new"
  by (rule exI [of _ "[]"]) (simp add: tables_of_def memory_new_def tables_new_def)

lemma inter_inv_start: "interleaving_start s \<Longrightarrow> inter_inv s"
  using tables_of_new
  by (simp add: interleaving_start_def inter_inv_def heap_ok_def holder_def)

lemma inter_inv_locked:
  assumes inv: "inter_inv (m, ps)" and h: "m_lock m = Some h" and step: "micro hash u now m (ps h) = Some (m', p')"
  shows "inter_inv (m', ps(h := p'))"
proof -
  let ?p = "ps h"
  have heap: "heap_ok m" and loc: "first_access ?p \<or> middle ?p"
    and abs: "\<forall>c. \<exists>ops. complete c ?p (tables_of m) = fold table_step ops tables_new"
    and others: "\<And>t. t \<noteq> h \<Longrightarrow> free_position (ps t)"
    and handles: "\<And>t n. handle (ps t) = Some n \<Longrightarrow> n < m_fresh m"
    using inv h by (auto simp: inter_inv_def holder_def)
  note heap' = heap_ok_step [OF heap step]
  have abs': "\<exists>ops. complete c p' (tables_of m') = fold table_step ops tables_new" for c
    by (rule locked_abs [OF heap loc step abs])
  have old: "n < m_fresh m'" if "handle (ps t) = Some n" for t n
    using handles [OF that] heap'(2) by simp
  show ?thesis
  proof (cases "?p = Unlock")
    case True
    with step have "m_lock m' = None" "p' = Idling" by auto
    with heap' others old abs' show ?thesis
      by (auto simp: inter_inv_def holder_def)
  next
    case False
    note p' = locked_step [OF loc step False]
    with heap' others old abs' h show ?thesis
      by (auto simp: inter_inv_def holder_def middle_handle)
  qed
qed

lemma inter_inv_free:
  assumes inv: "inter_inv (m, ps)" and t: "m_lock m \<noteq> Some t" and step: "micro hash u now m (ps t) = Some (m', p')"
    and no_queue: "\<And>q. ps t \<noteq> Queue q"
  shows "inter_inv (m', ps(t := p'))"
proof -
  have heap: "heap_ok m" and free: "free_position (ps t)"
    and handles: "\<And>t n. handle (ps t) = Some n \<Longrightarrow> n < m_fresh m"
    using inv t by (auto simp: inter_inv_def)
  note heap' = heap_ok_step [OF heap step] and free' = free_step [OF free no_queue step]
  have hold: "holder m' (ps(t := p')) = holder m ps"
    using t free'(2) by (auto simp: holder_def split: option.split)
  have "middle (holder m ps) \<or> first_access (holder m ps) \<or> holder m ps = Idling"
    using inv by (auto simp: inter_inv_def holder_def split: option.split)
  note abs = free_abs [OF heap free step this]
  have "\<exists>ops. complete c (holder m ps) (tables_of m') = fold table_step ops tables_new" for c
  proof -
    obtain ops where "complete c (holder m ps) (tables_of m) = fold table_step ops tables_new"
      using inv unfolding inter_inv_def prod.case by blast
    moreover obtain ops' where "complete c (holder m ps) (tables_of m') =
        fold table_step ops' (complete c (holder m ps) (tables_of m))"
      using abs by blast
    ultimately show ?thesis
      by (intro exI [of _ "ops @ ops'"]) simp
  qed
  moreover have "n < m_fresh m'" if "handle ((ps(t := p')) u) = Some n" for u n
    using that handles heap'(2) free'(3) [OF heap handles] by (cases "u = t") (auto intro: less_le_trans)
  ultimately show ?thesis
    using inv heap' free' t unfolding inter_inv_def by (simp add: hold)
qed

lemma inter_inv_queue:
  assumes inv: "inter_inv (m, ps)" and t: "ps t = Queue p" and step: "micro hash u now m (Queue p) = Some (m', p')"
    and u: "u = t"
  shows "inter_inv (m', ps(t := p'))"
proof -
  have "free_position (ps t)"
  proof (cases "m_lock m = Some t")
    case True
    with inv have "first_access (ps t) \<or> middle (ps t)" by (simp add: inter_inv_def)
    with t show ?thesis by simp
  next
    case False
    with inv show ?thesis by (simp add: inter_inv_def)
  qed
  then have "free_position (Queue p)" by (simp only: t)
  note q = queue_step [OF this step]
  have "\<exists>ops. complete c p (tables_of m') = fold table_step ops tables_new" for c
    using inv q(1,2,4) by (simp add: inter_inv_def holder_def complete_trivial)
  moreover have "holder m' (ps(t := p')) = p"
    using q(2,3) u by (simp add: holder_def)
  moreover have "heap_ok m'" and "\<And>v n. handle ((ps(t := p')) v) = Some n \<Longrightarrow> n < m_fresh m'"
    using inv q(2-4) by (auto simp: inter_inv_def heap_ok_def middle_handle split: if_splits)
  moreover have "\<And>v. v \<noteq> t \<Longrightarrow> free_position (ps v)"
    using inv q(1) by (simp add: inter_inv_def)
  ultimately show ?thesis
    using q(2-4) u by (simp add: inter_inv_def)
qed

lemma begins_free: "begins p \<Longrightarrow> free_position p \<and> handle p = None"
  by (cases p rule: begins.cases) auto

lemma inter_inv_step: "interleaved hash s s' \<Longrightarrow> inter_inv s \<Longrightarrow> inter_inv s'"
proof (induction rule: interleaved.induct)
  case (begin_op ps t p m)
  have "holder m (ps(t := p)) = holder m ps" if "inter_inv (m, ps)"
    using that begin_op(1) by (auto simp: holder_def inter_inv_def split: option.split)
  with begin_op begins_free [OF begin_op(2)] show ?case
    by (auto simp: inter_inv_def dest: free_not_locked)
next
  case (go_on t now m ps m' p')
  show ?case
  proof (cases "\<exists>q. ps t = Queue q")
    case True
    then obtain q where q: "ps t = Queue q" ..
    from go_on(1) have "micro hash t now m (Queue q) = Some (m', p')" by (simp only: q)
    from inter_inv_queue [OF go_on(2) q this refl] show ?thesis .
  next
    case no_queue: False
    show ?thesis
    proof (cases "m_lock m = Some t")
      case True
      from inter_inv_locked [OF go_on(2) this go_on(1)] show ?thesis .
    next
      case False
      from inter_inv_free [OF go_on(2) this go_on(1)] no_queue show ?thesis by blast
    qed
  qed
qed

lemma inter_inv_reachable: "reachable interleaving_start (interleaved hash) s \<Longrightarrow> inter_inv s"
  by (erule reachable_invariant) (auto intro: inter_inv_start inter_inv_step)

subsection \<open>The tables between the locked operations\<close>

text \<open>
  C4: However the accesses of any number of threads interleave, whenever no thread holds the lock the two
  tables are what some sequence of whole operations builds from the empty tables, and are consistent with
  each other.
\<close>

theorem interleaved_consistent:
  assumes "reachable interleaving_start (interleaved hash) (m, ps)" and "m_lock m = None"
  shows "(\<exists>ops. tables_of m = fold table_step ops tables_new) \<and> tables_wf (tables_of m)"
proof -
  obtain ops where ops: "tables_of m = fold table_step ops tables_new"
    using inter_inv_reachable [OF assms(1)] assms(2) by (auto simp: inter_inv_def holder_def)
  moreover have "tables_wf (fold table_step ops tables_new)"
    by (rule tables_ok_wf) (rule tables_ok_run)
  ultimately show ?thesis by auto
qed

subsection \<open>A locked operation is atomic\<close>

text \<open>
  \<open>held_step hash h\<close>: a step of any thread while \<open>h\<close> holds the lock. The tables before are \<open>t\<close>; as long as the
  operation \<open>p\<close> of \<open>h\<close> lasts, what is left of it leads to the tables that \<open>p\<close> as one step leads to, with
  unlocked operations before and after it.
\<close>

definition held_step :: "('id \<Rightarrow> nat) \<Rightarrow> nat \<Rightarrow> 'id memory \<times> 'id threads \<Rightarrow> 'id memory \<times> 'id threads \<Rightarrow> bool" where
  "held_step hash h s s' \<longleftrightarrow> m_lock (fst s) = Some h \<and> interleaved hash s s'"

definition around :: "'id position \<Rightarrow> 'id tables \<Rightarrow> 'id tables \<Rightarrow> bool" where
  "around p t t' \<longleftrightarrow> (\<exists>before after c. list_all unlocked_op before \<and> list_all unlocked_op after \<and>
     t' = fold table_step after (atomic p c (fold table_step before t)))"

definition under_way :: "nat \<Rightarrow> 'id position \<Rightarrow> 'id tables \<Rightarrow> 'id memory \<times> 'id threads \<Rightarrow> bool" where
  "under_way h p t s \<longleftrightarrow> (case s of (m, ps) \<Rightarrow> inter_inv (m, ps) \<and>
     (m_lock m = Some h \<and> ps h = p \<and>
        (\<exists>before. list_all unlocked_op before \<and> tables_of m = fold table_step before t) \<or>
      m_lock m = Some h \<and> middle (ps h) \<and> (\<forall>c. around p t (complete c (ps h) (tables_of m))) \<or>
      m_lock m = None \<and> around p t (tables_of m)))"

lemma around_after: "around p t t' \<Longrightarrow> list_all unlocked_op ops \<Longrightarrow> around p t (fold table_step ops t')"
  unfolding around_def by (metis fold_append comp_apply list_all_append)

lemma under_way_locked:
  assumes "under_way h p t (m, ps)" and p: "first_access p" and h: "m_lock m = Some h"
    and step: "micro hash u now m (ps h) = Some (m', p')"
  shows "under_way h p t (m', ps(h := p'))"
proof -
  have inv: "inter_inv (m, ps)" using assms(1) by (simp add: under_way_def)
  note inv' = inter_inv_locked [OF inv h step]
  consider (first) before where "ps h = p" "list_all unlocked_op before" "tables_of m = fold table_step before t"
    | (mid) "middle (ps h)" "\<forall>c. around p t (complete c (ps h) (tables_of m))"
    using assms(1) h by (auto simp: under_way_def)
  then show ?thesis
  proof cases
    case first
    have "complete c p' (tables_of m') = atomic p c (fold table_step before t)" for c
      using first_abs [of p hash u now m m' p' c] p step first by simp
    then have "around p t (complete c p' (tables_of m'))" for c
      unfolding around_def using first(2) by (intro exI [of _ before] exI [of _ "[]"] exI [of _ c]) simp
    moreover have "ps h \<noteq> Unlock" using first(1) p by auto
    note p' = locked_step [OF _ step this]
    ultimately show ?thesis
      using inv' p' h p first(1) by (auto simp: under_way_def)
  next
    case mid
    have heap: "heap_ok m" using inv by (simp add: inter_inv_def)
    have rest: "around p t (complete c p' (tables_of m'))" for c
      using middle_abs [OF heap mid(1) step, of c] mid(2) by metis
    show ?thesis
    proof (cases "ps h = Unlock")
      case True
      with step have "m_lock m' = None" "p' = Idling" by auto
      with inv' rest show ?thesis by (auto simp: under_way_def)
    next
      case False
      with locked_step [OF _ step False] mid(1) inv' rest h show ?thesis
        by (auto simp: under_way_def)
    qed
  qed
qed

lemma under_way_free:
  assumes "under_way h p t (m, ps)" and p: "first_access p" and h: "m_lock m = Some h" "u \<noteq> h"
    and step: "micro hash u now m (ps u) = Some (m', p')"
  shows "under_way h p t (m', ps(u := p'))"
proof -
  have inv: "inter_inv (m, ps)" using assms(1) by (simp add: under_way_def)
  have heap: "heap_ok m" and free: "free_position (ps u)"
    using inv h by (auto simp: inter_inv_def)
  have no_queue: "ps u \<noteq> Queue q" for q
    using step h(1) by auto
  have inv': "inter_inv (m', ps(u := p'))"
    by (rule inter_inv_free [OF inv _ step no_queue]) (use h in simp)
  have lock': "m_lock m' = Some h" using free_step(2) [OF free no_queue step] h by simp
  have "middle (ps h) \<or> first_access (ps h) \<or> ps h = Idling"
    using inv h by (auto simp: inter_inv_def)
  from free_abs [OF heap free step this] obtain ops where ops: "list_all unlocked_op ops"
    and abs: "complete c (ps h) (tables_of m') = fold table_step ops (complete c (ps h) (tables_of m))" for c
    by blast
  consider (first) before where "ps h = p" "list_all unlocked_op before" "tables_of m = fold table_step before t"
    | (mid) "middle (ps h)" "\<forall>c. around p t (complete c (ps h) (tables_of m))"
    using assms(1) h by (auto simp: under_way_def)
  then show ?thesis
  proof cases
    case first
    have "tables_of m' = fold table_step (before @ ops) t"
      using abs first p by (simp add: complete_trivial)
    moreover have "list_all unlocked_op (before @ ops)" using ops first(2) by simp
    ultimately have "\<exists>b. list_all unlocked_op b \<and> tables_of m' = fold table_step b t" by blast
    with inv' lock' h first(1) show ?thesis
      by (simp add: under_way_def)
  next
    case mid
    then have "around p t (complete c (ps h) (tables_of m'))" for c
      unfolding abs using ops by (simp add: around_after)
    then show ?thesis
      using inv' lock' h mid(1) by (simp add: under_way_def)
  qed
qed

lemma under_way_step:
  assumes "held_step hash h (m, ps) s'" and "under_way h p t (m, ps)" and p: "first_access p"
  shows "under_way h p t s'"
proof -
  have h: "m_lock m = Some h" and step: "interleaved hash (m, ps) s'"
    using assms(1) by (auto simp: held_step_def)
  have inv: "inter_inv (m, ps)" using assms(2) by (simp add: under_way_def)
  from step show ?thesis
  proof (cases rule: interleaved.cases)
    case (begin_op u q)
    then have "u \<noteq> h" using inv h by (auto simp: inter_inv_def)
    moreover have "inter_inv s'" using step inv by (rule inter_inv_step)
    ultimately show ?thesis
      using begin_op assms(2) by (simp add: under_way_def)
  next
    case (go_on u now m'' q)
    with assms(2) p h show ?thesis
      by (cases "u = h") (auto intro: under_way_locked under_way_free)
  qed
qed

text \<open>
  C3: \<^verbatim>\<open>add_route_\<close> and \<^verbatim>\<open>remove_route_\<close> are atomic for everybody who does not look at a single entry: from the
  moment a thread has the lock until it releases it, with any accesses of other threads in between, the tables
  go where the whole operation takes them, with only lock-free operations (metric updates, clock stores) before
  and after it.
\<close>

theorem locked_operation_atomic:
  assumes "reachable interleaving_start (interleaved hash) (m, ps)" and "m_lock m = Some h" and "first_access (ps h)"
    and "(held_step hash h)\<^sup>*\<^sup>* (m, ps) (m', ps')" and "m_lock m' = None"
  shows "around (ps h) (tables_of m) (tables_of m')"
proof -
  have "under_way h (ps h) (tables_of m) (m, ps)"
    using inter_inv_reachable [OF assms(1)] assms(2)
    by (simp add: under_way_def exI [of _ "[]"])
  with assms(4) have "under_way h (ps h) (tables_of m) (m', ps')"
    by (induction rule: rtranclp_induct) (auto intro: under_way_step [OF _ _ assms(3)])
  with assms(5) show ?thesis by (simp add: under_way_def)
qed

subsection \<open>Schedules\<close>

text \<open>
  A schedule as a list: thread, time, and the operation it begins or \<open>None\<close> for its next access.
\<close>

fun scheduled :: "('id \<Rightarrow> nat) \<Rightarrow> (nat \<times> i64 \<times> 'id position option) list \<Rightarrow> 'id memory \<times> 'id threads \<Rightarrow>
    ('id memory \<times> 'id threads) option" where
  "scheduled hash [] s = Some s"
| "scheduled hash ((t, now, None) # es) (m, ps) =
     (case micro hash t now m (ps t) of None \<Rightarrow> None | Some (m', p') \<Rightarrow> scheduled hash es (m', ps(t := p')))"
| "scheduled hash ((t, now, Some p) # es) (m, ps) =
     (case ps t of Idling \<Rightarrow> if begins p then scheduled hash es (m, ps(t := p)) else None | _ \<Rightarrow> None)"

lemma scheduled_append:
  "scheduled hash (es1 @ es2) s = Option.bind (scheduled hash es1 s) (scheduled hash es2)"
  by (induction hash es1 s rule: scheduled.induct) (auto split: option.split position.split)

lemma scheduled_begin:
  assumes "scheduled hash [(t, now, Some p)] (m, ps) = Some s'"
  shows "interleaved hash (m, ps) s'" and "m_nodes (fst s') = m_nodes m" and "m_fresh (fst s') = m_fresh m"
proof -
  from assms have idle: "ps t = Idling" by (auto split: position.splits)
  with assms have "begins p" and s': "s' = (m, ps(t := p))" by (auto split: if_splits)
  with idle interleaved.begin_op [where ps = ps and t = t] show "interleaved hash (m, ps) s'" by simp
  from s' show "m_nodes (fst s') = m_nodes m" and "m_fresh (fst s') = m_fresh m" by simp_all
qed

lemma scheduled_access:
  assumes "scheduled hash [(t, now, None)] (m, ps) = Some s'"
  obtains m' p' where "micro hash t now m (ps t) = Some (m', p')" and "s' = (m', ps(t := p'))"
  using assms by (auto split: option.splits)

lemma scheduled_one: "scheduled hash [e] s = Some s' \<Longrightarrow> interleaved hash s s'"
proof -
  assume run: "scheduled hash [e] s = Some s'"
  obtain t now x m ps where e: "e = (t, now, x)" and s: "s = (m, ps)" by (metis prod_cases3 surj_pair)
  show "interleaved hash s s'"
  proof (cases x)
    case None
    with run e s obtain m' p' where "micro hash t now m (ps t) = Some (m', p')" "s' = (m', ps(t := p'))"
      using scheduled_access by blast
    with interleaved.go_on [where ps = ps and t = t, OF this(1)] s show ?thesis by simp
  next
    case (Some p)
    with run e s scheduled_begin(1) show ?thesis by blast
  qed
qed

lemma scheduled_reachable:
  "scheduled hash es s = Some s' \<Longrightarrow> reachable I (interleaved hash) s \<Longrightarrow> reachable I (interleaved hash) s'"
proof (induction es arbitrary: s)
  case Nil
  then show ?case by simp
next
  case (Cons e es)
  have "Option.bind (scheduled hash [e] s) (scheduled hash es) = Some s'"
    using Cons.prems(1) scheduled_append [of hash "[e]" es s] by simp
  then obtain u where u: "scheduled hash [e] s = Some u" "scheduled hash es u = Some s'"
    unfolding Option.bind_eq_Some_conv by blast
  have "reachable I (interleaved hash) u"
    by (rule reachable.step [OF Cons.prems(2) scheduled_one [OF u(1)]])
  with Cons.IH u(2) show ?case by blast
qed

lemma scheduled_from_start:
  "scheduled hash es (memory_new, \<lambda>_. Idling) = Some s \<Longrightarrow> reachable interleaving_start (interleaved hash) s"
  by (erule scheduled_reachable) (simp add: reachable.start interleaving_start_def)

subsection \<open>Waiting\<close>

text \<open>The accesses a position has before it at most.\<close>

fun left :: "'id position \<Rightarrow> nat" where
  "left Idling = 0"
| "left (Queue p) = 1 + left p"
| "left (AddInsert i r) = 5"
| "left (RemTake i) = 4"
| "left (AddLink i r) = 2"
| "left (Unlink i k p) = 2 + left p"
| "left (DropKey n k p) = 1 + left p"
| "left Unlock = 1"
| "left (UpdateRoute i mt rt) = 1"
| "left (GetSend i) = 4"
| "left (GetTouch w k p) = 2 + left p"
| "left (TouchAt w n p) = 1 + left p"
| "left Sending = 1"
| "left (GetRead k) = 3"
| "left (ReadIds n) = 2"
| "left (CloneIds n) = 1"

lemma left_step: "micro hash u now m p = Some (m', p') \<Longrightarrow> left p' < left p"
  by (cases p) (auto simp: Let_def split: option.splits if_splits)

lemma left_first: "first_access p \<Longrightarrow> left p \<le> 5"
  by (cases p) auto

lemma left_bound:
  assumes "free_position p \<or> first_access p \<or> middle p"
  shows "left p \<le> 6"
proof -
  have "left p \<le> 6" if "free_position p"
    using that by (cases p) (auto dest!: after_touch_cases left_first)
  moreover have "left p \<le> 6" if "middle p"
    using that by (cases p rule: middle.cases) auto
  ultimately show ?thesis using assms left_first [of p] by auto
qed

text \<open>What the next access of a thread needs: the entry of an id to itself, the mutex of an id list.\<close>

fun writes :: "'id position \<Rightarrow> 'id option" where
  "writes (AddInsert i r) = Some i"
| "writes (RemTake i) = Some i"
| "writes (UpdateRoute i mt rt) = Some i"
| "writes _ = None"

fun locks :: "'id memory \<Rightarrow> 'id position \<Rightarrow> nat option" where
  "locks m (AddLink i r) = m_index m (route_key r)"
| "locks m (Unlink i k p) = m_index m k"
| "locks m (ReadIds n) = Some n"
| "locks m _ = None"

inductive waits_for :: "('id \<Rightarrow> nat) \<Rightarrow> 'id memory \<times> 'id threads \<Rightarrow> nat \<Rightarrow> nat \<Rightarrow> bool" for hash where
  on_lock: "ps t = Queue p \<Longrightarrow> m_lock m = Some u \<Longrightarrow> waits_for hash (m, ps) t u"
| on_list: "locks m (ps t) = Some n \<Longrightarrow> m_owner m n = Some u \<Longrightarrow> waits_for hash (m, ps) t u"
| on_shard: "writes (ps t) = Some i \<Longrightarrow> (u, j) \<in> set (m_held m) \<Longrightarrow> hash j = hash i \<Longrightarrow> waits_for hash (m, ps) t u"

abbreviation goes_on :: "('id \<Rightarrow> nat) \<Rightarrow> i64 \<Rightarrow> 'id memory \<times> 'id threads \<Rightarrow> nat \<Rightarrow> bool" where
  "goes_on hash now s t \<equiv> micro hash t now (fst s) (snd s t) \<noteq> None"

text \<open>A thread inside an operation goes on or waits for another thread.\<close>

lemma goes_or_waits:
  assumes "ps t \<noteq> Idling"
  shows "goes_on hash now (m, ps) t \<or> (\<exists>u. waits_for hash (m, ps) t u)"
proof -
  consider (list) n u where "locks m (ps t) = Some n" "m_owner m n = Some u"
    | (no_list) "\<And>n. locks m (ps t) = Some n \<Longrightarrow> m_owner m n = None"
    by fastforce
  then show ?thesis
  proof cases
    case list
    then show ?thesis by (blast intro: waits_for.on_list)
  next
    case no_list
    show ?thesis
    proof (cases "ps t")
      case (Queue p)
      then show ?thesis by (cases "m_lock m") (auto intro: waits_for.on_lock)
    next
      case (AddInsert i r)
      then show ?thesis by (force simp: shard_kept_def list_ex_iff intro: waits_for.on_shard)
    next
      case (RemTake i)
      then show ?thesis by (force simp: shard_kept_def list_ex_iff intro: waits_for.on_shard)
    next
      case (UpdateRoute i mt rt)
      then show ?thesis by (force simp: shard_kept_def list_ex_iff intro: waits_for.on_shard)
    qed (use assms no_list in \<open>auto simp: Let_def split: option.split\<close>)
  qed
qed

text \<open>Who is waited for: what a thread has, its position says.\<close>

fun owns :: "'id position \<Rightarrow> nat option" where
  "owns (DropKey n k p) = Some n"
| "owns (CloneIds n) = Some n"
| "owns _ = None"

fun keeps :: "'id position \<Rightarrow> bool" where
  "keeps (GetTouch w k p) = (p = Sending)"
| "keeps (TouchAt w n p) = (p = Sending)"
| "keeps Sending = True"
| "keeps _ = False"

definition owner_inv :: "'id memory \<times> 'id threads \<Rightarrow> bool" where
  "owner_inv s \<longleftrightarrow> (case s of (m, ps) \<Rightarrow>
     (\<forall>n u. m_owner m n = Some u \<longrightarrow> owns (ps u) = Some n) \<and> (\<forall>u \<in> fst ` set (m_held m). keeps (ps u)))"

lemma micro_owner:
  assumes "micro hash u now m p = Some (m', p')" and "m_owner m' n = Some v" and "free_position p \<or> first_access p \<or> middle p"
  shows "(v = u \<and> owns p' = Some n) \<or> (m_owner m n = Some v \<and> owns p \<noteq> Some n)"
  using assms by (cases p rule: middle.cases) (auto simp: Let_def split: option.splits if_splits)

lemma micro_held:
  assumes "micro hash u now m p = Some (m', p')" and "v \<in> fst ` set (m_held m')" and "free_position p \<or> first_access p \<or> middle p"
  shows "(v = u \<and> keeps p') \<or> (v \<in> fst ` set (m_held m) \<and> (v = u \<longrightarrow> keeps p \<longrightarrow> keeps p'))"
  using assms by (cases p rule: middle.cases) (auto simp: Let_def split: option.splits if_splits)

lemma position_kinds:
  "inter_inv (m, ps) \<Longrightarrow> free_position (ps t) \<or> first_access (ps t) \<or> middle (ps t)"
  by (cases "m_lock m = Some t") (auto simp: inter_inv_def)

lemma owner_inv_step: "interleaved hash s s' \<Longrightarrow> inter_inv s \<Longrightarrow> owner_inv s \<Longrightarrow> owner_inv s'"
proof (induction rule: interleaved.induct)
  case (begin_op ps t p m)
  then show ?case by (force simp: owner_inv_def)
next
  case (go_on t now m ps m' p')
  note kinds = position_kinds [OF go_on(2), of t]
  have "owns ((ps(t := p')) u) = Some n" if "m_owner m' n = Some u" for n u
    using micro_owner [OF go_on(1) that kinds] go_on(3) by (auto simp: owner_inv_def)
  moreover have "keeps ((ps(t := p')) u)" if "u \<in> fst ` set (m_held m')" for u
    using micro_held [OF go_on(1) that kinds] go_on(3) by (auto simp: owner_inv_def)
  ultimately show ?case by (simp add: owner_inv_def)
qed

lemma owner_inv_reachable:
  assumes "reachable interleaving_start (interleaved hash) s"
  shows "inter_inv s \<and> owner_inv s"
  using assms
proof (rule reachable_invariant [where J = "\<lambda>s. inter_inv s \<and> owner_inv s"])
  show "inter_inv s \<and> owner_inv s" if "interleaving_start s" for s :: "'a memory \<times> 'a threads"
    using that inter_inv_start [OF that] by (simp add: owner_inv_def interleaving_start_def)
qed (blast intro: inter_inv_step owner_inv_step)

lemma owner_goes: "owns (ps u) \<noteq> None \<or> keeps (ps u) \<Longrightarrow> goes_on hash now (m, ps) u"
  by (cases "ps u") auto

lemma waits_short:
  assumes "owner_inv (m, ps)" and "waits_for hash (m, ps) t u" and "\<And>p. ps t \<noteq> Queue p"
  shows "goes_on hash now (m, ps) u"
  using assms(2)
proof (cases rule: waits_for.cases)
  case (on_list n)
  with assms(1) have "owns (ps u) = Some n" by (simp add: owner_inv_def)
  then show ?thesis by (intro owner_goes) simp
next
  case (on_shard i j)
  with assms(1) have "keeps (ps u)" by (force simp: owner_inv_def)
  then show ?thesis by (intro owner_goes) simp
qed (use assms(3) in auto)

text \<open>
  C29: No deadlock. Threads inside the table operations wait for one another: for \<^verbatim>\<open>lock\<close>, for the mutex of an id
  list that a reader is cloning or whose key is being taken out, and for the shard of the id table that a thread
  in \<^verbatim>\<open>send_to_id\<close> keeps while it sends. But in every reachable state each of them can go on, or waits for a
  thread that can, or waits for the holder of \<^verbatim>\<open>lock\<close> who waits for a thread that can; and no operation takes more than
  six accesses.
\<close>

theorem interleaved_progress:
  assumes "reachable interleaving_start (interleaved hash) (m, ps)" and "ps t \<noteq> Idling"
  shows "(goes_on hash now (m, ps) t \<or>
      (\<exists>u. waits_for hash (m, ps) t u \<and> (goes_on hash now (m, ps) u \<or>
        (m_lock m = Some u \<and> (\<exists>v. waits_for hash (m, ps) u v \<and> goes_on hash now (m, ps) v))))) \<and>
    left (ps t) \<le> 6 \<and> (\<forall>m' p'. micro hash t now m (ps t) = Some (m', p') \<longrightarrow> left p' < left (ps t))"
proof -
  have inv: "inter_inv (m, ps)" and own: "owner_inv (m, ps)"
    using owner_inv_reachable [OF assms(1)] by simp_all
  have "goes_on hash now (m, ps) u \<or> (m_lock m = Some u \<and> (\<exists>v. waits_for hash (m, ps) u v \<and> goes_on hash now (m, ps) v))"
    if waits: "waits_for hash (m, ps) t u" for u
  proof (cases "\<exists>p. ps t = Queue p")
    case False
    with waits_short [OF own waits] show ?thesis by blast
  next
    case True
    with waits have h: "m_lock m = Some u" by (auto elim: waits_for.cases)
    with inv have held: "first_access (ps u) \<or> middle (ps u)" by (simp add: inter_inv_def)
    then have "ps u \<noteq> Idling" and "ps u \<noteq> Queue p" for p by auto
    with goes_or_waits [of ps u hash now m] waits_short [OF own] h show ?thesis by blast
  qed
  with goes_or_waits [of ps t hash now m] assms(2) left_bound [OF position_kinds [OF inv]] left_step show ?thesis
    by blast
qed

subsection \<open>Readers take no lock\<close>

text \<open>A peer gets a route, a reader finds its entry, the peer gets another route, the reader clones.\<close>

definition route_before :: route where
  "route_before = route_new 0 (SockV4 1 1) 1 0"

definition route_after :: route where
  "route_after = route_new 0 (SockV4 2 1) 1 0"

definition move_under_reader :: "'id \<Rightarrow> (nat \<times> i64 \<times> 'id position option) list" where
  "move_under_reader i =
     (0, 0, Some (Queue (AddInsert i route_before))) # replicate 4 (0, 0, None) @
     [(1, 0, Some (GetRead (route_key route_before))), (1, 0, None), (0, 0, Some (Queue (AddInsert i route_after)))] @
     replicate 4 (0, 0, None) @ [(1, 0, None), (1, 0, None), (0, 0, None), (0, 0, None)]"

lemma route_keys_differ: "route_key route_before \<noteq> route_key route_after"
  by (simp add: route_before_def route_after_def)

lemma move_under_reader_run:
  "\<exists>m ps. scheduled hash (move_under_reader i) (memory_new, \<lambda>_. Idling) = Some (m, ps) \<and>
     m_reads m = [[]] \<and> m_routes m i = Some route_after \<and> m_lock m = None"
  using route_keys_differ
  by (simp add: move_under_reader_def memory_new_def shard_kept_def Let_def numeral_eq_Suc)

text \<open>
  What the readers' missing lock costs: a reader that found the entry of a key can clone an empty list of
  ids, when another thread moves the only peer behind that key to another address in between, where the
  peer has a route after it. The list of ids that \<^verbatim>\<open>next_idle\<close> reports is read in this way.
\<close>

theorem reader_clones_empty_ids:
  "\<exists>m ps. reachable interleaving_start (interleaved hash) (m, ps) \<and>
     m_reads m = [[]] \<and> m_routes m i = Some route_after \<and> m_lock m = None"
  using move_under_reader_run [of hash i] scheduled_from_start by blast

subsection \<open>Witnesses\<close>

theorem interleaved_consistent_witness:
  "\<exists>m ps. reachable interleaving_start (interleaved (\<lambda>i. i)) (m :: nat memory, ps) \<and>
     m_routes m 7 = Some route_after \<and> tables_wf (tables_of m)"
proof -
  obtain m ps where run: "scheduled (\<lambda>i. i) (move_under_reader 7) (memory_new, \<lambda>_. Idling) = Some (m :: nat memory, ps)"
    and m: "m_routes m 7 = Some route_after" "m_lock m = None"
    using move_under_reader_run [of "\<lambda>i. i" "7 :: nat"] by blast
  note reach = scheduled_from_start [OF run]
  from interleaved_consistent [OF reach m(2)] reach m(1) show ?thesis by blast
qed

text \<open>
  Thread 1 sends to peer 7, which has a route, while thread 0, with \<^verbatim>\<open>lock\<close>, wants to move the peer and thread 2 wants
  to add another one: 2 waits for 0, 0 waits for 1, and 1 sends.
\<close>

definition behind_sender :: "(nat \<times> i64 \<times> nat position option) list" where
  "behind_sender =
     (0, 0, Some (Queue (AddInsert 7 route_before))) # replicate 4 (0, 0, None) @
     [(1, 0, Some (GetSend 7)), (1, 0, None), (0, 0, Some (Queue (AddInsert 7 route_after))), (0, 0, None),
      (2, 0, Some (Queue (AddInsert 8 route_after)))]"

lemma behind_sender_run:
  "\<exists>m ps. scheduled (\<lambda>i. i) behind_sender (memory_new, \<lambda>_. Idling) = Some (m, ps) \<and>
     ps 0 = AddInsert 7 route_after \<and> ps 1 = GetTouch True (route_key route_before) Sending \<and>
     ps 2 = Queue (AddInsert 8 route_after) \<and> m_lock m = Some 0 \<and> m_held m = [(1, 7)]"
  by (simp add: behind_sender_def memory_new_def shard_kept_def numeral_eq_Suc)

theorem interleaved_progress_witness:
  "\<exists>m ps. reachable interleaving_start (interleaved (\<lambda>i. i)) (m :: nat memory, ps) \<and>
     \<not> goes_on (\<lambda>i. i) 0 (m, ps) 2 \<and> \<not> goes_on (\<lambda>i. i) 0 (m, ps) 0 \<and>
     waits_for (\<lambda>i. i) (m, ps) 2 0 \<and> (\<exists>v. waits_for (\<lambda>i. i) (m, ps) 0 v \<and> goes_on (\<lambda>i. i) 0 (m, ps) v)"
proof -
  obtain m ps where run: "scheduled (\<lambda>i. i) behind_sender (memory_new, \<lambda>_. Idling) = Some (m :: nat memory, ps)"
    and ps: "ps 0 = AddInsert 7 route_after" "ps 2 = Queue (AddInsert 8 route_after)"
    and m: "m_lock m = Some 0" "m_held m = [(1, 7)]"
    using behind_sender_run by blast
  note reach = scheduled_from_start [OF run]
  have stuck: "\<not> goes_on (\<lambda>i. i) 0 (m, ps) 2" "\<not> goes_on (\<lambda>i. i) 0 (m, ps) 0"
    using ps m by (simp_all add: shard_kept_def)
  have "ps 2 \<noteq> Idling" using ps by simp
  from interleaved_progress [OF reach this, of 0] stuck obtain u where u: "waits_for (\<lambda>i. i) (m, ps) 2 u"
    "goes_on (\<lambda>i. i) 0 (m, ps) u \<or> (\<exists>v. waits_for (\<lambda>i. i) (m, ps) u v \<and> goes_on (\<lambda>i. i) 0 (m, ps) v)"
    by blast
  from u(1) ps(2) m(1) have "u = 0" by (auto elim: waits_for.cases)
  with u reach stuck show ?thesis by blast
qed

lemma held_go:
  assumes "(held_step hash h)\<^sup>*\<^sup>* s (m, ps)" and "m_lock m = Some h" and "micro hash t now m (ps t) = Some (m', p')"
  shows "(held_step hash h)\<^sup>*\<^sup>* s (m', ps(t := p'))"
  using assms(1)
proof (rule rtranclp.rtrancl_into_rtrancl)
  show "held_step hash h (m, ps) (m', ps(t := p'))"
    using assms(2) interleaved.go_on [where ps = ps and t = t, OF assms(3)] by (simp add: held_step_def)
qed

theorem locked_operation_atomic_witness:
  "\<exists>m. around (AddInsert 7 route_before) tables_new (tables_of (m :: nat memory)) \<and> m_lock m = None"
proof -
  let ?p = "AddInsert (7 :: nat) route_before" and ?hash = "\<lambda>i. i"
  let ?ps = "(\<lambda>_. Idling)(0 := ?p)" and ?m = "(memory_new :: nat memory)\<lparr>m_lock := Some 0\<rparr>"
  have run: "scheduled ?hash [(0, 0, Some (Queue ?p)), (0, 0, None)] (memory_new, \<lambda>_. Idling) = Some (?m, ?ps)"
    by simp
  have t0: "tables_of ?m = tables_new"
    by (simp add: tables_of_def memory_new_def tables_new_def)
  have "\<exists>m ps. (held_step ?hash 0)\<^sup>*\<^sup>* (?m, ?ps) (m, ps) \<and> m_lock m = None"
    by (rule exI, rule exI, rule conjI, rule held_go [where t = 0 and now = 0],
        rule held_go [where t = 0 and now = 0], rule held_go [where t = 0 and now = 0], rule rtranclp.rtrancl_refl)
      (simp add: memory_new_def shard_kept_def)+
  then obtain m ps where steps: "(held_step ?hash 0)\<^sup>*\<^sup>* (?m, ?ps) (m, ps)" and free: "m_lock m = None" by blast
  have "around (?ps 0) (tables_of ?m) (tables_of m)"
    using locked_operation_atomic [OF scheduled_from_start [OF run] _ _ steps free] by simp
  with t0 have "around ?p tables_new (tables_of m)" by simp
  with free show ?thesis by blast
qed

end
