(* ===== verification/Idle_Live.thy ===== *)
theory Idle_Live
  imports Idle Interleaving_Props
begin

section \<open>The scan for idle routes while the tables change\<close>

text \<open>
  \<^verbatim>\<open>next_idle\<close> takes no lock: between any two of its accesses the other threads go on. Here the scan of one
  round reads each clock and each id list at a moment of its own, out of the memory that the steps of
  \<^theory_text>\<open>Interleaving\<close> have made of the tables by then. The theory says what its report is worth then, and that it is the
  scan of \<^theory_text>\<open>Idle\<close> when nothing changes.
\<close>

subsection \<open>Model\<close>

text \<open>
  \<open>look t\<close> is the store of nodes at moment \<open>t\<close> of the scan. An entry
  takes four moments: the iterator hands it out, then come the read clock, the write clock and the list of ids. Between two
  moments of the scan the other threads may make any number of accesses.
\<close>

fun live_scan ::
    "idle \<Rightarrow> i64 \<Rightarrow> i64 \<Rightarrow> (nat \<Rightarrow> nat \<Rightarrow> 'id time_entry) \<Rightarrow> nat \<Rightarrow> (route_key \<times> nat) list \<Rightarrow> i64
     \<Rightarrow> 'id idle_report + i64" where
  "live_scan idl last_read_idle last_write_idle look t [] least = Inr least"
| "live_scan idl last_read_idle last_write_idle look t ((key, n) # es) least =
     (let last_read = te_read (look (t + 1) n);
          is_read_idle = (0 <s read_idle idl \<and> last_read <s last_read_idle);
          min1 = (if 0 <s read_idle idl \<and> \<not> last_read <s last_read_idle \<and> last_read <s least
                  then last_read else least)
      in if 0 <s write_idle idl then
           let last_write = te_write (look (t + 2) n) in
           if last_write <s last_write_idle then
             Inl (if is_read_idle then IdleBoth else IdleWrite, te_ids (look (t + 3) n), key)
           else
             let min2 = (if last_write <s min1 then last_write else min1)
             in if is_read_idle then Inl (IdleRead, te_ids (look (t + 3) n), key)
                else live_scan idl last_read_idle last_write_idle look (t + 4) es min2
         else if is_read_idle then Inl (IdleRead, te_ids (look (t + 3) n), key)
         else live_scan idl last_read_idle last_write_idle look (t + 4) es min1)"

abbreviation live_scan_at ::
    "idle \<Rightarrow> i64 \<Rightarrow> (nat \<Rightarrow> nat \<Rightarrow> 'id time_entry) \<Rightarrow> nat \<Rightarrow> (route_key \<times> nat) list \<Rightarrow> i64 \<Rightarrow> 'id idle_report + i64" where
  "live_scan_at idl now \<equiv> live_scan idl (now - read_idle idl) (now - write_idle idl)"

text \<open>What the scan gets to see of an entry.\<close>

definition glimpse :: "(nat \<Rightarrow> nat \<Rightarrow> 'id time_entry) \<Rightarrow> nat \<Rightarrow> nat \<Rightarrow> 'id time_entry" where
  "glimpse look t n = \<lparr>te_ids = te_ids (look (t + 3) n), te_read = te_read (look (t + 1) n),
     te_write = te_write (look (t + 2) n)\<rparr>"

fun glimpses ::
    "(nat \<Rightarrow> nat \<Rightarrow> 'id time_entry) \<Rightarrow> nat \<Rightarrow> (route_key \<times> nat) list \<Rightarrow> (route_key \<times> 'id time_entry) list" where
  "glimpses look t [] = []"
| "glimpses look t ((key, n) # es) = (key, glimpse look t n) # glimpses look (t + 4) es"

lemma glimpse_fields [simp]:
  "te_ids (glimpse look t n) = te_ids (look (t + 3) n)" "te_read (glimpse look t n) = te_read (look (t + 1) n)"
  "te_write (glimpse look t n) = te_write (look (t + 2) n)"
  by (simp_all add: glimpse_def)

lemma live_scan_glimpses:
  "live_scan idl lr lw look t es least = idle_scan idl lr lw (glimpses look t es) least"
  by (induction idl lr lw look t es least rule: live_scan.induct) (simp_all add: Let_def)

lemma length_glimpses [simp]: "length (glimpses look t es) = length es"
  by (induction look t es rule: glimpses.induct) simp_all

lemma glimpses_nth:
  "i < length es \<Longrightarrow> glimpses look t es ! i = (fst (es ! i), glimpse look (t + 4 * i) (snd (es ! i)))"
proof (induction look t es arbitrary: i rule: glimpses.induct)
  case (1 look t)
  then show ?case by simp
next
  case (2 look t key n es)
  then show ?case by (cases i) (simp_all add: algebra_simps)
qed

lemma glimpses_split:
  assumes "glimpses look t es = gs1 @ (key, e) # gs2"
  shows "length gs1 < length es" and "fst (es ! length gs1) = key"
    and "e = glimpse look (t + 4 * length gs1) (snd (es ! length gs1))"
proof -
  show len: "length gs1 < length es" using arg_cong [OF assms, of length] by simp
  have "glimpses look t es ! length gs1 = (key, e)" using assms by simp
  with len show "fst (es ! length gs1) = key" and "e = glimpse look (t + 4 * length gs1) (snd (es ! length gs1))"
    by (simp_all add: glimpses_nth)
qed

subsection \<open>Time\<close>

text \<open>
  A step when the clock says \<open>now\<close>: nothing, a step that does not touch the entries (such as the beginning of an
  operation), or an access; a thread that stores a clock reads the time in the same access. In a run the clock does not go back.
\<close>

inductive timed :: "('id \<Rightarrow> nat) \<Rightarrow> i64 \<Rightarrow> 'id memory \<times> 'id threads \<Rightarrow> 'id memory \<times> 'id threads \<Rightarrow> bool"
  for hash now where
  rest: "timed hash now s s"
| elsewhere: "interleaved hash s s' \<Longrightarrow> m_nodes (fst s') = m_nodes (fst s) \<Longrightarrow> m_fresh (fst s') = m_fresh (fst s) \<Longrightarrow>
    timed hash now s s'"
| access: "micro hash t now m (ps t) = Some (m', p') \<Longrightarrow> timed hash now (m, ps) (m', ps(t := p'))"

definition clock_run :: "('id \<Rightarrow> nat) \<Rightarrow> (nat \<Rightarrow> i64) \<Rightarrow> (nat \<Rightarrow> 'id memory \<times> 'id threads) \<Rightarrow> bool" where
  "clock_run hash c run \<longleftrightarrow> interleaving_start (run 0) \<and>
     (\<forall>t. timed hash (c t) (run t) (run (t + 1)) \<and> sint (c t) \<le> sint (c (t + 1)))"

lemma timed_interleaved: "timed hash now s s' \<Longrightarrow> s' = s \<or> interleaved hash s s'"
proof (induction rule: timed.induct)
  case (access t m ps m' p')
  from interleaved.go_on [where ps = ps and t = t, OF this] show ?case ..
qed simp_all

lemma clock_run_reachable: "clock_run hash c run \<Longrightarrow> reachable interleaving_start (interleaved hash) (run t)"
proof (induction t)
  case 0
  then show ?case by (simp add: clock_run_def reachable.start)
next
  case (Suc t)
  then have "timed hash (c t) (run t) (run (Suc t))" by (simp add: clock_run_def)
  with Suc timed_interleaved show ?case by (metis reachable.step)
qed

text \<open>No stored clock is ahead, and clocks only move forward.\<close>

definition behind :: "int \<Rightarrow> 'id memory \<Rightarrow> bool" where
  "behind now m \<longleftrightarrow>
     (\<forall>n < m_fresh m. sint (te_read (m_nodes m n)) \<le> now \<and> sint (te_write (m_nodes m n)) \<le> now)"

definition later :: "'id memory \<Rightarrow> 'id memory \<Rightarrow> bool" where
  "later m m' \<longleftrightarrow> m_fresh m \<le> m_fresh m' \<and>
     (\<forall>n < m_fresh m. sint (te_read (m_nodes m n)) \<le> sint (te_read (m_nodes m' n)) \<and>
        sint (te_write (m_nodes m n)) \<le> sint (te_write (m_nodes m' n)))"

lemma later_refl: "later m m"
  by (simp add: later_def)

lemma later_trans: "later m m' \<Longrightarrow> later m' m'' \<Longrightarrow> later m m''"
  unfolding later_def by (meson le_trans less_le_trans order.trans)

lemma micro_nodes:
  assumes "micro hash v now m p = Some (m', p')" and "heap_ok m" and "n < m_fresh m"
  shows "te_read (m_nodes m' n) = te_read (m_nodes m n) \<or> te_read (m_nodes m' n) = now"
    and "te_write (m_nodes m' n) = te_write (m_nodes m n) \<or> te_write (m_nodes m' n) = now"
  using assms by (cases p; auto simp: Let_def split: option.splits if_splits)+

lemma micro_fresh:
  assumes "micro hash v now m p = Some (m', p')"
  shows "m_fresh m' = m_fresh m \<or> m_fresh m' = m_fresh m + 1 \<and>
    te_read (m_nodes m' (m_fresh m)) = now \<and> te_write (m_nodes m' (m_fresh m)) = now"
  using assms by (cases p) (auto simp: Let_def split: option.splits if_splits)

lemma timed_behind:
  assumes "timed hash now s s'" and "heap_ok (fst s)" and "behind (sint now) (fst s)"
  shows "behind (sint now) (fst s') \<and> later (fst s) (fst s')"
  using assms
proof (induction rule: timed.induct)
  case (rest s)
  then show ?case by (simp add: later_refl)
next
  case (elsewhere s s')
  then show ?case by (simp add: behind_def later_def)
next
  case (access t m ps m' p')
  note nodes = micro_nodes [OF access(1)] and fresh = micro_fresh [OF access(1)]
  have old: "sint (te_read (m_nodes m n)) \<le> sint (te_read (m_nodes m' n)) \<and> sint (te_read (m_nodes m' n)) \<le> sint now \<and>
      sint (te_write (m_nodes m n)) \<le> sint (te_write (m_nodes m' n)) \<and> sint (te_write (m_nodes m' n)) \<le> sint now"
    if "n < m_fresh m" for n
    using nodes [of n] that access(2,3) by (auto simp: behind_def)
  have "n < m_fresh m \<or> n = m_fresh m" if "n < m_fresh m'" for n
    using that fresh by auto
  with old fresh have "behind (sint now) m'"
    unfolding behind_def by (metis less_irrefl order_refl)
  with old fresh show ?case by (auto simp: later_def)
qed

lemma clock_run_behind:
  assumes "clock_run hash c run"
  shows "behind (sint (c t)) (fst (run t))"
proof (induction t)
  case 0
  with assms show ?case
    by (auto simp: clock_run_def interleaving_start_def behind_def memory_new_def)
next
  case (Suc t)
  have "heap_ok (fst (run t))"
    using inter_inv_reachable [OF clock_run_reachable [OF assms, of t]] by (auto simp: inter_inv_def split: prod.splits)
  moreover have step: "timed hash (c t) (run t) (run (Suc t))" and "sint (c t) \<le> sint (c (Suc t))"
    using assms by (simp_all add: clock_run_def)
  ultimately have "behind (sint (c t)) (fst (run (Suc t)))" and "sint (c t) \<le> sint (c (Suc t))"
    using timed_behind [OF step _ Suc] by simp_all
  then show ?case unfolding behind_def by (meson order.trans)
qed

lemma clock_run_heap: "clock_run hash c run \<Longrightarrow> heap_ok (fst (run t))"
  using inter_inv_reachable [OF clock_run_reachable, of hash c run t] by (auto simp: inter_inv_def split: prod.splits)

lemma clock_run_later:
  assumes "clock_run hash c run" and "t \<le> u"
  shows "later (fst (run t)) (fst (run u))"
  using assms(2)
proof (induction u rule: dec_induct)
  case base
  show ?case by (rule later_refl)
next
  case (step u)
  have "timed hash (c u) (run u) (run (Suc u))"
    using assms(1) by (simp add: clock_run_def)
  then have "later (fst (run u)) (fst (run (Suc u)))"
    using timed_behind [OF _ clock_run_heap [OF assms(1)] clock_run_behind [OF assms(1)]] by blast
  with step.IH show ?case by (rule later_trans)
qed

subsection \<open>The iterator\<close>

text \<open>
  Moment \<open>j\<close> of the scan is moment \<open>tick j\<close> of the run: the moments come in order, and any number of accesses of other threads
  (none, too) may lie between two of them.
\<close>

abbreviation seen :: "(nat \<Rightarrow> 'id memory \<times> 'id threads) \<Rightarrow> (nat \<Rightarrow> nat) \<Rightarrow> nat \<Rightarrow> nat \<Rightarrow> 'id time_entry" where
  "seen run tick j \<equiv> m_nodes (fst (run (tick j)))"

text \<open>
  What the skip list promises of an iteration: the keys come in order, each entry
  is in the list when it is handed out, and a key that is there all the time is not missed.
\<close>

definition iterates_live ::
    "(nat \<Rightarrow> 'id memory \<times> 'id threads) \<Rightarrow> (nat \<Rightarrow> nat) \<Rightarrow> (route_key \<times> nat) list \<Rightarrow> bool" where
  "iterates_live run tick es \<longleftrightarrow> mono tick \<and> sorted_wrt (<) (map fst es) \<and>
     (\<forall>i < length es. m_index (fst (run (tick (4 * i)))) (fst (es ! i)) = Some (snd (es ! i))) \<and>
     (\<forall>key n. (\<forall>u. tick 0 \<le> u \<and> u \<le> tick (4 * length es) \<longrightarrow> m_index (fst (run u)) key = Some n) \<longrightarrow> (key, n) \<in> set es)"

lemma iterates_live_sorted:
  "iterates_live run tick es \<Longrightarrow> j < i \<Longrightarrow> i < length es \<Longrightarrow> fst (es ! j) < fst (es ! i)"
  unfolding iterates_live_def using sorted_wrt_nth_less [of "(<)" "map fst es" j i] by simp

subsection \<open>What the report is worth\<close>

lemma kind_later:
  assumes "sint (te_read e) \<le> sint (te_read e')" and "sint (te_write e) \<le> sint (te_write e')"
    and "idle_kind idl now e = None"
  shows "idle_kind idl now e' = None"
  using assms by (auto simp: idle_kind_def Let_def split: if_splits)

lemma kind_both_earlier:
  assumes "sint (te_read e') \<le> sint (te_read e)" and "sint (te_write e') \<le> sint (te_write e)"
    and "idle_kind idl now e = Some IdleBoth"
  shows "idle_kind idl now e' = Some IdleBoth"
  using assms by (auto simp: idle_kind_def Let_def split: if_splits)

lemma kind_write_later_read:
  assumes "sint (te_read e) \<le> sint (te_read e')" and "te_write e' = te_write e"
    and "idle_kind idl now e = Some IdleWrite"
  shows "idle_kind idl now e' = Some IdleWrite"
  using assms by (auto simp: idle_kind_def Let_def split: if_splits)

lemma kind_write_earlier:
  assumes "sint (te_write e') \<le> sint (te_write e)" and "idle_kind idl now e = Some IdleWrite"
  shows "idle_kind idl now e' \<in> {Some IdleWrite, Some IdleBoth}"
  using assms by (auto simp: idle_kind_def Let_def split: if_splits)

lemma kind_read_earlier:
  assumes "sint (te_read e') \<le> sint (te_read e)" and "idle_kind idl now e = Some IdleRead"
  shows "idle_kind idl now e' \<in> {Some IdleRead, Some IdleBoth}"
  using assms by (auto simp: idle_kind_def Let_def split: if_splits)

text \<open>The clocks that the scan sees of an entry that was handed out at its moment \<open>t\<close>, and those of the entry before and after.\<close>

lemma glimpse_clocks:
  assumes "clock_run hash c run" and "mono tick" and "m_index (fst (run (tick t))) key = Some n"
  shows "sint (te_read (glimpse (seen run tick) t n)) \<le> sint (te_read (seen run tick (t + 2) n))"
    and "sint (te_read (seen run tick t n)) \<le> sint (te_read (glimpse (seen run tick) t n))"
    and "sint (te_write (seen run tick t n)) \<le> sint (te_write (glimpse (seen run tick) t n))"
proof -
  have n: "n < m_fresh (fst (run (tick t)))"
    using clock_run_heap [OF assms(1), of "tick t"] assms(3) by (auto simp: heap_ok_def)
  have later: "later (fst (run (tick j))) (fst (run (tick j')))" if "j \<le> j'" for j j'
    by (rule clock_run_later [OF assms(1) monoD [OF assms(2) that]])
  have "n < m_fresh (fst (run (tick (t + 1))))"
    using n later [of t "t + 1"] by (simp add: later_def)
  with n later [of t "t + 1"] later [of "t + 1" "t + 2"] later [of t "t + 2"]
  show "sint (te_read (glimpse (seen run tick) t n)) \<le> sint (te_read (seen run tick (t + 2) n))"
    and "sint (te_read (seen run tick t n)) \<le> sint (te_read (glimpse (seen run tick) t n))"
    and "sint (te_write (seen run tick t n)) \<le> sint (te_write (glimpse (seen run tick) t n))"
    by (simp_all add: later_def)
qed

text \<open>
  C14: What \<^verbatim>\<open>next_idle\<close> reports while the other threads go on, with any number of their accesses between any two of its own,
  was true: when the scan was handed the entry, the key was in the table and the entry idle. A report "both" was
  exactly the kind of the entry then; a report "write" was exactly its kind when its write clock was looked at; an entry
  reported as "read" or "write" was at the beginning idle in that direction, and perhaps in both. Each smaller key that the scan passed was not
  idle when it was passed. The reported ids are those behind the entry at the last of its moments.
\<close>

theorem live_report_was_true:
  assumes run: "clock_run hash c run" and iter: "iterates_live run tick es" and fits: "limits_fit idl now"
    and report: "live_scan_at idl now (seen run tick) 0 es i64_max = Inl (st, ids, key)"
  shows "\<exists>i n. i < length es \<and> es ! i = (key, n) \<and> m_index (fst (run (tick (4 * i)))) key = Some n \<and>
    ids = te_ids (seen run tick (4 * i + 3) n) \<and>
    (case st of
       IdleBoth \<Rightarrow> idle_kind idl now (seen run tick (4 * i) n) = Some IdleBoth
     | IdleWrite \<Rightarrow> idle_kind idl now (seen run tick (4 * i) n) \<in> {Some IdleWrite, Some IdleBoth} \<and>
         idle_kind idl now (seen run tick (4 * i + 2) n) = Some IdleWrite
     | IdleRead \<Rightarrow> idle_kind idl now (seen run tick (4 * i) n) \<in> {Some IdleRead, Some IdleBoth}) \<and>
    (\<forall>j < i. idle_kind idl now (seen run tick (4 * j + 2) (snd (es ! j))) = None)"
proof -
  let ?look = "seen run tick"
  let ?gs = "glimpses ?look 0 es"
  have tick: "mono tick" using iter by (simp add: iterates_live_def)
  obtain gs1 e gs2 where gs: "?gs = gs1 @ (key, e) # gs2" "idle_kind idl now e = Some st" "ids = te_ids e"
    and before: "\<forall>(k, e) \<in> set gs1. idle_kind idl now e = None"
    by (rule scan_cases [OF fits, of ?gs i64_max]) (use report in \<open>auto simp: live_scan_glimpses\<close>)
  let ?i = "length gs1"
  let ?n = "snd (es ! ?i)"
  note len = glimpses_split(1) [OF gs(1)] and key = glimpses_split(2) [OF gs(1)] and e = glimpses_split(3) [OF gs(1)]
  have at: "m_index (fst (run (tick (4 * j)))) (fst (es ! j)) = Some (snd (es ! j))" if "j < length es" for j
    using iter that by (simp add: iterates_live_def)
  note clocks = glimpse_clocks [OF run tick at]
  have "idle_kind idl now (?look (4 * j + 2) (snd (es ! j))) = None" if "j < ?i" for j
  proof -
    have "?gs ! j \<in> set gs1" using gs(1) that by (simp add: nth_append)
    moreover have j: "j < length es" using that len by simp
    ultimately have "idle_kind idl now (glimpse ?look (4 * j) (snd (es ! j))) = None"
      using before by (auto simp: glimpses_nth)
    then show ?thesis
      by (rule kind_later [rotated 2]) (use clocks(1) [OF j] in simp_all)
  qed
  moreover have "case st of
       IdleBoth \<Rightarrow> idle_kind idl now (?look (4 * ?i) ?n) = Some IdleBoth
     | IdleWrite \<Rightarrow> idle_kind idl now (?look (4 * ?i) ?n) \<in> {Some IdleWrite, Some IdleBoth} \<and>
         idle_kind idl now (?look (4 * ?i + 2) ?n) = Some IdleWrite
     | IdleRead \<Rightarrow> idle_kind idl now (?look (4 * ?i) ?n) \<in> {Some IdleRead, Some IdleBoth}"
    using gs(2) clocks [OF len] e
      kind_both_earlier [of "?look (4 * ?i) ?n" e idl now] kind_write_later_read [of e "?look (4 * ?i + 2) ?n" idl now]
      kind_write_earlier [of "?look (4 * ?i) ?n" e idl now] kind_read_earlier [of "?look (4 * ?i) ?n" e idl now]
    by (cases st) simp_all
  ultimately show ?thesis
    using len key at [OF len] gs(3) e by (intro exI [of _ ?i] exI [of _ ?n]) (simp add: prod_eq_iff)
qed

text \<open>
  C19: What stays idle is found: when a key stays in the table with its entry idle from the beginning of the scan
  to its end, the scan reports that key or a smaller one, whatever the other threads do and however many of their
  accesses come between any two of the scan.
\<close>

theorem live_scan_finds:
  assumes run: "clock_run hash c run" and iter: "iterates_live run tick es" and fits: "limits_fit idl now"
    and steady: "\<forall>u. tick 0 \<le> u \<and> u \<le> tick (4 * length es) \<longrightarrow>
      m_index (fst (run u)) key = Some n \<and> idle_kind idl now (m_nodes (fst (run u)) n) \<noteq> None"
  shows "\<exists>st ids key'. key' \<le> key \<and> live_scan_at idl now (seen run tick) 0 es i64_max = Inl (st, ids, key')"
proof -
  let ?look = "seen run tick"
  let ?gs = "glimpses ?look 0 es"
  have tick: "mono tick" using iter by (simp add: iterates_live_def)
  have "(key, n) \<in> set es" using iter steady by (simp add: iterates_live_def)
  then obtain i where i: "i < length es" "es ! i = (key, n)" by (auto simp: in_set_conv_nth)
  let ?g = "glimpse ?look (4 * i) n"
  have inside: "tick 0 \<le> tick (4 * i + d) \<and> tick (4 * i + d) \<le> tick (4 * length es)" if "d \<le> 3" for d
    using i(1) that by (auto intro!: monoD [OF tick])
  have "m_index (fst (run (tick (4 * i)))) key = Some n" using steady inside [of 0] by simp
  note clocks = glimpse_clocks [OF run tick this]
  have "idle_kind idl now (?look (4 * i + 2) n) \<noteq> None"
  proof -
    have "tick 0 \<le> tick (4 * i + 2) \<and> tick (4 * i + 2) \<le> tick (4 * length es)" by (rule inside) simp
    with steady show ?thesis by blast
  qed
  then have idle: "idle_kind idl now ?g \<noteq> None"
    using kind_later [of ?g "?look (4 * i + 2) n" idl now] clocks(1) by force
  show ?thesis
  proof (cases rule: scan_cases [OF fits, of ?gs i64_max])
    case found: (1 gs1 key' e gs2 st)
    have "?gs ! i = (key, ?g)" using i by (simp add: glimpses_nth)
    have "length gs1 \<le> i"
    proof (rule ccontr)
      assume "\<not> length gs1 \<le> i"
      then have "(key, ?g) \<in> set gs1"
        using found(1) \<open>?gs ! i = (key, ?g)\<close> by (metis not_le nth_append nth_mem)
      with found(3) idle show False by auto
    qed
    moreover note glimpses_split(1,2) [OF found(1)]
    moreover have "fst (es ! j) < fst (es ! i)" if "j < i" for j
      using iterates_live_sorted [OF iter that] i by simp
    ultimately have "key' \<le> key"
      using i(2) by (cases "length gs1 = i") (auto simp: order.strict_implies_order)
    with found(4) show ?thesis by (simp add: live_scan_glimpses)
  next
    case none: (2 m)
    have "?gs ! i \<in> set ?gs" using i by (simp add: nth_mem)
    then have "(key, ?g) \<in> set ?gs" using i by (simp add: glimpses_nth)
    with none(1) idle show ?thesis by auto
  qed
qed

text \<open>
  When the entries do not change during the scan it is the scan of one state of the table.
\<close>

theorem live_scan_frozen:
  assumes "\<And>u. t \<le> u \<Longrightarrow> look u = look t"
  shows "live_scan idl lr lw look t es least = idle_scan idl lr lw (map (\<lambda>(k, n). (k, look t n)) es) least"
proof -
  have "glimpses look t es = map (\<lambda>(k, n). (k, look t n)) es"
  proof (rule nth_equalityI)
    fix i assume "i < length (glimpses look t es)"
    then show "glimpses look t es ! i = map (\<lambda>(k, n). (k, look t n)) es ! i"
      using assms [of "t + 4 * i + 1"] assms [of "t + 4 * i + 2"] assms [of "t + 4 * i + 3"]
      by (simp add: glimpses_nth glimpse_def case_prod_beta)
  qed simp
  then show ?thesis by (simp add: live_scan_glimpses)
qed

subsection \<open>Runs from schedules\<close>

text \<open>A schedule whose times do not go back is a run.\<close>

lemma scheduled_timed:
  assumes "scheduled hash [(u, now, x)] s = Some s'"
  shows "timed hash now s s'"
proof -
  obtain m ps where s: "s = (m, ps)" by (cases s)
  show ?thesis
  proof (cases x)
    case None
    with assms s obtain m' p' where "micro hash u now m (ps u) = Some (m', p')" "s' = (m', ps(u := p'))"
      using scheduled_access by blast
    with timed.access [where ps = ps and t = u, OF this(1)] s show ?thesis by simp
  next
    case (Some p)
    with assms s scheduled_begin [of hash u now p m ps s'] show ?thesis
      by (auto intro: timed.elsewhere)
  qed
qed

lemma clock_run_scheduled:
  assumes "scheduled hash es (memory_new, \<lambda>_. Idling) = Some s" and "es \<noteq> []"
    and "sorted (map (\<lambda>e. sint (fst (snd e))) es)"
  shows "clock_run hash (\<lambda>t. fst (snd (es ! min t (length es - 1))))
    (\<lambda>t. the (scheduled hash (take t es) (memory_new, \<lambda>_. Idling)))"
  unfolding clock_run_def
proof (intro conjI allI)
  let ?start = "(memory_new, \<lambda>_. Idling)"
  show "interleaving_start (the (scheduled hash (take 0 es) ?start))"
    by (simp add: interleaving_start_def)
  fix t
  show "sint (fst (snd (es ! min t (length es - 1)))) \<le> sint (fst (snd (es ! min (t + 1) (length es - 1))))"
    using sorted_nth_mono [OF assms(3), of "min t (length es - 1)" "min (t + 1) (length es - 1)"] assms(2)
    by (simp add: nth_map less_le_trans min_less_iff_disj)
  show "timed hash (fst (snd (es ! min t (length es - 1)))) (the (scheduled hash (take t es) ?start))
    (the (scheduled hash (take (t + 1) es) ?start))"
  proof (cases "t < length es")
    case True
    have "es = take t es @ [es ! t] @ drop (Suc t) es" using id_take_nth_drop [OF True] by simp
    then have "Option.bind (scheduled hash (take t es) ?start) (scheduled hash ([es ! t] @ drop (Suc t) es)) = Some s"
      using assms(1) scheduled_append by metis
    then obtain u where u: "scheduled hash (take t es) ?start = Some u" "scheduled hash ([es ! t] @ drop (Suc t) es) u = Some s"
      unfolding Option.bind_eq_Some_conv by blast
    obtain v where v: "scheduled hash [es ! t] u = Some v"
      using u(2) unfolding scheduled_append Option.bind_eq_Some_conv by blast
    have "scheduled hash (take (t + 1) es) ?start = Some v"
      using True u(1) v by (simp add: take_Suc_conv_app_nth scheduled_append del: scheduled.simps)
    with u(1) v True scheduled_timed [of hash "fst (es ! t)" "fst (snd (es ! t))" "snd (snd (es ! t))" u v] show ?thesis by simp
  next
    case False
    then show ?thesis by (simp add: timed.rest)
  qed
qed

subsection \<open>A report overtaken by a datagram\<close>

text \<open>
  A peer gets a route at time 0; at time 100 the scan with a limit of 30 for reading looks at its read clock, then a
  datagram of the peer sets that clock, with two accesses. In \<open>quiet_run\<close> the datagram does not come.
\<close>

definition overtaken :: "(nat \<times> i64 \<times> nat position option) list" where
  "overtaken = (0, 0, Some (Queue (AddInsert 7 route_before))) # replicate 4 (0, 0, None) @
     [(1, 0, Some (GetTouch False (route_key route_before) Idling)), (1, 100, None), (1, 100, None)]"

definition overtaken_run :: "nat \<Rightarrow> nat memory \<times> nat threads" where
  "overtaken_run t = the (scheduled (\<lambda>i. i) (take t overtaken) (memory_new, \<lambda>_. Idling))"

definition quiet_run :: "nat \<Rightarrow> nat memory \<times> nat threads" where
  "quiet_run t = the (scheduled (\<lambda>i. i) (take t (take 5 overtaken)) (memory_new, \<lambda>_. Idling))"

text \<open>The moments of the scan: the first two before the datagram, the others after it.\<close>

definition overtaken_tick :: "nat \<Rightarrow> nat" where
  "overtaken_tick j = (if j \<le> 1 then 6 else 8)"

lemmas overtaken_simps = overtaken_def memory_new_def shard_kept_def numeral_eq_Suc

lemma overtaken_tick_mono: "mono overtaken_tick"
  by (simp add: mono_def overtaken_tick_def)

lemma overtaken_clock_run: "\<exists>c. clock_run (\<lambda>i. i) c overtaken_run"
proof -
  have "\<exists>s. scheduled (\<lambda>i. i) overtaken (memory_new, \<lambda>_. Idling) = Some s"
    by (simp add: overtaken_simps)
  then obtain s where "scheduled (\<lambda>i. i) overtaken (memory_new, \<lambda>_. Idling) = Some s" ..
  from clock_run_scheduled [OF this] show ?thesis
    by (simp add: overtaken_def numeral_eq_Suc overtaken_run_def [abs_def]) (rule exI)
qed

lemma quiet_clock_run: "\<exists>c. clock_run (\<lambda>i. i) c quiet_run"
proof -
  have "\<exists>s. scheduled (\<lambda>i. i) (take 5 overtaken) (memory_new, \<lambda>_. Idling) = Some s"
    by (simp add: overtaken_simps)
  then obtain s where "scheduled (\<lambda>i. i) (take 5 overtaken) (memory_new, \<lambda>_. Idling) = Some s" ..
  from clock_run_scheduled [OF this] show ?thesis
    by (simp add: overtaken_def numeral_eq_Suc quiet_run_def [abs_def]) (rule exI)
qed

lemma overtaken_before:
  "m_index (fst (overtaken_run 6)) = [route_key route_before \<mapsto> 0]"
  "m_nodes (fst (overtaken_run 6)) 0 = \<lparr>te_ids = [7], te_read = 0, te_write = 0\<rparr>"
  by (simp_all add: overtaken_run_def overtaken_simps)

lemma overtaken_after:
  "m_nodes (fst (overtaken_run 8)) 0 = \<lparr>te_ids = [7], te_read = 100, te_write = 0\<rparr>"
  by (simp add: overtaken_run_def overtaken_simps Let_def)

lemma quiet_after:
  assumes "5 \<le> u"
  shows "m_index (fst (quiet_run u)) = [route_key route_before \<mapsto> 0]"
    and "m_nodes (fst (quiet_run u)) 0 = \<lparr>te_ids = [7], te_read = 0, te_write = 0\<rparr>"
  using assms by (simp_all add: quiet_run_def overtaken_simps)

lemma iterates_live_single:
  assumes "mono tick" and "m_index (fst (run (tick 0))) = [k \<mapsto> n]"
  shows "iterates_live run tick [(k, n)]"
  unfolding iterates_live_def
proof (intro conjI allI impI)
  fix key n'
  assume "\<forall>u. tick 0 \<le> u \<and> u \<le> tick (4 * length [(k, n)]) \<longrightarrow> m_index (fst (run u)) key = Some n'"
  then have "m_index (fst (run (tick 0))) key = Some n'" using monoD [OF assms(1)] by simp
  with assms(2) show "(key, n') \<in> set [(k, n)]" by (simp split: if_splits)
qed (use assms in simp_all)

lemma overtaken_iterates: "iterates_live overtaken_run overtaken_tick [(route_key route_before, 0)]"
  by (rule iterates_live_single [OF overtaken_tick_mono]) (simp add: overtaken_before overtaken_tick_def)

lemma quiet_iterates: "iterates_live quiet_run (\<lambda>j. 5 + j) [(route_key route_before, 0)]"
  by (rule iterates_live_single) (simp_all add: quiet_after mono_def)

lemma overtaken_limits: "limits_fit (idle_new 30 0) 100"
  by (simp add: limits_fit_def idle_new_def i64_fits_def)

lemma overtaken_scan:
  "live_scan_at (idle_new 30 0) 100 (seen overtaken_run overtaken_tick) 0 [(route_key route_before, 0)] i64_max =
    Inl (IdleRead, [7], route_key route_before)"
  using overtaken_before(2) overtaken_after by (simp add: idle_new_def word_sless_alt overtaken_tick_def)

text \<open>
  A report can be out of date when \<^verbatim>\<open>next_idle\<close> returns it: the datagram of the peer that came after its clock was
  looked at does not take the report back, and when it is returned the entry is not idle at all.
\<close>

theorem report_overtaken:
  "\<exists>c. clock_run (\<lambda>i. i) c overtaken_run \<and> iterates_live overtaken_run overtaken_tick [(route_key route_before, 0)] \<and>
    live_scan_at (idle_new 30 0) 100 (seen overtaken_run overtaken_tick) 0 [(route_key route_before, 0)] i64_max =
      Inl (IdleRead, [7], route_key route_before) \<and>
    idle_kind (idle_new 30 0) 100 (seen overtaken_run overtaken_tick 3 0) = None"
  using overtaken_clock_run overtaken_iterates overtaken_scan overtaken_after
  by (simp add: idle_kind_def idle_new_def overtaken_tick_def)

theorem live_report_was_true_witness:
  "\<exists>i n. m_index (fst (overtaken_run (overtaken_tick (4 * i)))) (route_key route_before) = Some n \<and>
    idle_kind (idle_new 30 0) 100 (seen overtaken_run overtaken_tick (4 * i) n) \<in> {Some IdleRead, Some IdleBoth}"
proof -
  obtain c where "clock_run (\<lambda>i. i) c overtaken_run" using overtaken_clock_run ..
  from live_report_was_true [OF this overtaken_iterates overtaken_limits overtaken_scan] show ?thesis
    by (simp only: idle_status.case) blast
qed

theorem live_scan_finds_witness:
  "\<exists>st ids key. key \<le> route_key route_before \<and>
    live_scan_at (idle_new 30 0) 100 (seen quiet_run (\<lambda>j. 5 + j)) 0 [(route_key route_before, 0)] i64_max =
      Inl (st, ids, key)"
proof -
  obtain c where run: "clock_run (\<lambda>i. i) c quiet_run" using quiet_clock_run ..
  have "\<forall>u. 5 + 0 \<le> u \<and> u \<le> 5 + 4 * length [(route_key route_before, 0 :: nat)] \<longrightarrow>
      m_index (fst (quiet_run u)) (route_key route_before) = Some 0 \<and>
      idle_kind (idle_new 30 0) 100 (m_nodes (fst (quiet_run u)) 0) \<noteq> None"
    by (simp add: quiet_after idle_kind_def idle_new_def)
  from live_scan_finds [OF run quiet_iterates overtaken_limits this] show ?thesis .
qed

theorem live_scan_frozen_witness:
  "live_scan (idle_new 30 0) 70 100 (\<lambda>_ _. \<lparr>te_ids = [7 :: nat], te_read = 50, te_write = 0\<rparr>) 0 [(RouteKey 0 (SockV4 1 1), 0)] 0 =
   Inl (IdleRead, [7], RouteKey 0 (SockV4 1 1))"
  by (subst live_scan_frozen) (simp_all add: idle_new_def word_sless_alt)

end
