(* ===== verification/Messages.thy ===== *)
theory Messages
  imports Net_Types
begin

unbundle bit_operations_syntax

section \<open>The messages of the two example programs\<close>

text \<open>
  \<^verbatim>\<open>examples/peer.rs\<close> and \<^verbatim>\<open>examples/server.rs\<close> talk through datagrams that hold peer ids as four
  bytes, highest first, and addresses as text. This theory holds the encodings: \<^verbatim>\<open>bytes_to_u32\<close> of both
  programs, what they use of Rust's standard library (\<^verbatim>\<open>u32::to_be_bytes\<close>, \<^verbatim>\<open>Display\<close> of integers and of
  \<^verbatim>\<open>SocketAddrV4\<close>, \<^verbatim>\<open>FromStr\<close> of \<^verbatim>\<open>SocketAddrV4\<close>), and that reading gives back what was written. Text
  is kept as its bytes.
\<close>

subsection \<open>Encodings\<close>

text \<open>
  What the two programs rely on when one writes and the other reads: the reader gets back what was written.
  With a \<open>strict\<close> encoding nothing else is accepted, and a field of fixed size is found behind any head.
\<close>

locale coding =
  fixes enc :: "'a \<Rightarrow> bytes"
    and dec :: "bytes \<Rightarrow> 'a option"
  assumes dec_enc: "dec (enc x) = Some x"
begin

lemma enc_inject: "enc x = enc y \<longleftrightarrow> x = y"
  by (metis dec_enc option.inject)

end

locale strict_coding = coding +
  fixes size :: nat
  assumes dec_Some: "dec b = Some x \<Longrightarrow> b = enc x"
    and length_enc: "length (enc x) = size"
begin

lemma dec_Some_iff: "dec b = Some x \<longleftrightarrow> b = enc x"
  using dec_Some dec_enc by auto

lemma dec_field: "dec (take size (drop (length pre) (pre @ enc x @ rest))) = Some x"
  by (simp add: length_enc dec_enc)

end

subsection \<open>Numbers as four bytes\<close>

definition u32_to_be :: "u32 \<Rightarrow> bytes" where
  "u32_to_be x = [ucast (drop_bit 24 x), ucast (drop_bit 16 x), ucast (drop_bit 8 x), ucast x]"

definition u32_from_be :: "bytes \<Rightarrow> u32" where
  "u32_from_be bs = foldl (\<lambda>acc b. push_bit 8 acc OR ucast b) 0 bs"

definition bytes_to_u32 :: "bytes \<Rightarrow> u32 option" where
  "bytes_to_u32 b = (if length b \<noteq> 4 then None else Some (u32_from_be b))"

lemma length_u32_to_be [simp]: "length (u32_to_be x) = 4"
  by (simp add: u32_to_be_def)

lemma u32_from_to_be: "u32_from_be (u32_to_be x) = x"
proof (rule bit_word_eqI)
  fix n
  assume "n < LENGTH(32)"
  then consider "n < 8" | "8 \<le> n" "n < 16" | "16 \<le> n" "n < 24" | "24 \<le> n" "n < 32" by force
  then show "bit (u32_from_be (u32_to_be x)) n \<longleftrightarrow> bit x n"
    by cases (auto simp: u32_from_be_def u32_to_be_def bit_simps)
qed

lemma u8_high_bits: "\<not> bit (b :: u8) (8 + n)" "\<not> bit (b :: u8) (16 + n)" "\<not> bit (b :: u8) (24 + n)"
  by (auto dest: bit_imp_le_length)

lemma u32_to_from_be_list: "u32_to_be (u32_from_be [a, b, c, d]) = [a, b, c, d]"
  by (auto simp: u32_from_be_def u32_to_be_def bit_simps u8_high_bits intro!: bit_word_eqI)

lemma bytes_to_u32_be [simp]: "bytes_to_u32 (u32_to_be x) = Some x"
  by (simp add: bytes_to_u32_def u32_from_to_be)

lemma list_of_four: "length b = 4 \<Longrightarrow> b = [b ! 0, b ! 1, b ! 2, b ! 3]"
  by (simp add: list_eq_iff_nth_eq less_Suc_eq numeral_eq_Suc)

lemma bytes_to_u32_Some_iff: "bytes_to_u32 b = Some x \<longleftrightarrow> b = u32_to_be x"
proof
  assume "bytes_to_u32 b = Some x"
  then have "length b = 4" and "x = u32_from_be b"
    by (auto simp: bytes_to_u32_def split: if_splits)
  then show "b = u32_to_be x"
    using u32_to_from_be_list [of "b ! 0" "b ! 1" "b ! 2" "b ! 3"] list_of_four [of b] by simp
qed simp

lemma bytes_to_u32_None_iff: "bytes_to_u32 b = None \<longleftrightarrow> length b \<noteq> 4"
  by (simp add: bytes_to_u32_def)

interpretation be4: strict_coding u32_to_be bytes_to_u32 4
  by unfold_locales (simp_all add: bytes_to_u32_Some_iff)

lemma u32_to_be_inject [simp]: "u32_to_be x = u32_to_be y \<longleftrightarrow> x = y"
  by (rule be4.enc_inject)

subsection \<open>Decimal text\<close>

text \<open>\<^verbatim>\<open>Display\<close> of an unsigned integer; \<open>ascii\<close> gives the bytes of a string literal.\<close>

definition ascii :: "string \<Rightarrow> bytes" where
  "ascii s = map of_char s"

fun show_nat :: "nat \<Rightarrow> bytes" where
  "show_nat n =
     (if n < 10 then [48 + of_nat n] else show_nat (n div 10) @ [48 + of_nat (n mod 10)])"

declare show_nat.simps [simp del]

definition is_digit :: "u8 \<Rightarrow> bool" where
  "is_digit b \<longleftrightarrow> 48 \<le> b \<and> b \<le> 57"

definition digits_value :: "bytes \<Rightarrow> nat" where
  "digits_value ds = foldl (\<lambda>n b. n * 10 + (unat b - 48)) 0 ds"

text \<open>
  \<^verbatim>\<open>Parser::read_number\<close> of \<^verbatim>\<open>core::net\<close> in base ten: all the digits that follow, at least one, at most
  \<open>max_digits\<close>, no superfluous leading zero unless allowed, and no value above \<open>bound\<close> (the largest
  value of the target type).
\<close>

definition read_number :: "nat option \<Rightarrow> bool \<Rightarrow> nat \<Rightarrow> bytes \<Rightarrow> (nat \<times> bytes) option" where
  "read_number max_digits allow_zero_prefix bound s =
     (let ds = takeWhile is_digit s in
      if ds = [] \<or> (\<exists>m \<in> set_option max_digits. m < length ds) \<or>
         (\<not> allow_zero_prefix \<and> hd ds = 48 \<and> 1 < length ds) \<or> bound < digits_value ds
      then None else Some (digits_value ds, dropWhile is_digit s))"

fun read_given_char :: "u8 \<Rightarrow> bytes \<Rightarrow> bytes option" where
  "read_given_char c [] = None"
| "read_given_char c (x # xs) = (if x = c then Some xs else None)"

subsection \<open>Addresses as text\<close>

datatype socket_addr_v4 = SocketAddrV4 (v4_ip: u32) (v4_port: u16)

definition show_ipv4 :: "u32 \<Rightarrow> bytes" where
  "show_ipv4 ip =
     (let o4 = map (\<lambda>b. show_nat (unat b)) (u32_to_be ip)
      in o4 ! 0 @ [46] @ o4 ! 1 @ [46] @ o4 ! 2 @ [46] @ o4 ! 3)"

definition show_addr_v4 :: "socket_addr_v4 \<Rightarrow> bytes" where
  "show_addr_v4 a = show_ipv4 (v4_ip a) @ [58] @ show_nat (unat (v4_port a))"

text \<open>
  \<^verbatim>\<open>SocketAddrV4::from_str\<close>: four octets with dots, a colon, a port, and nothing behind it. A byte that
  is neither a digit nor a separator at its place makes it fail; so \<^verbatim>\<open>from_utf8_lossy\<close>, which leaves
  ASCII bytes as they are and turns every other sequence into characters outside ASCII, does not
  change the result.
\<close>

definition read_octet :: "bytes \<Rightarrow> (nat \<times> bytes) option" where
  "read_octet = read_number (Some 3) False 255"

definition read_ipv4 :: "bytes \<Rightarrow> (u32 \<times> bytes) option" where
  "read_ipv4 s =
     Option.bind (read_octet s) (\<lambda>(a, s).
     Option.bind (Option.bind (read_given_char 46 s) read_octet) (\<lambda>(b, s).
     Option.bind (Option.bind (read_given_char 46 s) read_octet) (\<lambda>(c, s).
     Option.bind (Option.bind (read_given_char 46 s) read_octet) (\<lambda>(d, s).
       Some (u32_from_be [of_nat a, of_nat b, of_nat c, of_nat d], s)))))"

definition parse_addr_v4 :: "bytes \<Rightarrow> socket_addr_v4 option" where
  "parse_addr_v4 s =
     Option.bind (read_ipv4 s) (\<lambda>(ip, s).
     Option.bind (Option.bind (read_given_char 58 s) (read_number None True 65535)) (\<lambda>(port, s).
       if s = [] then Some (SocketAddrV4 ip (of_nat port)) else None))"

subsection \<open>Reading back what was written\<close>

lemma unat_digit: "d < 10 \<Longrightarrow> unat (48 + of_nat d :: u8) = 48 + d"
  by (subst unat_add_lem [THEN iffD1]) (simp_all add: unat_of_nat)

lemma digit_byte: "d < 10 \<Longrightarrow> is_digit (48 + of_nat d)"
  by (simp add: is_digit_def word_le_nat_alt unat_digit)

lemma show_nat_digits: "\<forall>b \<in> set (show_nat n). is_digit b"
  by (induction n rule: show_nat.induct) (subst show_nat.simps, auto simp: digit_byte)

lemma show_nat_nonempty [simp]: "show_nat n \<noteq> []"
  by (subst show_nat.simps) simp

lemma digits_value_snoc: "digits_value (ds @ [b]) = digits_value ds * 10 + (unat b - 48)"
  by (simp add: digits_value_def)

lemma digits_value_show [simp]: "digits_value (show_nat n) = n"
proof (induction n rule: show_nat.induct)
  case (1 n)
  then show ?case
    by (subst show_nat.simps)
      (auto simp: digits_value_snoc unat_digit, simp add: digits_value_def unat_digit)
qed

interpretation decimal: coding show_nat "\<lambda>ds. Some (digits_value ds)"
  by unfold_locales simp

lemma show_nat_inject: "show_nat m = show_nat n \<longleftrightarrow> m = n"
  by (rule decimal.enc_inject)

lemma hd_show_nat: "n \<noteq> 0 \<Longrightarrow> hd (show_nat n) \<noteq> 48"
proof (induction n rule: show_nat.induct)
  case (1 n)
  show ?case
  proof (cases "n < 10")
    case True
    with 1 show ?thesis
      using unat_digit [of n] by (subst show_nat.simps) auto
  next
    case False
    with 1 show ?thesis by (subst show_nat.simps) simp
  qed
qed

lemma length_show_nat: "n < 10 ^ Suc k \<Longrightarrow> length (show_nat n) \<le> Suc k"
proof (induction k arbitrary: n)
  case 0
  then show ?case by (subst show_nat.simps) simp
next
  case (Suc k)
  have "n div 10 < 10 ^ Suc k" using Suc.prems by (simp add: less_mult_imp_div_less)
  from Suc.IH [OF this] show ?case by (subst show_nat.simps) simp
qed

lemma show_nat_zero: "show_nat 0 = [48]"
  by (subst show_nat.simps) simp

definition stops :: "bytes \<Rightarrow> bool" where
  "stops s \<longleftrightarrow> s = [] \<or> \<not> is_digit (hd s)"

lemma take_digits: "stops s \<Longrightarrow> takeWhile is_digit (show_nat n @ s) = show_nat n"
  using show_nat_digits [of n] by (cases s) (auto simp: stops_def takeWhile_append)

lemma drop_digits: "stops s \<Longrightarrow> dropWhile is_digit (show_nat n @ s) = s"
  using show_nat_digits [of n] by (cases s) (auto simp: stops_def dropWhile_append)

lemma read_number_show:
  assumes "stops s" and "n \<le> bound" and "max_digits = None \<or> n < 1000 \<and> max_digits = Some 3"
  shows "read_number max_digits z bound (show_nat n @ s) = Some (n, s)"
proof -
  have len: "length (show_nat n) \<le> 3" if "n < 1000"
    using length_show_nat [of n 2] that by (simp add: numeral_eq_Suc)
  have "\<not> (hd (show_nat n) = 48 \<and> 1 < length (show_nat n))"
    using hd_show_nat [of n] show_nat_zero by (cases "n = 0") auto
  with assms len show ?thesis
    by (auto simp: read_number_def take_digits drop_digits Let_def)
qed

lemma stops_separator: "stops (46 # s)" "stops (58 # s)" "stops []"
  by (simp_all add: stops_def is_digit_def)

lemma read_octet_show: "stops s \<Longrightarrow> read_octet (show_nat (unat (b :: u8)) @ s) = Some (unat b, s)"
  using unsigned_less [of b, where ?'a = nat] by (simp add: read_octet_def read_number_show)

lemma read_ipv4_show:
  assumes "stops s"
  shows "read_ipv4 (show_ipv4 ip @ s) = Some (ip, s)"
proof -
  have "u32_from_be (u32_to_be ip) = ip" by (rule u32_from_to_be)
  with assms show ?thesis
    by (simp add: show_ipv4_def read_ipv4_def u32_to_be_def read_octet_show stops_separator Let_def)
qed

lemma parse_show_addr_v4: "parse_addr_v4 (show_addr_v4 a) = Some a"
proof -
  have "read_number None True 65535 (show_nat (unat (v4_port a))) = Some (unat (v4_port a), [])"
    using read_number_show [of "[]" "unat (v4_port a)" 65535 None True] unat_u16_bound [of "v4_port a"]
    by (simp add: stops_separator)
  then show ?thesis
    by (cases a) (simp add: parse_addr_v4_def show_addr_v4_def read_ipv4_show stops_separator)
qed

interpretation addr_v4: coding show_addr_v4 parse_addr_v4
  by unfold_locales (rule parse_show_addr_v4)

text \<open>An accepted text consists of digits, dots and colons; in particular it is ASCII.\<close>

lemma set_dropWhile_rest: "set s \<subseteq> Collect P \<union> set (dropWhile P s)"
  by (induction s) auto

lemma read_number_bytes:
  "read_number m z bound s = Some (n, r) \<Longrightarrow> set s \<subseteq> Collect is_digit \<union> set r"
  using set_dropWhile_rest [of s is_digit]
  by (auto simp: read_number_def Let_def simp del: set_dropWhileD split: if_splits)

lemma read_given_char_bytes: "read_given_char c s = Some r \<Longrightarrow> s = c # r"
  by (cases s) (auto split: if_splits)

lemma parse_addr_v4_bytes:
  assumes "parse_addr_v4 s = Some a"
  shows "set s \<subseteq> Collect is_digit \<union> {46, 58}"
  using assms
  by (auto simp: parse_addr_v4_def read_ipv4_def read_octet_def Option.bind_eq_Some_conv
      dest!: read_given_char_bytes read_number_bytes split: if_splits) (blast | fastforce)+

text \<open>The sizes of the texts.\<close>

lemma length_show_u8: "length (show_nat (unat (b :: u8))) \<le> 3"
  using length_show_nat [of "unat b" 2] unsigned_less [of b, where ?'a = nat]
  by (simp add: numeral_eq_Suc)

lemma length_show_u16: "length (show_nat (unat (b :: u16))) \<le> 5"
  using length_show_nat [of "unat b" 4] unat_u16_bound [of b] by simp

lemma length_show_ipv4: "length (show_ipv4 ip) \<le> 15"
proof -
  have "length (map (\<lambda>b. show_nat (unat b)) (u32_to_be ip) ! i) \<le> 3" if "i < 4" for i
    using that length_show_u8 by simp
  from this [of 0] this [of 1] this [of 2] this [of 3] show ?thesis
    unfolding show_ipv4_def Let_def length_append list.size by linarith
qed

lemma length_show_addr_v4: "length (show_addr_v4 a) \<le> 21"
  using length_show_ipv4 [of "v4_ip a"] length_show_u16 [of "v4_port a"]
  by (simp add: show_addr_v4_def)

lemma show_addr_v4_inject [simp]: "show_addr_v4 a = show_addr_v4 b \<longleftrightarrow> a = b"
  by (rule addr_v4.enc_inject)

subsection \<open>How a loop stands\<close>

text \<open>After the rounds looked at: it goes on, it came to its end, or a panic ended its thread.\<close>

datatype loop_end = Waiting | Stopped | Panicked

subsection \<open>The messages of a peer\<close>

text \<open>What a peer sends to the server when it starts, and the head of what it sends to other peers.\<close>

definition report_message :: "u32 \<Rightarrow> u32 \<Rightarrow> bytes" where
  "report_message my_peer_id peer_id = [253] @ u32_to_be my_peer_id @ u32_to_be peer_id"

definition punch_message :: "u32 \<Rightarrow> bytes" where
  "punch_message my_peer_id = [0] @ u32_to_be my_peer_id"

definition greeting :: "u32 \<Rightarrow> bytes" where
  "greeting my_peer_id =
     [1] @ u32_to_be my_peer_id @ ascii ''my identity is '' @ show_nat (unat my_peer_id)"

lemma length_report_message [simp]: "length (report_message i p) = 9"
  by (simp add: report_message_def)

subsection \<open>Receiving into a buffer that is kept\<close>

text \<open>
  \<^verbatim>\<open>recv_from(&mut buf)\<close>: the datagram replaces the first bytes of the buffer, the rest of the buffer
  keeps what earlier datagrams left there; the size is that of the part that was replaced.
\<close>

definition receive_into :: "bytes \<Rightarrow> bytes \<Rightarrow> nat \<times> bytes" where
  "receive_into buf d = (min (length d) (length buf), take (length buf) d @ drop (length d) buf)"

lemma length_receive_into [simp]: "length (snd (receive_into buf d)) = length buf"
  by (simp add: receive_into_def)

lemma receive_into_nth:
  "i < length d \<Longrightarrow> length d \<le> length buf \<Longrightarrow> snd (receive_into buf d) ! i = d ! i"
  "length d \<le> i \<Longrightarrow> i < length buf \<Longrightarrow> snd (receive_into buf d) ! i = buf ! i"
  by (auto simp: receive_into_def nth_append)

lemma slice_receive_into:
  assumes "a \<le> b" and "b \<le> length d" and "length d \<le> length buf"
  shows "slice (snd (receive_into buf d)) a b = Ok (take (b - a) (drop a d))"
  using assms by (simp add: slice_ok receive_into_def)

end
