(* ===== verification/Server.thy ===== *)
theory Server
  imports Messages
begin

section \<open>The rendezvous server\<close>

text \<open>
  \<^verbatim>\<open>examples/server.rs\<close>: one UDP socket, one map from peer ids to addresses, one receive buffer that
  is never cleared. The socket is bound to \<^verbatim>\<open>0.0.0.0:3000\<close>, so every address is an IPv4 one. The
  answers of the system to \<^verbatim>\<open>send_to\<close> (\<open>send\<close>) and the order in which the hash map is iterated (\<open>it\<close>)
  are arguments. Everything that is sent, or tried to be sent, is recorded in order.
\<close>

subsection \<open>Model\<close>

type_synonym datagram_log = "(bytes \<times> socket_addr_v4) list"

record server_state =
  sv_map :: "u32 \<rightharpoonup> socket_addr_v4"
  sv_buf :: bytes
  sv_sent :: datagram_log

type_synonym server_send = "datagram_log \<Rightarrow> bytes \<Rightarrow> socket_addr_v4 \<Rightarrow> io_error option"

definition server_new :: server_state where
  "server_new = \<lparr>sv_map = Map.empty, sv_buf = replicate 1500 0, sv_sent = []\<rparr>"

definition udp_send_to ::
    "server_send \<Rightarrow> bytes \<Rightarrow> socket_addr_v4 \<Rightarrow> server_state \<Rightarrow> unit outcome \<times> server_state" where
  "udp_send_to send b a st =
     (case send (sv_sent st) b a of
        None \<Rightarrow> (Ok (), st\<lparr>sv_sent := sv_sent st @ [(b, a)]\<rparr>)
      | Some e \<Rightarrow> (Err e, st\<lparr>sv_sent := sv_sent st @ [(b, a)]\<rparr>))"

text \<open>A report: confirm it, remember the reporter, and bring it together with a peer that waits.\<close>

definition coordination_message :: "u32 \<Rightarrow> socket_addr_v4 \<Rightarrow> bytes" where
  "coordination_message i a = [254] @ u32_to_be i @ show_addr_v4 a"

definition server_pair ::
    "server_send \<Rightarrow> u32 \<Rightarrow> u32 \<Rightarrow> socket_addr_v4 \<Rightarrow> server_state \<Rightarrow> unit outcome \<times> server_state" where
  "server_pair send from_id peer_id from st =
     (case sv_map st peer_id of
        None \<Rightarrow> (Ok (), st)
      | Some v \<Rightarrow>
          and_then (unwrap (udp_send_to send (coordination_message peer_id v) from st)) (\<lambda>_ st.
          and_then (unwrap (udp_send_to send (coordination_message from_id from) v st)) (\<lambda>_ st.
            (Ok (), st\<lparr>sv_map := (sv_map st)(peer_id := None, from_id := None)\<rparr>))))"

text \<open>The server has a copy of its own of \<^verbatim>\<open>bytes_to_u32\<close>.\<close>

definition server_bytes_to_u32 :: "bytes \<Rightarrow> u32 option" where
  "server_bytes_to_u32 b = (if length b \<noteq> 4 then None else Some (u32_from_be b))"

lemma server_bytes_to_u32_eq [simp]: "server_bytes_to_u32 = bytes_to_u32"
  by (simp add: fun_eq_iff server_bytes_to_u32_def bytes_to_u32_def)

definition server_report ::
    "server_send \<Rightarrow> socket_addr_v4 \<Rightarrow> server_state \<Rightarrow> unit outcome \<times> server_state" where
  "server_report send from st =
     and_then (slice (sv_buf st) 1 5, st) (\<lambda>b st.
       case server_bytes_to_u32 b of
         None \<Rightarrow> (Ok (), st)
       | Some from_id \<Rightarrow>
           and_then (slice (sv_buf st) 5 9, st) (\<lambda>b st.
             case server_bytes_to_u32 b of
               None \<Rightarrow> (Ok (), st)
             | Some peer_id \<Rightarrow>
                 and_then (unwrap (udp_send_to send [252] from st)) (\<lambda>_ st.
                   server_pair send from_id peer_id from
                     (st\<lparr>sv_map := (sv_map st)(from_id \<mapsto> from)\<rparr>))))"

text \<open>A heartbeat is echoed; when that fails one entry with the sender's address is taken out.\<close>

definition server_heartbeat ::
    "server_send \<Rightarrow> ((u32 \<rightharpoonup> socket_addr_v4) \<Rightarrow> (u32 \<times> socket_addr_v4) list) \<Rightarrow> socket_addr_v4
     \<Rightarrow> server_state \<Rightarrow> unit outcome \<times> server_state" where
  "server_heartbeat send it from st =
     (case udp_send_to send [255] from st of
        (Err _, st) \<Rightarrow>
          (case find (\<lambda>i. snd i = from) (it (sv_map st)) of
             Some v \<Rightarrow> (Ok (), st\<lparr>sv_map := (sv_map st)(fst v := None)\<rparr>)
           | None \<Rightarrow> (Ok (), st))
      | r \<Rightarrow> r)"

definition server_datagram ::
    "server_send \<Rightarrow> ((u32 \<rightharpoonup> socket_addr_v4) \<Rightarrow> (u32 \<times> socket_addr_v4) list) \<Rightarrow> nat \<Rightarrow> socket_addr_v4
     \<Rightarrow> server_state \<Rightarrow> unit outcome \<times> server_state" where
  "server_datagram send it n from st =
     (if n > 0 \<and> sv_buf st ! 0 = 253 then server_report send from st
      else if n > 0 \<and> sv_buf st ! 0 = 255 then server_heartbeat send it from st
      else (Ok (), st))"

text \<open>
  The loop, for a list of what \<^verbatim>\<open>recv_from\<close> gives: it waits for more, or the first error ended it, or
  it panicked.
\<close>

fun server_loop ::
    "server_send \<Rightarrow> ((u32 \<rightharpoonup> socket_addr_v4) \<Rightarrow> (u32 \<times> socket_addr_v4) list)
     \<Rightarrow> (io_error + bytes \<times> socket_addr_v4) list \<Rightarrow> server_state \<Rightarrow> loop_end \<times> server_state" where
  "server_loop send it [] st = (Waiting, st)"
| "server_loop send it (Inl e # rs) st = (Stopped, st)"
| "server_loop send it (Inr (d, from) # rs) st =
     (let (n, buf) = receive_into (sv_buf st) d in
      case server_datagram send it n from (st\<lparr>sv_buf := buf\<rparr>) of
        (Ok _, st') \<Rightarrow> server_loop send it rs st'
      | (_, st') \<Rightarrow> (Panicked, st'))"

text \<open>\<open>bind\<close> is the answer of the system to \<^verbatim>\<open>UdpSocket::bind\<close>.\<close>

definition server_main ::
    "(socket_addr_v4 \<Rightarrow> io_error option) \<Rightarrow> server_send
     \<Rightarrow> ((u32 \<rightharpoonup> socket_addr_v4) \<Rightarrow> (u32 \<times> socket_addr_v4) list)
     \<Rightarrow> (io_error + bytes \<times> socket_addr_v4) list \<Rightarrow> loop_end \<times> server_state" where
  "server_main bind send it rs =
     (case bind (SocketAddrV4 0 3000) of
        Some _ \<Rightarrow> (Panicked, server_new)
      | None \<Rightarrow> server_loop send it rs server_new)"

subsection \<open>The rendezvous it implements\<close>

datatype request = Report u32 u32 | Heartbeat | Noise

datatype reply = Confirmed | PeerAt u32 socket_addr_v4 | Alive

type_synonym waiting_room = "u32 \<rightharpoonup> socket_addr_v4"

fun rendezvous :: "request \<times> socket_addr_v4 \<Rightarrow> waiting_room \<Rightarrow> waiting_room \<times> (reply \<times> socket_addr_v4) list" where
  "rendezvous (Report i p, a) w =
     (case (w(i \<mapsto> a)) p of
        None \<Rightarrow> (w(i \<mapsto> a), [(Confirmed, a)])
      | Some v \<Rightarrow> (w(i := None, p := None), [(Confirmed, a), (PeerAt p v, a), (PeerAt i a, v)]))"
| "rendezvous (Heartbeat, a) w = (w, [(Alive, a)])"
| "rendezvous (Noise, a) w = (w, [])"

fun rendezvous_run :: "(request \<times> socket_addr_v4) list \<Rightarrow> waiting_room \<Rightarrow> waiting_room \<times> (reply \<times> socket_addr_v4) list" where
  "rendezvous_run [] w = (w, [])"
| "rendezvous_run (r # rs) w =
     (let (w1, out1) = rendezvous r w; (w2, out2) = rendezvous_run rs w1 in (w2, out1 @ out2))"

fun encode_reply :: "reply \<Rightarrow> bytes" where
  "encode_reply Confirmed = [252]"
| "encode_reply (PeerAt i a) = coordination_message i a"
| "encode_reply Alive = [255]"

text \<open>What a datagram of its own asks for; a report must hold both ids.\<close>

definition request_of :: "bytes \<Rightarrow> request" where
  "request_of d =
     (if d \<noteq> [] \<and> hd d = 253
      then Report (u32_from_be (take 4 (drop 1 d))) (u32_from_be (take 4 (drop 5 d)))
      else if d \<noteq> [] \<and> hd d = 255 then Heartbeat else Noise)"

definition well_formed_request :: "bytes \<Rightarrow> bool" where
  "well_formed_request d \<longleftrightarrow> length d \<le> 1500 \<and> (d \<noteq> [] \<and> hd d = 253 \<longrightarrow> 9 \<le> length d)"

definition reliable :: "server_send \<Rightarrow> bool" where
  "reliable send \<longleftrightarrow> (\<forall>h b a. send h b a = None)"

definition server_ok :: "server_state \<Rightarrow> bool" where
  "server_ok st \<longleftrightarrow> length (sv_buf st) = 1500 \<and> finite (dom (sv_map st))"

subsection \<open>Lemmas\<close>

lemma server_ok_new [simp]: "server_ok server_new"
  by (simp add: server_ok_def server_new_def)

lemma server_new_simps [simp]: "sv_map server_new = Map.empty" "sv_sent server_new = []"
  by (simp_all add: server_new_def)

lemma reliable_none [simp]: "reliable (\<lambda>_ _ _. None)"
  by (simp add: reliable_def)

lemma udp_send_to_reliable:
  "reliable send \<Longrightarrow> udp_send_to send b a st = (Ok (), st\<lparr>sv_sent := sv_sent st @ [(b, a)]\<rparr>)"
  by (simp add: udp_send_to_def reliable_def)

text \<open>The ids that the report handler reads, on a buffer of full length.\<close>

definition buf_from :: "bytes \<Rightarrow> u32" where
  "buf_from buf = u32_from_be (take 4 (drop 1 buf))"

definition buf_peer :: "bytes \<Rightarrow> u32" where
  "buf_peer buf = u32_from_be (take 4 (drop 5 buf))"

lemma server_report_ids:
  assumes "length (sv_buf st) = 1500"
  shows "server_report send from st =
    and_then (unwrap (udp_send_to send [252] from st)) (\<lambda>_ st'.
      server_pair send (buf_from (sv_buf st)) (buf_peer (sv_buf st)) from
        (st'\<lparr>sv_map := (sv_map st')(buf_from (sv_buf st) \<mapsto> from)\<rparr>))"
  using assms by (simp add: server_report_def slice_def bytes_to_u32_def buf_from_def buf_peer_def)

lemma buf_ids_received:
  assumes "9 \<le> length d" and "length d \<le> length buf"
  shows "buf_from (snd (receive_into buf d)) = u32_from_be (take 4 (drop 1 d))"
    and "buf_peer (snd (receive_into buf d)) = u32_from_be (take 4 (drop 5 d))"
  using assms by (simp_all add: buf_from_def buf_peer_def receive_into_def)

lemma server_pair_reliable:
  assumes "reliable send" and "sv_map st = w(i \<mapsto> a)"
  shows "server_pair send i p a st =
    (let (w', out) = rendezvous (Report i p, a) w
     in (Ok (), st\<lparr>sv_map := w', sv_sent := sv_sent st @ map (map_prod encode_reply (\<lambda>x. x)) (tl out)\<rparr>))"
  using assms
  by (cases "(w(i \<mapsto> a)) p")
    (auto simp: server_pair_def udp_send_to_reliable fun_upd_twist split: if_splits)

text \<open>One datagram is one step of the rendezvous.\<close>

lemma server_datagram_step:
  assumes "reliable send" and "well_formed_request d" and "length (sv_buf st) = 1500"
    and "receive_into (sv_buf st) d = (n, buf)" and "rendezvous (request_of d, a) (sv_map st) = (w, out)"
  shows "server_datagram send it n a (st\<lparr>sv_buf := buf\<rparr>) =
    (Ok (), st\<lparr>sv_buf := buf, sv_map := w, sv_sent := sv_sent st @ map (map_prod encode_reply (\<lambda>x. x)) out\<rparr>)"
proof (cases "d = []")
  case True
  with assms(4,5) show ?thesis
    by (auto simp: server_datagram_def receive_into_def request_of_def)
next
  case False
  from assms(2) have len: "length d \<le> 1500"
    by (simp add: well_formed_request_def)
  from assms(4) have n: "n = min (length d) (length (sv_buf st))" and buf: "buf = snd (receive_into (sv_buf st) d)"
    by (auto simp: receive_into_def)
  with False len assms(3) have hd: "n > 0" "buf ! 0 = hd d" "length buf = 1500"
    by (simp_all add: receive_into_nth hd_conv_nth)
  show ?thesis
  proof (cases "hd d = 253")
    case True
    with False assms(2) have nine: "9 \<le> length d"
      by (simp add: well_formed_request_def)
    have r: "request_of d = Report (buf_from buf) (buf_peer buf)"
      using False True nine len assms(3) by (simp add: request_of_def buf buf_ids_received)
    from True hd have "server_datagram send it n a (st\<lparr>sv_buf := buf\<rparr>) = server_report send a (st\<lparr>sv_buf := buf\<rparr>)"
      by (simp add: server_datagram_def)
    also have "\<dots> = (Ok (), st\<lparr>sv_buf := buf, sv_map := w,
        sv_sent := sv_sent st @ map (map_prod encode_reply (\<lambda>x. x)) out\<rparr>)"
      using assms(1,5) hd
      by (auto simp: server_report_ids udp_send_to_reliable r
          server_pair_reliable [OF assms(1), where w = "sv_map st"] split: option.splits)
    finally show ?thesis .
  next
    case not_report: False
    show ?thesis
    proof (cases "hd d = 255")
      case True
      with False not_report hd assms(1,5) show ?thesis
        by (auto simp: server_datagram_def request_of_def server_heartbeat_def udp_send_to_reliable)
    next
      case False
      with not_report hd assms(5) show ?thesis
        by (simp add: server_datagram_def request_of_def)
    qed
  qed
qed

lemma server_ok_received:
  "server_ok st \<Longrightarrow> receive_into (sv_buf st) d = (n, buf) \<Longrightarrow> length buf = 1500"
  by (auto simp: server_ok_def receive_into_def)

lemma dom_finite_rendezvous:
  assumes "rendezvous r w = (w', out)" and "finite (dom w)"
  shows "finite (dom w')"
proof -
  have "dom w' \<subseteq> dom w \<union> (case fst r of Report i p \<Rightarrow> {i} | _ \<Rightarrow> {})"
    using assms(1) by (cases "(r, w)" rule: rendezvous.cases) (auto split: option.splits if_splits)
  with assms(2) show ?thesis
    by (auto elim: finite_subset split: request.splits)
qed

lemma server_run_refines:
  assumes "reliable send" and "\<forall>(d, a) \<in> set ds. well_formed_request d" and "server_ok st"
    and "rendezvous_run (map (map_prod request_of (\<lambda>a. a)) ds) (sv_map st) = (w, out)"
  shows "\<exists>st'. server_loop send it (map Inr ds) st = (Waiting, st') \<and> server_ok st' \<and>
    sv_map st' = w \<and> sv_sent st' = sv_sent st @ map (map_prod encode_reply (\<lambda>x. x)) out"
  using assms(2-)
proof (induction ds arbitrary: st out)
  case Nil
  then show ?case by auto
next
  case (Cons da ds)
  obtain d a where da: "da = (d, a)" by (cases da)
  obtain n buf where rb: "receive_into (sv_buf st) d = (n, buf)" by (cases "receive_into (sv_buf st) d")
  obtain w1 out1 where r: "rendezvous (request_of d, a) (sv_map st) = (w1, out1)"
    by (cases "rendezvous (request_of d, a) (sv_map st)")
  obtain w2 out2 where rest: "rendezvous_run (map (map_prod request_of (\<lambda>a. a)) ds) w1 = (w2, out2)"
    by (cases "rendezvous_run (map (map_prod request_of (\<lambda>a. a)) ds) w1")
  from Cons.prems(3) da r rest have w: "w2 = w" "out = out1 @ out2" by auto
  let ?st = "st\<lparr>sv_buf := buf, sv_map := w1,
    sv_sent := sv_sent st @ map (map_prod encode_reply (\<lambda>x. x)) out1\<rparr>"
  have len: "length (sv_buf st) = 1500" using Cons.prems(2) by (simp add: server_ok_def)
  have "well_formed_request d" using Cons.prems(1) da by simp
  from server_datagram_step [OF assms(1) this len rb r]
  have step: "server_loop send it (map Inr (da # ds)) st = server_loop send it (map Inr ds) ?st"
    by (simp add: da rb)
  have "server_ok ?st"
    using Cons.prems(2) server_ok_received [OF Cons.prems(2) rb] dom_finite_rendezvous [OF r]
    by (simp add: server_ok_def)
  with Cons.IH [of ?st out2] Cons.prems(1) rest w show ?case
    unfolding step by auto
qed

text \<open>Requests that do not name an id leave it where it is.\<close>

fun names :: "request \<Rightarrow> u32 set" where
  "names (Report i p) = {i, p}"
| "names Heartbeat = {}"
| "names Noise = {}"

lemma rendezvous_frame: "i \<notin> names (fst r) \<Longrightarrow> fst (rendezvous r w) i = w i"
  by (cases "(r, w)" rule: rendezvous.cases) (auto split: option.splits)

lemma rendezvous_run_frame:
  "\<forall>r \<in> set rs. i \<notin> names (fst r) \<Longrightarrow> fst (rendezvous_run rs w) i = w i"
  by (induction rs arbitrary: w) (auto simp: rendezvous_frame split: prod.splits, metis fst_conv rendezvous_frame)

lemma rendezvous_run_append:
  "rendezvous_run (rs @ qs) w =
     (let (w1, out1) = rendezvous_run rs w; (w2, out2) = rendezvous_run qs w1 in (w2, out1 @ out2))"
  by (induction rs arbitrary: w) (auto split: prod.splits)

lemma request_of_heartbeat [simp]: "request_of [255] = Heartbeat" "well_formed_request [255]"
  by (simp_all add: request_of_def well_formed_request_def)

lemma request_of_report [simp]: "request_of (report_message i p) = Report i p"
  by (simp add: request_of_def report_message_def u32_from_to_be)

lemma well_formed_report [simp]: "well_formed_request (report_message i p)"
  by (simp add: well_formed_request_def)

end
