(* ===== verification/Server_Props.thy ===== *)
theory Server_Props
  imports Server
begin

section \<open>Properties of the rendezvous server\<close>

text \<open>
  The server implements the rendezvous; two peers that name each other are brought together; and
  what happens with failing sends, short reports, and peers that were not asked for.
\<close>

subsection \<open>Refinement\<close>

text \<open>
  C12: As long as sending works and every report is complete, the server is exactly the rendezvous of its
  abstract specification: for any sequence of datagrams it keeps waiting for more, its map is the
  waiting room, and it sent the encodings of the replies, in order and to the right addresses.
\<close>

theorem server_refines_rendezvous:
  assumes "reliable send" and "server_ok st"
    and "\<And>d a. (d, a) \<in> set ds \<Longrightarrow> well_formed_request d"
  shows "\<exists>st' out. rendezvous_run (map (map_prod request_of (\<lambda>a. a)) ds) (sv_map st) = (sv_map st', out) \<and>
    server_loop send it (map Inr ds) st = (Waiting, st') \<and> server_ok st' \<and>
    sv_sent st' = sv_sent st @ map (map_prod encode_reply (\<lambda>a. a)) out"
proof -
  obtain w out where "rendezvous_run (map (map_prod request_of (\<lambda>a. a)) ds) (sv_map st) = (w, out)"
    by fastforce
  with server_run_refines [OF assms(1) _ assms(2) this, of it] assms(3) show ?thesis
    by fastforce
qed

theorem server_refines_rendezvous_witness:
  "\<exists>st'. server_loop (\<lambda>_ _ _. None) sorted_iter
     (map Inr [(report_message 1 2, SocketAddrV4 7 70), ([255], SocketAddrV4 9 90)]) server_new = (Waiting, st') \<and>
     sv_map st' = [1 \<mapsto> SocketAddrV4 7 70] \<and>
     sv_sent st' = [([252], SocketAddrV4 7 70), ([255], SocketAddrV4 9 90)]"
proof -
  let ?ds = "[(report_message 1 2, SocketAddrV4 7 70), ([255], SocketAddrV4 9 90)]"
  have "well_formed_request d" if "(d, a) \<in> set ?ds" for d a
    using that by auto
  note run = server_refines_rendezvous [OF reliable_none server_ok_new this]
  show ?thesis
    using run [of ?ds "\<lambda>_ a. a" sorted_iter] by (auto simp del: server_loop.simps)
qed

subsection \<open>Two peers meet\<close>

lemma rendezvous_meets:
  assumes "i \<noteq> p" and "w p = None" and "\<forall>r \<in> set mid. i \<notin> names (fst r) \<and> p \<notin> names (fst r)"
    and "rendezvous_run ((Report i p, a) # mid @ [(Report p i, b)]) w = (w', out)"
  shows "w' i = None" and "w' p = None"
    and "\<exists>out1. out = out1 @ [(Confirmed, b), (PeerAt i a, b), (PeerAt p b, a)]"
proof -
  obtain w1 out1 where mid: "rendezvous_run mid (w(i \<mapsto> a)) = (w1, out1)"
    by (cases "rendezvous_run mid (w(i \<mapsto> a))")
  with rendezvous_run_frame [of mid i "w(i \<mapsto> a)"] rendezvous_run_frame [of mid p "w(i \<mapsto> a)"] assms(1-3)
  have "w1 i = Some a" "w1 p = None" by auto
  with assms(1,2,4) mid show "w' i = None" and "w' p = None"
    and "\<exists>out1. out = out1 @ [(Confirmed, b), (PeerAt i a, b), (PeerAt p b, a)]"
    by (auto simp: rendezvous_run_append split: if_splits)
qed

lemma server_meets:
  assumes "reliable send" and "server_ok st" and "i \<noteq> p" and "sv_map st p = None"
    and "\<forall>(d, c) \<in> set mid. well_formed_request d \<and> names (request_of d) \<inter> {i, p} = {}"
  shows "\<exists>st' log. server_loop send it
      (map Inr ((report_message i p, a) # mid @ [(report_message p i, b)])) st = (Waiting, st') \<and>
    sv_sent st' = log @ [([252], b), (coordination_message i a, b), (coordination_message p b, a)] \<and>
    sv_map st' i = None \<and> sv_map st' p = None"
proof -
  let ?ds = "(report_message i p, a) # mid @ [(report_message p i, b)]"
  obtain w out where run: "rendezvous_run (map (map_prod request_of (\<lambda>a. a)) ?ds) (sv_map st) = (w, out)"
    by fastforce
  have "\<forall>(d, c) \<in> set ?ds. well_formed_request d"
    using assms(5) by auto
  from server_run_refines [OF assms(1) this assms(2) run, of it] obtain st' where
    st': "server_loop send it (map Inr ?ds) st = (Waiting, st')" "sv_map st' = w"
      "sv_sent st' = sv_sent st @ map (map_prod encode_reply (\<lambda>x. x)) out"
    by blast
  have mid: "\<forall>r \<in> set (map (map_prod request_of (\<lambda>a. a)) mid). i \<notin> names (fst r) \<and> p \<notin> names (fst r)"
    using assms(5) by force
  from run have "rendezvous_run ((Report i p, a) # map (map_prod request_of (\<lambda>a. a)) mid @ [(Report p i, b)]) (sv_map st) = (w, out)"
    by simp
  from rendezvous_meets [OF assms(3,4) mid this] obtain out1 where
    "w i = None" "w p = None" "out = out1 @ [(Confirmed, b), (PeerAt i a, b), (PeerAt p b, a)]"
    by blast
  with st' show ?thesis by auto
qed

text \<open>
  Two peers that report each other meet: if nobody waits under the second id when the first report
  comes, and no report in between names either of the two ids, then after the second report each of
  the two has been told the address the other one reported from, under the other one's id, and
  neither waits any longer. The datagrams in between may be anything else, heartbeats and reports
  of other peers included.
\<close>

theorem rendezvous_completes:
  assumes "reliable send" and "server_ok st" and "i \<noteq> p" and "sv_map st p = None"
    and "\<forall>(d, c) \<in> set mid. well_formed_request d \<and> names (request_of d) \<inter> {i, p} = {}"
  shows "\<exists>st' log. server_loop send it
      (map Inr ((report_message i p, a) # mid @ [(report_message p i, b)])) st = (Waiting, st') \<and>
    sv_sent st' = log @ [([252], b), (coordination_message i a, b), (coordination_message p b, a)] \<and>
    sv_map st' i = None \<and> sv_map st' p = None"
  using assms by (rule server_meets)

theorem rendezvous_completes_witness:
  "\<exists>st' log. server_loop (\<lambda>_ _ _. None) sorted_iter
      (map Inr ((report_message 1 2, SocketAddrV4 7 70) # [([255], SocketAddrV4 9 90)] @
        [(report_message 2 1, SocketAddrV4 8 80)])) server_new = (Waiting, st') \<and>
    sv_sent st' = log @ [([252], SocketAddrV4 8 80),
      (coordination_message 1 (SocketAddrV4 7 70), SocketAddrV4 8 80),
      (coordination_message 2 (SocketAddrV4 8 80), SocketAddrV4 7 70)] \<and>
    sv_map st' 1 = None \<and> sv_map st' 2 = None"
  by (rule rendezvous_completes) auto

subsection \<open>A peer that was not asked for\<close>

text \<open>
  The server does not look at whom a waiting peer asked for. When \<open>p\<close> waits for \<open>i\<close> and a third
  peer \<open>q\<close> reports that it wants \<open>p\<close>, the two are paired and \<open>p\<close> is forgotten; the peer \<open>i\<close> that \<open>p\<close>
  asked for then finds nobody and waits.
\<close>

theorem server_pairs_unasked:
  assumes "reliable send" and "i \<noteq> p" and "q \<noteq> p" and "q \<noteq> i"
  shows "\<exists>st'. server_loop send it
      (map Inr [(report_message p i, y), (report_message q p, z), (report_message i p, x)]) server_new =
        (Waiting, st') \<and>
    sv_map st' = [i \<mapsto> x] \<and>
    sv_sent st' = [([252], y), ([252], z), (coordination_message p y, z), (coordination_message q z, y), ([252], x)]"
proof -
  let ?ds = "[(report_message p i, y), (report_message q p, z), (report_message i p, x)]"
  have run: "rendezvous_run (map (map_prod request_of (\<lambda>a. a)) ?ds) (sv_map server_new) =
      ([i \<mapsto> x], [(Confirmed, y), (Confirmed, z), (PeerAt p y, z), (PeerAt q z, y), (Confirmed, x)])"
    using assms(2-4) by auto
  have "\<forall>(d, c) \<in> set ?ds. well_formed_request d" by simp
  from server_run_refines [OF assms(1) this server_ok_new run, of it] show ?thesis
    by auto
qed

theorem server_pairs_unasked_witness:
  "\<exists>st'. server_loop (\<lambda>_ _ _. None) sorted_iter
      (map Inr [(report_message 2 1, SocketAddrV4 8 80), (report_message 3 2, SocketAddrV4 9 90),
        (report_message 1 2, SocketAddrV4 7 70)]) server_new = (Waiting, st') \<and>
    sv_map st' = [1 \<mapsto> SocketAddrV4 7 70]"
  using server_pairs_unasked [of "\<lambda>_ _ _. None" 1 2 3 sorted_iter "SocketAddrV4 8 80" "SocketAddrV4 9 90" "SocketAddrV4 7 70"]
  by (auto simp del: server_loop.simps)

subsection \<open>Short reports\<close>

text \<open>
  C23: The server tests neither the length of a report nor clears its buffer, so the one byte 253 is taken
  as a repetition of the report before it: whatever the system answers and whatever comes later, the
  server goes through the same states as if the whole last report had come from the address of the
  short datagram. Whoever sends it takes over the id of the peer that reported last.
\<close>

theorem short_report_repeats_last:
  assumes "server_ok st"
  shows "server_loop send it (Inr (report_message i p, a) # Inr ([253], b) # rs) st =
         server_loop send it (Inr (report_message i p, a) # Inr (report_message i p, b) # rs) st"
proof -
  let ?buf = "report_message i p @ drop 9 (sv_buf st)"
  have len: "length (sv_buf st) = 1500" using assms by (simp add: server_ok_def)
  have keep: "sv_buf (snd (server_datagram send it n c st')) = sv_buf st'" for n c st'
    by (auto simp: server_datagram_def server_report_def server_pair_def server_heartbeat_def
        udp_send_to_def slice_def split: option.splits)
  have first: "receive_into (sv_buf st) (report_message i p) = (9, ?buf)"
    using len by (simp add: receive_into_def)
  have short: "receive_into ?buf [253] = (1, ?buf)"
    using len by (simp add: receive_into_def report_message_def)
  have whole: "receive_into ?buf (report_message i p) = (9, ?buf)"
    using len by (simp add: receive_into_def)
  have same: "server_datagram send it 1 b st' = server_datagram send it 9 b st'" for st'
    by (simp add: server_datagram_def)
  obtain r st1 where d: "server_datagram send it 9 a (st\<lparr>sv_buf := ?buf\<rparr>) = (r, st1)"
    by (cases "server_datagram send it 9 a (st\<lparr>sv_buf := ?buf\<rparr>)")
  with keep [of 9 a "st\<lparr>sv_buf := ?buf\<rparr>"] have "sv_buf st1 = ?buf" by simp
  with first d short whole same show ?thesis
    by (cases r) simp_all
qed

theorem short_report_repeats_last_witness:
  "\<exists>st'. server_loop (\<lambda>_ _ _. None) sorted_iter
     [Inr (report_message 1 2, SocketAddrV4 7 70), Inr ([253], SocketAddrV4 9 90)] server_new = (Waiting, st') \<and>
     sv_map st' = [1 \<mapsto> SocketAddrV4 9 90]"
proof -
  have "\<exists>st'. server_loop (\<lambda>_ _ _. None) sorted_iter (map Inr [(report_message 1 2, SocketAddrV4 7 70),
      (report_message 1 2, SocketAddrV4 9 90)]) server_new = (Waiting, st') \<and> sv_map st' = [1 \<mapsto> SocketAddrV4 9 90]"
    using server_run_refines [of "\<lambda>_ _ _. None" "[(report_message 1 2, SocketAddrV4 7 70),
      (report_message 1 2, SocketAddrV4 9 90)]" server_new _ _ sorted_iter] server_ok_new
    by (auto simp del: server_loop.simps)
  then show ?thesis
    using short_report_repeats_last [OF server_ok_new, of "\<lambda>_ _ _. None" sorted_iter 1 2 "SocketAddrV4 7 70" "SocketAddrV4 9 90" "[]"]
    by (simp del: server_loop.simps)
qed

subsection \<open>What it sends\<close>

text \<open>
  \<open>known\<close> holds the addresses a server may name or send to: those in its map and those it received
  from.
\<close>

definition server_message :: "socket_addr_v4 set \<Rightarrow> bytes \<Rightarrow> bool" where
  "server_message known b \<longleftrightarrow>
     b = [252] \<or> b = [255] \<or> (\<exists>i. \<exists>v \<in> known. b = coordination_message i v)"

definition says_only :: "socket_addr_v4 set \<Rightarrow> server_state \<Rightarrow> server_state \<Rightarrow> bool" where
  "says_only known st st' \<longleftrightarrow> sv_buf st' = sv_buf st \<and> (finite (dom (sv_map st)) \<longrightarrow> finite (dom (sv_map st'))) \<and>
     ran (sv_map st') \<subseteq> known \<and>
     (\<exists>log. sv_sent st' = sv_sent st @ log \<and> (\<forall>(b, a) \<in> set log. a \<in> known \<and> server_message known b))"

lemma says_only_refl: "ran (sv_map st) \<subseteq> known \<Longrightarrow> says_only known st st"
  by (simp add: says_only_def)

lemma says_only_trans: "says_only known st st1 \<Longrightarrow> says_only known st1 st2 \<Longrightarrow> says_only known st st2"
  unfolding says_only_def by (elim conjE exE) (intro conjI; force)

lemma says_only_send:
  assumes "ran (sv_map st) \<subseteq> known" and "a \<in> known" and "server_message known b"
  shows "says_only known st (snd (udp_send_to send b a st))"
  using assms by (auto simp: says_only_def udp_send_to_def split: option.split)

lemma says_only_unwrap: "says_only known st (snd m) \<Longrightarrow> says_only known st (snd (unwrap m))"
  by (cases m rule: unwrap.cases) auto

lemma says_only_bind:
  assumes "says_only known st (snd m)"
    and "\<And>x st1. m = (Ok x, st1) \<Longrightarrow> says_only known st st1 \<Longrightarrow> says_only known st1 (snd (f x st1))"
  shows "says_only known st (snd (and_then m f))"
  using assms by (cases "(m, f)" rule: and_then.cases) (auto intro: says_only_trans)

lemma says_only_map:
  assumes "says_only known st st'" and "finite (dom (sv_map st')) \<longrightarrow> finite (dom w)" and "ran w \<subseteq> known"
  shows "says_only known st (st'\<lparr>sv_map := w\<rparr>)"
  using assms by (auto simp: says_only_def)

lemma ran_upd_subset: "ran m \<subseteq> A \<Longrightarrow> a \<in> A \<Longrightarrow> ran (m(i \<mapsto> a)) \<subseteq> A" "ran m \<subseteq> A \<Longrightarrow> ran (m(i := None)) \<subseteq> A"
  by (auto simp: ran_def)

lemma says_only_ran: "says_only known st st' \<Longrightarrow> ran (sv_map st') \<subseteq> known"
  by (simp add: says_only_def)

lemma says_only_pair:
  assumes ran: "ran (sv_map st) \<subseteq> known" and "from \<in> known"
  shows "says_only known st (snd (server_pair send i p from st))"
proof (cases "sv_map st p")
  case None
  with ran show ?thesis by (simp add: server_pair_def says_only_refl)
next
  case (Some v)
  with ran have v: "v \<in> known" by (auto simp: ran_def)
  have msg: "server_message known (coordination_message p v)" "server_message known (coordination_message i from)"
    using v assms(2) by (auto simp: server_message_def)
  show ?thesis
    unfolding server_pair_def Some option.case
  proof (intro says_only_bind)
    show "says_only known st (snd (unwrap (udp_send_to send (coordination_message p v) from st)))"
      using ran assms(2) msg(1) by (intro says_only_unwrap says_only_send)
    fix st1
    assume "says_only known st st1"
    then show "says_only known st1 (snd (unwrap (udp_send_to send (coordination_message i from) v st1)))"
      using v msg(2) by (intro says_only_unwrap says_only_send) (auto dest: says_only_ran)
    fix st2
    assume "says_only known st1 st2"
    then have "ran (sv_map st2) \<subseteq> known" by (rule says_only_ran)
    then show "says_only known st2 (snd (Ok (), st2\<lparr>sv_map := (sv_map st2)(p := None, i := None)\<rparr>))"
      by (simp add: says_only_map says_only_refl ran_upd_subset(2))
  qed
qed

lemma says_only_datagram:
  assumes ran: "ran (sv_map st) \<subseteq> known" and "from \<in> known" and "length (sv_buf st) = 1500"
  shows "says_only known st (snd (server_datagram send it n from st))"
proof -
  have msg: "server_message known [252]" "server_message known [255]"
    by (simp_all add: server_message_def)
  have "says_only known st (snd (server_report send from st))"
    unfolding server_report_ids [OF assms(3)]
  proof (rule says_only_bind)
    show "says_only known st (snd (unwrap (udp_send_to send [252] from st)))"
      using assms msg by (intro says_only_unwrap says_only_send) auto
    fix x st1
    assume "says_only known st st1"
    then have r: "ran (sv_map st1) \<subseteq> known" by (rule says_only_ran)
    let ?st = "st1\<lparr>sv_map := (sv_map st1)(buf_from (sv_buf st) \<mapsto> from)\<rparr>"
    have "says_only known st1 ?st"
      using r assms(2) by (simp add: says_only_map says_only_refl ran_upd_subset(1))
    moreover have "says_only known ?st (snd (server_pair send (buf_from (sv_buf st)) (buf_peer (sv_buf st)) from ?st))"
      using r assms(2) by (simp add: says_only_pair ran_upd_subset(1))
    ultimately show "says_only known st1 (snd (server_pair send (buf_from (sv_buf st)) (buf_peer (sv_buf st)) from ?st))"
      by (rule says_only_trans)
  qed
  moreover have "says_only known st (snd (server_heartbeat send it from st))"
  proof -
    obtain r st1 where u: "udp_send_to send [255] from st = (r, st1)"
      by (cases "udp_send_to send [255] from st")
    with says_only_send [OF ran assms(2) msg(2), of send] have "says_only known st st1" by simp
    with u show ?thesis
      by (cases r) (auto simp: server_heartbeat_def intro!: says_only_map ran_upd_subset
          dest: says_only_ran split: option.split)
  qed
  ultimately show ?thesis
    using ran by (simp add: server_datagram_def says_only_refl)
qed

text \<open>The addresses a list of received datagrams came from.\<close>

fun senders :: "('e + bytes \<times> 'a) list \<Rightarrow> 'a set" where
  "senders [] = {}"
| "senders (Inl e # rs) = senders rs"
| "senders (Inr (d, a) # rs) = insert a (senders rs)"

lemma server_message_mono: "server_message A b \<Longrightarrow> A \<subseteq> B \<Longrightarrow> server_message B b"
  unfolding server_message_def by blast

text \<open>
  C18: The server speaks only to those who spoke to it, and only its protocol: whatever it receives,
  malformed datagrams included, and whatever the system answers, everything it sends is a
  confirmation, an echo or a coordination message (at most 26 bytes), goes to an address that was in
  its map or that it received from, and names no other address; its buffer keeps its size and its map
  stays finite.
\<close>

theorem server_speaks_protocol:
  assumes "server_ok st" and "ran (sv_map st) \<subseteq> known" and "senders rs \<subseteq> known"
    and "server_loop send it rs st = (e, st')"
  shows "server_ok st' \<and> ran (sv_map st') \<subseteq> known \<and> (\<exists>log. sv_sent st' = sv_sent st @ log \<and>
    (\<forall>(b, a) \<in> set log. a \<in> known \<and> server_message known b \<and> length b \<le> 26))"
proof -
  have len: "length b \<le> 26" if "server_message known b" for b
    using that length_show_addr_v4 by (auto simp: server_message_def coordination_message_def)
  have "server_ok st' \<and> ran (sv_map st') \<subseteq> known \<and> (\<exists>log. sv_sent st' = sv_sent st @ log \<and>
      (\<forall>(b, a) \<in> set log. a \<in> known \<and> server_message known b))"
    using assms
  proof (induction send it rs st rule: server_loop.induct)
    case (3 send it d src rs st)
    obtain n buf where rb: "receive_into (sv_buf st) d = (n, buf)" by (cases "receive_into (sv_buf st) d")
    let ?st = "st\<lparr>sv_buf := buf\<rparr>"
    obtain r st1 where d: "server_datagram send it n src ?st = (r, st1)"
      by (cases "server_datagram send it n src ?st")
    have "length buf = 1500" using 3(2) rb by (rule server_ok_received)
    with says_only_datagram [of ?st known src send it n] 3(3,4) d have so: "says_only known ?st st1"
      by simp
    then have ok: "server_ok st1" "ran (sv_map st1) \<subseteq> known"
      using 3(2) \<open>length buf = 1500\<close> by (auto simp: says_only_def server_ok_def)
    obtain log1 where log1: "sv_sent st1 = sv_sent st @ log1"
        "\<forall>(b, a) \<in> set log1. a \<in> known \<and> server_message known b"
      using so by (auto simp: says_only_def)
    show ?case
    proof (cases "\<exists>x. r = Ok x")
      case True
      with 3(5) rb d have "server_loop send it rs st1 = (e, st')" by auto
      with 3(1) [OF refl rb [symmetric] d [symmetric]] True ok 3(4) log1 show ?thesis
        by (auto simp: rb)
    next
      case False
      with 3(5) rb d ok log1 show ?thesis by (cases r) auto
    qed
  qed auto
  with len show ?thesis by fast
qed

theorem server_speaks_protocol_witness:
  "\<exists>e st'. server_loop (\<lambda>_ _ _. Some (IoError Other [])) sorted_iter [Inr ([255], SocketAddrV4 9 90)] server_new = (e, st') \<and>
     server_ok st' \<and> sv_sent st' = [([255], SocketAddrV4 9 90)]"
proof -
  obtain e st' where run: "server_loop (\<lambda>_ _ _. Some (IoError Other [])) sorted_iter
      [Inr ([255], SocketAddrV4 9 90)] server_new = (e, st')"
    by fastforce
  from server_speaks_protocol [OF server_ok_new _ _ run, of "{SocketAddrV4 9 90}"] have "server_ok st'"
    by simp
  moreover from run have "sv_sent st' = [([255], SocketAddrV4 9 90)]"
    by (auto simp: receive_into_def server_datagram_def server_heartbeat_def udp_send_to_def server_new_def
        sorted_iter_def)
  ultimately show ?thesis using run by blast
qed

subsection \<open>When sending fails\<close>

lemma server_pair_panics:
  assumes "sv_map st = w(i \<mapsto> a)"
    and "msgs = map (map_prod encode_reply (\<lambda>x. x)) (snd (rendezvous (Report i p, a) w))"
    and "sv_sent st = h @ [hd msgs]"
  shows "fst (server_pair send i p a st) = Panic \<longleftrightarrow>
    (\<exists>k < length msgs. 0 < k \<and> send (h @ take k msgs) (fst (msgs ! k)) (snd (msgs ! k)) \<noteq> None)"
proof (cases "(w(i \<mapsto> a)) p")
  case None
  with assms show ?thesis by (simp add: server_pair_def)
next
  case (Some v)
  with assms(2) have msgs: "msgs = [([252], a), (coordination_message p v, a), (coordination_message i a, v)]"
    by simp
  have ex: "(\<exists>k < length msgs. 0 < k \<and> P k) \<longleftrightarrow> P 1 \<or> P 2" for P
    unfolding msgs by (auto simp: less_Suc_eq numeral_2_eq_2)
  from Some assms(1) msgs show ?thesis
    unfolding ex by (auto simp: server_pair_def udp_send_to_def assms(3) split: option.split)
qed

text \<open>
  C24: Exactly when a received datagram makes the server panic: it starts with 253 (whoever sent it) and
  one of the one to three sends that answer it fails, the earlier ones having been made. A heartbeat
  that cannot be answered, or anything else, never stops it.
\<close>

theorem server_panics_iff:
  fixes a :: socket_addr_v4 and d :: bytes
  assumes "server_ok st" and "receive_into (sv_buf st) d = (n, buf)"
    and "msgs = map (map_prod encode_reply (\<lambda>x. x)) (snd (rendezvous (Report (buf_from buf) (buf_peer buf), a) (sv_map st)))"
  shows "fst (server_loop send it [Inr (d, a)] st) = Panicked \<longleftrightarrow>
    d \<noteq> [] \<and> hd d = 253 \<and>
    (\<exists>k < length msgs. send (sv_sent st @ take k msgs) (fst (msgs ! k)) (snd (msgs ! k)) \<noteq> None)"
proof -
  let ?st = "st\<lparr>sv_buf := buf\<rparr>"
  have len: "length buf = 1500" using assms(1,2) by (rule server_ok_received)
  have head: "n > 0 \<and> buf ! 0 = x \<longleftrightarrow> d \<noteq> [] \<and> hd d = x" for x
    using assms(1,2) by (cases d) (auto simp: server_ok_def receive_into_def nth_append)
  have panics: "fst (server_loop send it [Inr (d, a)] st) = Panicked \<longleftrightarrow>
      \<not> is_ok (fst (server_datagram send it n a ?st))"
    using assms(2) by (auto split: prod.splits outcome.splits)
  show ?thesis
  proof (cases "d \<noteq> [] \<and> hd d = 253")
    case False
    have "is_ok (fst (server_heartbeat send it a ?st))"
      by (auto simp: server_heartbeat_def udp_send_to_def split: option.split)
    with False head panics show ?thesis by (auto simp: server_datagram_def)
  next
    case True
    let ?w = "sv_map st"
    have no_err: "is_ok (fst (server_pair send i p b s)) \<longleftrightarrow> fst (server_pair send i p b s) \<noteq> Panic" for i p b s
      by (auto simp: server_pair_def udp_send_to_def split: option.split)
    have first: "msgs ! 0 = ([252], a)" "hd msgs = ([252], a)" "0 < length msgs"
      unfolding assms(3) by (auto split: option.split)
    let ?fails = "\<lambda>k. send (sv_sent st @ take k msgs) (fst (msgs ! k)) (snd (msgs ! k)) \<noteq> None"
    have split: "(\<exists>k < length msgs. ?fails k) \<longleftrightarrow> ?fails 0 \<or> (\<exists>k < length msgs. 0 < k \<and> ?fails k)"
      using first(3) by (metis gr0I)
    have "server_datagram send it n a ?st = server_report send a ?st"
      using True head by (simp add: server_datagram_def)
    moreover have "\<not> is_ok (fst (server_report send a ?st)) \<longleftrightarrow>
        ?fails 0 \<or> (\<exists>k < length msgs. 0 < k \<and> ?fails k)"
      using first len no_err server_pair_panics [OF _ assms(3), of
          "st\<lparr>sv_buf := buf, sv_sent := sv_sent st @ [([252], a)], sv_map := ?w(buf_from buf \<mapsto> a)\<rparr>" "sv_sent st" send]
      by (auto simp: server_report_ids udp_send_to_def split: option.split)
    ultimately show ?thesis
      unfolding panics using split True by simp
  qed
qed

theorem server_panics_iff_witness:
  "fst (server_loop (\<lambda>h _ _. if h = [] then None else Some (IoError Other [])) sorted_iter
     [Inr (report_message 1 1, SocketAddrV4 7 70)] server_new) = Panicked"
proof -
  obtain n buf where rb: "receive_into (sv_buf server_new) (report_message 1 1) = (n, buf)"
    by (cases "receive_into (sv_buf server_new) (report_message 1 1)")
  have "buf_from buf = 1" "buf_peer buf = 1"
    using rb by (auto simp: server_new_def receive_into_def buf_from_def buf_peer_def report_message_def u32_from_to_be)
  with server_panics_iff [OF server_ok_new rb refl, where a = "SocketAddrV4 7 70" and it = sorted_iter
      and send = "\<lambda>h _ _. if h = [] then None else Some (IoError Other [])"]
  show ?thesis
    by (auto simp: report_message_def simp del: server_loop.simps intro!: exI [of _ 1])
qed

text \<open>
  An echo that cannot be sent costs the addressee its place: of the ids that wait under the address of
  the heartbeat one is taken out, if there is one, nothing else changes, and the server goes on.
\<close>

theorem failed_heartbeat_forgets:
  assumes "server_ok st" and "iterates_map it" and "send (sv_sent st) [255] a = Some err"
  shows "\<exists>st'. server_loop send it [Inr ([255], a)] st = (Waiting, st') \<and>
    sv_sent st' = sv_sent st @ [([255], a)] \<and>
    (if a \<in> ran (sv_map st) then \<exists>i. sv_map st i = Some a \<and> sv_map st' = (sv_map st)(i := None)
     else sv_map st' = sv_map st)"
proof -
  define buf where "buf = 255 # drop 1 (sv_buf st)"
  let ?st = "st\<lparr>sv_buf := buf, sv_sent := sv_sent st @ [([255], a)]\<rparr>"
  have "receive_into (sv_buf st) [255] = (1, buf)" and "buf ! 0 = 255"
    using assms(1) by (auto simp: receive_into_def server_ok_def buf_def)
  then have run: "server_loop send it [Inr ([255], a)] st =
      (Waiting, case find (\<lambda>i. snd i = a) (it (sv_map st)) of
         Some v \<Rightarrow> ?st\<lparr>sv_map := (sv_map st)(fst v := None)\<rparr> | None \<Rightarrow> ?st)"
    using assms(3)
    by (simp add: server_datagram_def server_heartbeat_def udp_send_to_def split: option.split)
  have it: "distinct (map fst (it (sv_map st)))" "map_of (it (sv_map st)) = sv_map st"
    using assms(1,2) by (auto simp: iterates_map_def server_ok_def)
  show ?thesis
  proof (cases "find (\<lambda>i. snd i = a) (it (sv_map st))")
    case None
    then have "a \<notin> ran (sv_map st)"
      using it by (auto simp: find_None_iff ran_def dest: map_of_SomeD [of "it (sv_map st)"])
        (metis map_of_SomeD snd_conv)
    with None run show ?thesis by (auto simp del: server_loop.simps)
  next
    case (Some v)
    then have v: "v \<in> set (it (sv_map st))" "snd v = a"
      by (auto simp: find_Some_iff)
    then have "sv_map st (fst v) = Some a"
      using it by (metis map_of_is_SomeI prod.collapse)
    moreover from this have "a \<in> ran (sv_map st)" by (auto simp: ran_def)
    ultimately show ?thesis using Some run by (auto simp del: server_loop.simps)
  qed
qed

theorem failed_heartbeat_forgets_witness:
  "\<exists>st'. server_loop (\<lambda>_ _ _. Some (IoError Other [])) sorted_iter [Inr ([255], SocketAddrV4 9 90)]
     (server_new\<lparr>sv_map := [3 \<mapsto> SocketAddrV4 9 90]\<rparr>) = (Waiting, st') \<and> sv_map st' = Map.empty"
proof -
  let ?st = "server_new\<lparr>sv_map := [3 \<mapsto> SocketAddrV4 9 90]\<rparr>"
  have "server_ok ?st" by (simp add: server_ok_def server_new_def)
  from failed_heartbeat_forgets [OF this sorted_iter_iterates, of "\<lambda>_ _ _. Some (IoError Other [])" "SocketAddrV4 9 90"]
  show ?thesis by (auto simp del: server_loop.simps split: if_splits)
qed

end
