(* ===== verification/Nat_Info.thy ===== *)
theory Nat_Info
  imports Net_Types
begin

section \<open>NAT types and the description of a remote peer\<close>

text \<open>\<^verbatim>\<open>NatType\<close> and \<^verbatim>\<open>NatInfo\<close> of \<^verbatim>\<open>src/punch/mod.rs\<close>.\<close>

datatype nat_type = NatSymmetric | NatCone

record nat_info =
  public_ips :: "ip_addr list"
  public_port :: u16
  public_port_range :: u16
  local_ip :: ip_addr
  local_port :: u16
  nat_type :: nat_type

definition nat_info_new ::
    "ip_addr list \<Rightarrow> u16 \<Rightarrow> u16 \<Rightarrow> ip_addr \<Rightarrow> u16 \<Rightarrow> nat_type \<Rightarrow> nat_info" where
  "nat_info_new ips p pr lip lp t =
     \<lparr>public_ips = ips, public_port = p, public_port_range = pr, local_ip = lip,
      local_port = lp, nat_type = t\<rparr>"

end
