(* ===== verification/Channel.thy ===== *)
theory Channel
  imports Sender Nat_Info
begin

section \<open>\<^verbatim>\<open>Channel\<close>: sockets, NAT type, cloning and closing\<close>

text \<open>
  The state and the operations of \<^verbatim>\<open>src/channel/mod.rs\<close>, but for the receive loop. The answers of
  the system (binding, duplicating and registering sockets, creating a poll and a waker, waking)
  are a record of arguments that each call is given afresh.
\<close>

subsection \<open>State and system interface\<close>

record channel =
  ch_flag :: u64
  ch_src_default_udp :: sock
  ch_default_udp :: sock
  udp_list :: "sock list"
  ch_poll :: nat
  poll_reg :: "(nat \<times> sock) list"
  ch_size :: nat

definition DEFAULT_TOKEN :: nat where
  "DEFAULT_TOKEN = DEFAULT_TOKEN_INDEX"

definition CHANGE_TOKEN :: nat where
  "CHANGE_TOKEN = 100001"

text \<open>
  \<open>os_bind n\<close> answers the \<open>n\<close>-th \<^verbatim>\<open>UdpSocket::bind("0.0.0.0:0")\<close> of the call; an \<open>option\<close> is the
  error, if there is one.
\<close>

record os_sockets =
  os_bind :: "nat \<Rightarrow> io_error + sock"
  os_nonblocking :: "sock \<Rightarrow> io_error option"
  os_dup :: "sock \<Rightarrow> io_error + sock"
  os_poll_new :: "io_error + nat"
  os_waker_new :: "nat \<Rightarrow> io_error option"
  os_register :: "nat \<Rightarrow> sock \<Rightarrow> nat \<Rightarrow> io_error option"
  os_wake :: "nat \<Rightarrow> io_error option"

definition lift_sum :: "io_error + 'a \<Rightarrow> 'a outcome" where
  "lift_sum r = (case r of Inl e \<Rightarrow> Err e | Inr x \<Rightarrow> Ok x)"

definition lift_opt :: "io_error option \<Rightarrow> unit outcome" where
  "lift_opt r = (case r of Some e \<Rightarrow> Err e | None \<Rightarrow> Ok ())"

lemma lift_simps [simp]:
  "lift_sum (Inl e) = Err e" "lift_sum (Inr x) = Ok x"
  "lift_opt None = Ok ()" "lift_opt (Some e) = Err e"
  by (simp_all add: lift_sum_def lift_opt_def)

subsection \<open>Creation\<close>

definition channel_new :: "os_sockets \<Rightarrow> nat \<Rightarrow> status \<Rightarrow> (channel \<times> 'id shared) outcome" where
  "channel_new os n st =
     bind_outcome (lift_sum (os_bind os 0)) (\<lambda>src_default_udp.
     bind_outcome (lift_opt (os_nonblocking os src_default_udp)) (\<lambda>_.
     bind_outcome (lift_sum (os_dup os src_default_udp)) (\<lambda>default_udp.
     bind_outcome (lift_sum (os_poll_new os)) (\<lambda>poll.
     bind_outcome (lift_opt (os_waker_new os poll)) (\<lambda>_.
     bind_outcome (lift_opt (os_register os poll default_udp DEFAULT_TOKEN)) (\<lambda>_.
       Ok (\<lparr>ch_flag = 0, ch_src_default_udp = src_default_udp, ch_default_udp = default_udp,
            udp_list = [], ch_poll = poll, poll_reg = [(DEFAULT_TOKEN, default_udp)],
            ch_size = n\<rparr>,
           (shared_new st)\<lparr>change_waker_list := [(0, poll)]\<rparr>)))))))"

definition channel_sender :: "os_sockets \<Rightarrow> channel \<Rightarrow> sender outcome" where
  "channel_sender os ch =
     bind_outcome (lift_sum (os_dup os (ch_src_default_udp ch))) (\<lambda>s.
       Ok \<lparr>sd_default_udp = s\<rparr>)"

subsection \<open>\<^verbatim>\<open>change\<close>: follow the NAT type\<close>

text \<open>The loop that binds the \<open>n\<close> shared sockets; what was bound stays in the list on an error.\<close>

fun bind_udps :: "os_sockets \<Rightarrow> nat \<Rightarrow> nat \<Rightarrow> sock list \<Rightarrow> unit outcome \<times> sock list" where
  "bind_udps os 0 j xs = (Ok (), xs)"
| "bind_udps os (Suc n) j xs =
     (case os_bind os j of
        Inl e \<Rightarrow> (Err e, xs)
      | Inr udp \<Rightarrow>
          (case os_nonblocking os udp of
             Some e \<Rightarrow> (Err e, xs)
           | None \<Rightarrow> bind_udps os n (Suc j) (xs @ [udp])))"

text \<open>
  The loop that clones each shared socket into the channel and registers it under its position; a
  failed registration is ignored, a failed clone is returned.
\<close>

fun clone_udps :: "os_sockets \<Rightarrow> sock list \<Rightarrow> nat \<Rightarrow> channel \<Rightarrow> unit outcome \<times> channel" where
  "clone_udps os [] token ch = (Ok (), ch)"
| "clone_udps os (udp # xs) token ch =
     (case os_dup os udp of
        Inl e \<Rightarrow> (Err e, ch)
      | Inr mio_udp \<Rightarrow>
          clone_udps os xs (token + 1)
            (ch\<lparr>poll_reg := (if os_register os (ch_poll ch) mio_udp token = None
                             then poll_reg ch @ [(token, mio_udp)] else poll_reg ch),
                udp_list := udp_list ch @ [mio_udp]\<rparr>))"

text \<open>
  Deregister and drop every socket handle of the channel's list (the handle at position \<open>t\<close> is the
  one registered under token \<open>t\<close>). A failed \<^verbatim>\<open>deregister\<close> is ignored by the code, and dropping the
  handle ends the registration.
\<close>

definition drop_udps :: "channel \<Rightarrow> channel" where
  "drop_udps ch =
     ch\<lparr>poll_reg := filter (\<lambda>p. vec_get (udp_list ch) (fst p) \<noteq> Some (snd p)) (poll_reg ch),
        udp_list := []\<rparr>"

text \<open>\<open>loaded\<close> is the status that \<^verbatim>\<open>match status.load()\<close> read, before the list is locked.\<close>

definition change_loaded ::
    "status \<Rightarrow> os_sockets \<Rightarrow> channel \<Rightarrow> 'id shared \<Rightarrow> unit outcome \<times> (channel \<times> 'id shared)" where
  "change_loaded loaded os ch sh =
     (case loaded of
        StCone \<Rightarrow> (Ok (), (drop_udps ch, sh\<lparr>share_info := []\<rparr>))
      | StSymmetric \<Rightarrow>
          let (r, xs) = (if share_info sh = [] then bind_udps os (ch_size ch) 0 []
                         else (Ok (), share_info sh));
              sh' = sh\<lparr>share_info := xs\<rparr>
          in case r of
               Ok _ \<Rightarrow>
                 let (r', ch') = clone_udps os xs 0 (drop_udps ch) in (r', (ch', sh'))
             | Err e \<Rightarrow> (Err e, (drop_udps ch, sh'))
             | Panic \<Rightarrow> (Panic, (drop_udps ch, sh'))
      | StClose \<Rightarrow> (Err (IoError Other ''channel close''), (ch, sh)))"

definition change ::
    "os_sockets \<Rightarrow> channel \<Rightarrow> 'id shared \<Rightarrow> unit outcome \<times> (channel \<times> 'id shared)" where
  "change os ch sh = change_loaded (status sh) os ch sh"

subsection \<open>Cloning and dropping\<close>

text \<open>
  \<^verbatim>\<open>try_clone\<close>: the flag is taken first and the waker is pushed before \<^verbatim>\<open>change\<close> can fail; both
  stay when it does.
\<close>

definition channel_try_clone ::
    "os_sockets \<Rightarrow> channel \<Rightarrow> 'id shared \<Rightarrow> channel outcome \<times> 'id shared" where
  "channel_try_clone os ch sh =
     (let flag = channel_flag_gen sh;
          sh1 = sh\<lparr>channel_flag_gen := flag + 1\<rparr> in
      and_then (lift_sum (os_dup os (ch_src_default_udp ch)), sh1) (\<lambda>src sh1.
      and_then (lift_sum (os_dup os src), sh1) (\<lambda>dflt sh1.
      and_then (lift_sum (os_poll_new os), sh1) (\<lambda>poll sh1.
      and_then (lift_opt (os_waker_new os poll), sh1) (\<lambda>_ sh1.
      and_then (lift_opt (os_register os poll dflt DEFAULT_TOKEN), sh1) (\<lambda>_ sh1.
        let sh2 = sh1\<lparr>change_waker_list := change_waker_list sh1 @ [(flag, poll)]\<rparr>;
            fresh = \<lparr>ch_flag = flag, ch_src_default_udp = src, ch_default_udp = dflt,
                     udp_list = [], ch_poll = poll, poll_reg = [(DEFAULT_TOKEN, dflt)],
                     ch_size = ch_size ch\<rparr>;
            (r, (ch', sh3)) = change os fresh sh2
        in case r of
             Ok _ \<Rightarrow> (Ok ch', sh3)
           | Err e \<Rightarrow> (Err e, sh3)
           | Panic \<Rightarrow> (Panic, sh3)))))))"

definition channel_drop :: "channel \<Rightarrow> 'id shared \<Rightarrow> 'id shared" where
  "channel_drop ch sh =
     sh\<lparr>change_waker_list := filter (\<lambda>p. fst p \<noteq> ch_flag ch) (change_waker_list sh)\<rparr>"

subsection \<open>NAT type and closing\<close>

fun wake_all :: "os_sockets \<Rightarrow> (u64 \<times> nat) list \<Rightarrow> 'id shared \<Rightarrow> unit outcome \<times> 'id shared" where
  "wake_all os [] sh = (Ok (), sh)"
| "wake_all os ((flag, waker) # ws) sh =
     (case os_wake os waker of
        Some e \<Rightarrow> (Err e, sh)
      | None \<Rightarrow> wake_all os ws (sh\<lparr>woken := insert waker (woken sh)\<rparr>))"

definition set_nat_type ::
    "os_sockets \<Rightarrow> nat_type \<Rightarrow> 'id shared \<Rightarrow> unit outcome \<times> 'id shared" where
  "set_nat_type os nt sh =
     (case status sh of
        StCone \<Rightarrow>
          if nt = NatSymmetric
          then wake_all os (change_waker_list sh) (sh\<lparr>status := StSymmetric\<rparr>)
          else (Ok (), sh)
      | StSymmetric \<Rightarrow>
          if nt = NatCone
          then wake_all os (change_waker_list sh) (sh\<lparr>status := StCone\<rparr>)
          else (Ok (), sh)
      | StClose \<Rightarrow> (Err (IoError Other ''closed''), sh))"

text \<open>\<open>stun\<close> is the result of \<^verbatim>\<open>stun_test_nat\<close>, the error already turned into an \<^verbatim>\<open>io::Error\<close>.\<close>

definition set_nat_type_with_stun ::
    "os_sockets \<Rightarrow> (nat_type \<times> u32 list \<times> u16) outcome \<Rightarrow> 'id shared
     \<Rightarrow> (nat_type \<times> u32 list \<times> u16) outcome \<times> 'id shared" where
  "set_nat_type_with_stun os stun sh =
     and_then (stun, sh) (\<lambda>(nt, public_ips, port_range) sh.
     and_then (set_nat_type os nt sh) (\<lambda>_ sh.
       (Ok (nt, public_ips, port_range), sh)))"

definition channel_nat_type :: "'id shared \<Rightarrow> nat_type outcome" where
  "channel_nat_type sh =
     (case status sh of
        StCone \<Rightarrow> Ok NatCone
      | StSymmetric \<Rightarrow> Ok NatSymmetric
      | StClose \<Rightarrow> Err (IoError Other ''closed''))"

definition channel_close :: "os_sockets \<Rightarrow> 'id shared \<Rightarrow> unit outcome \<times> 'id shared" where
  "channel_close os sh =
     wake_all os (change_waker_list sh) (unpark (sh\<lparr>status := StClose\<rparr>))"

definition channel_is_close :: "'id shared \<Rightarrow> bool" where
  "channel_is_close sh \<longleftrightarrow> status sh = StClose"

text \<open>\<open>name\<close> is the system's answer to \<^verbatim>\<open>getsockname\<close>.\<close>

definition channel_local_addr :: "(sock \<Rightarrow> io_error + socket_addr) \<Rightarrow> channel \<Rightarrow> socket_addr outcome" where
  "channel_local_addr name ch = lift_sum (name (ch_src_default_udp ch))"

subsection \<open>Sending\<close>

text \<open>
  The channel sends through its own list of sockets, where \<^verbatim>\<open>Sender\<close> uses the shared list, and its
  \<^verbatim>\<open>send_to_addr\<close> refuses on a closed channel.
\<close>

definition channel_send_to_route ::
    "os_send \<Rightarrow> i64 \<Rightarrow> channel \<Rightarrow> bytes \<Rightarrow> route_key \<Rightarrow> 'id shared \<Rightarrow> nat outcome \<times> 'id shared" where
  "channel_send_to_route os now ch buf k sh =
     (let sh1 = sh\<lparr>tables := touch_write k now (tables sh)\<rparr> in
      if rk_index k = DEFAULT_TOKEN_INDEX then
        let (r, h) = send_all_std os (ch_src_default_udp ch) buf (rk_addr k) (calls sh1)
        in (r, sh1\<lparr>calls := h\<rparr>)
      else
        case vec_get (udp_list ch) (rk_index k) of
          Some udp \<Rightarrow>
            let (r, h) = send_all_mio os udp buf (rk_addr k) (calls sh1)
            in (r, sh1\<lparr>calls := h\<rparr>)
        | None \<Rightarrow> (Err not_fount, sh1))"

definition channel_send_to_id ::
    "os_send \<Rightarrow> i64 \<Rightarrow> channel \<Rightarrow> bytes \<Rightarrow> 'id \<Rightarrow> 'id shared \<Rightarrow> nat outcome \<times> 'id shared" where
  "channel_send_to_id os now ch buf i sh =
     (case direct_route_table (tables sh) i of
        None \<Rightarrow> (Err not_fount, sh)
      | Some e \<Rightarrow> channel_send_to_route os now ch buf (route_key e) sh)"

definition channel_send_to_addr ::
    "os_send \<Rightarrow> channel \<Rightarrow> bytes \<Rightarrow> socket_addr \<Rightarrow> 'id shared \<Rightarrow> nat outcome \<times> 'id shared" where
  "channel_send_to_addr os ch buf a sh =
     (if channel_is_close sh then (Err (IoError Other ''closed''), sh)
      else let (r, h) = send_all_std os (ch_src_default_udp ch) buf a (calls sh)
           in (r, sh\<lparr>calls := h\<rparr>))"

subsection \<open>Routes\<close>

definition channel_add_route :: "'id \<Rightarrow> route \<Rightarrow> i64 \<Rightarrow> 'id shared \<Rightarrow> 'id shared" where
  "channel_add_route i r now sh = unpark (sh\<lparr>tables := add_route i r now (tables sh)\<rparr>)"

definition channel_update_route :: "'id \<Rightarrow> u8 \<Rightarrow> i64 \<Rightarrow> 'id shared \<Rightarrow> 'id shared" where
  "channel_update_route i m rt sh = sh\<lparr>tables := update_route i m rt (tables sh)\<rparr>"

definition channel_route :: "'id \<Rightarrow> 'id shared \<Rightarrow> route option" where
  "channel_route i sh = route_of i (tables sh)"

definition channel_remove_route :: "'id \<Rightarrow> 'id shared \<Rightarrow> 'id shared" where
  "channel_remove_route i sh = sh\<lparr>tables := remove_route i (tables sh)\<rparr>"

definition channel_route_to_id :: "route_key \<Rightarrow> 'id shared \<Rightarrow> 'id option" where
  "channel_route_to_id k sh = route_to_id k (tables sh)"

definition channel_route_table ::
    "(('id \<rightharpoonup> route) \<Rightarrow> ('id \<times> route) list) \<Rightarrow> 'id shared \<Rightarrow> ('id \<times> route) list" where
  "channel_route_table it sh = route_table it (tables sh)"

subsection \<open>The punch queues\<close>

text \<open>
  \<^verbatim>\<open>Channel::punch\<close> puts a request on one of two crossbeam channels (\<open>'q\<close>); \<open>try_send\<close> is the
  operation of that crate.
\<close>

datatype try_send_error = Full | Disconnected

record 'q punch_queues =
  cone_queue :: 'q
  symmetric_queue :: 'q

definition channel_punch ::
    "('q \<Rightarrow> 'id \<times> nat_info \<Rightarrow> try_send_error + 'q) \<Rightarrow> 'id \<Rightarrow> nat_info
     \<Rightarrow> 'q punch_queues \<Rightarrow> unit outcome \<times> 'q punch_queues" where
  "channel_punch try_send peer info qs =
     (let rs = (case nat_type info of
                  NatSymmetric \<Rightarrow>
                    (case try_send (symmetric_queue qs) (peer, info) of
                       Inl e \<Rightarrow> Inl e | Inr q \<Rightarrow> Inr (qs\<lparr>symmetric_queue := q\<rparr>))
                | NatCone \<Rightarrow>
                    (case try_send (cone_queue qs) (peer, info) of
                       Inl e \<Rightarrow> Inl e | Inr q \<Rightarrow> Inr (qs\<lparr>cone_queue := q\<rparr>)))
      in case rs of
           Inl Full \<Rightarrow> (Err (IoError Other ''busy''), qs)
         | Inl Disconnected \<Rightarrow> (Err (IoError Other ''closed''), qs)
         | Inr qs' \<Rightarrow> (Ok (), qs'))"

end
