(* ===== verification/Channel_Sync.thy ===== *)
theory Channel_Sync
  imports Channel
begin

section \<open>Several channels over one shared state\<close>

text \<open>
  Cloned channels share the status, the list of sockets and the list of wakers; each has its own
  list of sockets and its own poll. This theory states what the operations of
  \<^theory_text>\<open>Channel\<close> do to the shared state, makes the cloning, dropping, switching
  and waking of any number of channels a step relation, and proves what holds in every reachable
  state.
\<close>

subsection \<open>The operations on the shared state\<close>

lemma wake_all_ok:
  "(\<And>p. os_wake os p = None) \<Longrightarrow>
   wake_all os ws sh = (Ok (), sh\<lparr>woken := woken sh \<union> snd ` set ws\<rparr>)"
  by (induction os ws sh rule: wake_all.induct) (auto simp: insert_commute)

lemma wake_all_frame:
  "wake_all os ws sh = (r, sh') \<Longrightarrow> \<exists>w. woken sh \<subseteq> w \<and> sh' = sh\<lparr>woken := w\<rparr>"
proof (induction os ws sh rule: wake_all.induct)
  case (1 os sh)
  then show ?case by (intro exI [of _ "woken sh"]) simp
next
  case (2 os flag waker ws sh)
  show ?case
  proof (cases "os_wake os waker")
    case None
    with 2 obtain w where "insert waker (woken sh) \<subseteq> w"
      "sh' = sh\<lparr>woken := insert waker (woken sh), woken := w\<rparr>" by auto
    then show ?thesis by (intro exI [of _ w]) simp
  next
    case (Some e)
    with 2 show ?thesis by (intro exI [of _ "woken sh"]) simp
  qed
qed

lemma set_nat_type_frame:
  assumes "set_nat_type os nt sh = (r, sh')"
  shows "\<exists>st w. sh' = sh\<lparr>status := st, woken := w\<rparr> \<and> (status sh = StClose \<longrightarrow> st = StClose)"
proof -
  have same: "\<exists>st w. sh = sh\<lparr>status := st, woken := w\<rparr> \<and> (status sh = StClose \<longrightarrow> st = StClose)"
    by (rule exI [of _ "status sh"], rule exI [of _ "woken sh"]) simp
  show ?thesis
    using assms same
    by (cases "status sh"; cases nt) (auto simp: set_nat_type_def dest!: wake_all_frame)
qed

lemma channel_close_frame:
  assumes "channel_close os sh = (r, sh')"
  shows "\<exists>w. woken sh \<subseteq> w \<and> sh' = sh\<lparr>status := StClose, parked_token := True, woken := w\<rparr>"
proof -
  obtain w where "woken sh \<subseteq> w" and "sh' = sh\<lparr>status := StClose, parked_token := True, woken := w\<rparr>"
    using assms by (auto simp: channel_close_def unpark_def dest!: wake_all_frame)
  then show ?thesis by (intro exI [of _ w] conjI)
qed

definition os_reliable :: "os_sockets \<Rightarrow> bool" where
  "os_reliable os \<longleftrightarrow>
     (\<forall>n. \<exists>s. os_bind os n = Inr s) \<and> (\<forall>s. os_nonblocking os s = None) \<and>
     (\<forall>s. os_dup os s = Inr s) \<and> (\<exists>p. os_poll_new os = Inr p) \<and>
     (\<forall>p. os_waker_new os p = None) \<and> (\<forall>p s t. os_register os p s t = None) \<and>
     (\<forall>p. os_wake os p = None)"

text \<open>\<open>bound os j n\<close>: the sockets that a reliable system gives to the bindings \<open>j, \<dots>, j + n - 1\<close>.\<close>

definition bound :: "os_sockets \<Rightarrow> nat \<Rightarrow> nat \<Rightarrow> sock list" where
  "bound os j n = map (\<lambda>i. projr (os_bind os i)) [j..<j + n]"

lemma bind_udps_ok:
  assumes "os_reliable os"
  shows "bind_udps os n j xs = (Ok (), xs @ bound os j n)"
proof (induction n arbitrary: j xs)
  case 0
  then show ?case by (simp add: bound_def)
next
  case (Suc n)
  obtain s where "os_bind os j = Inr s" "os_nonblocking os s = None"
    using assms unfolding os_reliable_def by blast
  moreover have "[j..<j + Suc n] = j # [Suc j..<Suc j + n]"
    by (simp add: upt_conv_Cons)
  ultimately show ?case
    using Suc.IH [of "Suc j" "xs @ [s]"] by (simp add: bound_def)
qed

lemma length_bound [simp]: "length (bound os j n) = n"
  by (simp add: bound_def)

lemma clone_udps_ok:
  assumes "os_reliable os"
  shows "clone_udps os xs t ch =
    (Ok (), ch\<lparr>poll_reg := poll_reg ch @ enumerate t xs, udp_list := udp_list ch @ xs\<rparr>)"
proof (induction xs arbitrary: t ch)
  case Nil
  then show ?case by simp
next
  case (Cons u us)
  have "os_dup os u = Inr u" "os_register os (ch_poll ch) u t = None"
    using assms unfolding os_reliable_def by blast+
  then show ?case
    using Cons.IH [of "t + 1"] by simp
qed

lemma clone_udps_frame:
  "ch_flag (snd (clone_udps os xs t ch)) = ch_flag ch \<and>
   ch_poll (snd (clone_udps os xs t ch)) = ch_poll ch \<and>
   ch_size (snd (clone_udps os xs t ch)) = ch_size ch"
proof (induction xs arbitrary: t ch)
  case Nil
  then show ?case by simp
next
  case (Cons u us)
  then show ?case by (cases "os_dup os u") simp_all
qed

text \<open>The list of sockets that \<^const>\<open>change\<close> leaves behind on a reliable system.\<close>

definition target_list :: "os_sockets \<Rightarrow> nat \<Rightarrow> 'id shared \<Rightarrow> sock list" where
  "target_list os n sh =
     (case status sh of
        StCone \<Rightarrow> []
      | StSymmetric \<Rightarrow> if share_info sh = [] then bound os 0 n else share_info sh
      | StClose \<Rightarrow> share_info sh)"

lemma change_ok:
  assumes "os_reliable os" and "status sh \<noteq> StClose"
  shows "\<exists>ch'. change os ch sh = (Ok (), (ch', sh\<lparr>share_info := target_list os (ch_size ch) sh\<rparr>)) \<and>
    udp_list ch' = target_list os (ch_size ch) sh \<and>
    ch_flag ch' = ch_flag ch \<and> ch_poll ch' = ch_poll ch \<and> ch_size ch' = ch_size ch"
  using assms
  by (cases "status sh")
    (auto simp: change_def change_loaded_def target_list_def drop_udps_def bind_udps_ok
      clone_udps_ok Let_def)

lemma change_closed:
  "status sh = StClose \<Longrightarrow> change os ch sh = (Err (IoError Other ''channel close''), (ch, sh))"
  by (simp add: change_def change_loaded_def)

lemma drop_udps_frame [simp]:
  "ch_flag (drop_udps ch) = ch_flag ch" "ch_poll (drop_udps ch) = ch_poll ch"
  "ch_size (drop_udps ch) = ch_size ch" "udp_list (drop_udps ch) = []"
  by (simp_all add: drop_udps_def)

lemma change_frame:
  assumes "change_loaded st os ch sh = (r, (ch', sh'))"
  shows "\<exists>xs. sh' = sh\<lparr>share_info := xs\<rparr>"
    and "ch_flag ch' = ch_flag ch \<and> ch_poll ch' = ch_poll ch \<and> ch_size ch' = ch_size ch"
proof -
  let ?b = "if share_info sh = [] then bind_udps os (ch_size ch) 0 [] else (Ok (), share_info sh)"
  obtain r0 xs where b: "?b = (r0, xs)" by (cases ?b)
  obtain r1 ch1 where c: "clone_udps os xs 0 (drop_udps ch) = (r1, ch1)"
    by (cases "clone_udps os xs 0 (drop_udps ch)")
  have same: "ch_flag ch1 = ch_flag ch \<and> ch_poll ch1 = ch_poll ch \<and> ch_size ch1 = ch_size ch"
    using clone_udps_frame [of os xs 0 "drop_udps ch"] c by simp
  have unchanged: "\<exists>xs. s = s\<lparr>share_info := xs\<rparr>" for s :: "'a shared"
    by (rule exI [of _ "share_info s"]) simp
  show "\<exists>xs. sh' = sh\<lparr>share_info := xs\<rparr>"
    using assms b c
    by (cases st; cases r0) (auto simp: change_loaded_def intro: unchanged)
  show "ch_flag ch' = ch_flag ch \<and> ch_poll ch' = ch_poll ch \<and> ch_size ch' = ch_size ch"
    using assms b c same
    by (cases st; cases r0) (auto simp: change_loaded_def)
qed

subsection \<open>The system of channels\<close>

text \<open>
  The live channels are named by their polls. Of the wake-ups that were made, some are pending in the
  system (\<open>woken\<close>); \<open>taken\<close> are the channels whose poll has returned the wake-up, so that it is not pending any more,
  while the receive loop has not come to it; \<open>loaded p\<close> is the status that the thread of channel
  \<open>p\<close> has read inside \<^verbatim>\<open>change\<close> and not acted on yet; \<open>missed\<close> are the channels that left the loop over the events before they
  came to the wake-up, with a datagram or an error, and have not run \<^verbatim>\<open>change\<close> since.
\<close>

record 'id system =
  sys :: "'id shared"
  chans :: "nat \<rightharpoonup> channel"
  taken :: "nat set"
  loaded :: "nat \<rightharpoonup> status"
  missed :: "nat set"

text \<open>
  The steps outside \<^verbatim>\<open>change\<close>: cloning (a poll is a new object, and
  fewer than \<open>2 ^ 64 - 1\<close> flags were taken), dropping, switching the NAT type, closing, traffic
  or route operations, which touch other fields; and in the receive loop, that a poll returns with the wake-up among its
  events (\<open>take\<close>), and that the loop is left before it comes to it (\<open>miss\<close>). \<open>P\<close> says which answers of the system are
  considered.
\<close>

inductive env_step :: "(os_sockets \<Rightarrow> bool) \<Rightarrow> 'id system \<Rightarrow> 'id system \<Rightarrow> bool" for P where
  clone: "\<lbrakk>P os; chans S p = Some c; channel_flag_gen (sys S) \<noteq> -1;
     channel_try_clone os c (sys S) = (Ok c', sh');
     chans S (ch_poll c') = None; ch_poll c' \<notin> woken (sys S); ch_poll c' \<notin> taken S;
     ch_poll c' \<notin> snd ` set (change_waker_list (sys S)); loaded S (ch_poll c') = None\<rbrakk> \<Longrightarrow>
   env_step P S (S\<lparr>sys := sh', chans := (chans S)(ch_poll c' \<mapsto> c')\<rparr>)"
| clone_fails: "\<lbrakk>P os; chans S p = Some c; channel_flag_gen (sys S) \<noteq> -1;
     channel_try_clone os c (sys S) = (Err e, sh')\<rbrakk> \<Longrightarrow>
   env_step P S (S\<lparr>sys := sh'\<rparr>)"
| drop: "\<lbrakk>chans S p = Some c; p \<notin> taken S; loaded S p = None\<rbrakk> \<Longrightarrow>
   env_step P S (S\<lparr>sys := channel_drop c (sys S), chans := (chans S)(p := None), missed := missed S - {p}\<rparr>)"
| set_nat: "\<lbrakk>P os; set_nat_type os nt (sys S) = (r, sh')\<rbrakk> \<Longrightarrow> env_step P S (S\<lparr>sys := sh'\<rparr>)"
| close: "\<lbrakk>P os; channel_close os (sys S) = (r, sh')\<rbrakk> \<Longrightarrow> env_step P S (S\<lparr>sys := sh'\<rparr>)"
| traffic: "env_step P S (S\<lparr>sys := (sys S)\<lparr>tables := t, calls := h, parked_token := b\<rparr>\<rparr>)"
| take: "\<lbrakk>chans S p = Some c; p \<in> woken (sys S); p \<notin> taken S; loaded S p = None\<rbrakk> \<Longrightarrow>
   env_step P S (S\<lparr>sys := (sys S)\<lparr>woken := woken (sys S) - {p}\<rparr>, taken := insert p (taken S)\<rparr>)"
| miss: "p \<in> taken S \<Longrightarrow>
   env_step P S (S\<lparr>taken := taken S - {p}, missed := insert p (missed S)\<rparr>)"

text \<open>
  The receive loop comes to a wake-up and calls \<^verbatim>\<open>change\<close>, which reads the status first and
  locks the shared list afterwards: two steps, and other threads may run between them.
\<close>

inductive sys_step :: "(os_sockets \<Rightarrow> bool) \<Rightarrow> 'id system \<Rightarrow> 'id system \<Rightarrow> bool" for P where
  env: "env_step P S T \<Longrightarrow> sys_step P S T"
| load: "\<lbrakk>chans S p = Some c; p \<in> taken S; loaded S p = None\<rbrakk> \<Longrightarrow>
   sys_step P S (S\<lparr>taken := taken S - {p}, loaded := (loaded S)(p \<mapsto> status (sys S))\<rparr>)"
| act: "\<lbrakk>P os; chans S p = Some c; loaded S p = Some st;
     change_loaded st os c (sys S) = (r, (c', sh'))\<rbrakk> \<Longrightarrow>
   sys_step P S (S\<lparr>sys := sh', chans := (chans S)(p \<mapsto> c'), loaded := (loaded S)(p := None),
                   missed := missed S - {p}\<rparr>)"

text \<open>The same with \<^verbatim>\<open>change\<close> in one step.\<close>

inductive atomic_step :: "(os_sockets \<Rightarrow> bool) \<Rightarrow> 'id system \<Rightarrow> 'id system \<Rightarrow> bool" for P where
  env: "env_step P S T \<Longrightarrow> atomic_step P S T"
| handle: "\<lbrakk>P os; chans S p = Some c; p \<in> taken S; change os c (sys S) = (r, (c', sh'))\<rbrakk> \<Longrightarrow>
   atomic_step P S (S\<lparr>sys := sh', chans := (chans S)(p \<mapsto> c'), taken := taken S - {p},
                      missed := missed S - {p}\<rparr>)"

definition sys_init :: "(os_sockets \<Rightarrow> bool) \<Rightarrow> nat \<Rightarrow> 'id system \<Rightarrow> bool" where
  "sys_init P n S \<longleftrightarrow> (\<exists>os c sh. P os \<and> channel_new os n StCone = Ok (c, sh) \<and>
     S = \<lparr>sys = sh, chans = [ch_poll c \<mapsto> c], taken = {}, loaded = Map.empty, missed = {}\<rparr>)"

subsection \<open>Wakers: the invariant under every system answer and interleaving\<close>

text \<open>
  Every live channel has its waker in the list, under its own flag; no two wakers share a flag;
  the next flag is new.
\<close>

definition wakers_inv :: "nat \<Rightarrow> 'id system \<Rightarrow> bool" where
  "wakers_inv n S \<longleftrightarrow>
     (\<forall>p c. chans S p = Some c \<longrightarrow> ch_poll c = p \<and> ch_size c = n \<and>
        (ch_flag c, p) \<in> set (change_waker_list (sys S))) \<and>
     distinct (map fst (change_waker_list (sys S))) \<and>
     (\<forall>f \<in> fst ` set (change_waker_list (sys S)). f < channel_flag_gen (sys S))"

lemma wakers_inv_init: "sys_init P n S \<Longrightarrow> wakers_inv n S"
  by (auto simp: sys_init_def wakers_inv_def channel_new_def shared_new_def outcome_iff
      split: if_splits)

lemma less_inc_flag:
  assumes "(g :: u64) \<noteq> -1" and "f \<le> g"
  shows "f < g + 1"
proof -
  have "1 + g \<noteq> 0"
    using assms(1) by (metis add_eq_0_iff)
  then have "unat (g + 1) = Suc (unat g)"
    using unatSuc [of g] by (simp add: add.commute)
  with assms(2) show ?thesis
    by (simp add: word_less_nat_alt word_le_nat_alt)
qed

lemma try_clone_cases:
  assumes "channel_try_clone os c sh = (r, sh')"
  shows "(sh' = sh\<lparr>channel_flag_gen := channel_flag_gen sh + 1\<rparr> \<and> (\<forall>c'. r \<noteq> Ok c')) \<or>
    (\<exists>q xs. os_poll_new os = Inr q \<and>
      sh' = sh\<lparr>channel_flag_gen := channel_flag_gen sh + 1,
               change_waker_list := change_waker_list sh @ [(channel_flag_gen sh, q)],
               share_info := xs\<rparr> \<and>
      (\<forall>c'. r = Ok c' \<longrightarrow> ch_flag c' = channel_flag_gen sh \<and> ch_poll c' = q \<and>
                         ch_size c' = ch_size c))"
proof (cases "\<exists>src dflt q. os_dup os (ch_src_default_udp c) = Inr src \<and> os_dup os src = Inr dflt \<and>
    os_poll_new os = Inr q \<and> os_waker_new os q = None \<and> os_register os q dflt DEFAULT_TOKEN = None")
  case False
  then have "sh' = sh\<lparr>channel_flag_gen := channel_flag_gen sh + 1\<rparr> \<and> (\<forall>c'. r \<noteq> Ok c')"
    using assms
    by (auto simp: channel_try_clone_def lift_sum_def lift_opt_def Let_def
        split: sum.splits option.splits)
  then show ?thesis ..
next
  case True
  then obtain src dflt q where os: "os_dup os (ch_src_default_udp c) = Inr src"
    "os_dup os src = Inr dflt" "os_poll_new os = Inr q" "os_waker_new os q = None"
    "os_register os q dflt DEFAULT_TOKEN = None"
    by blast
  let ?sh = "sh\<lparr>channel_flag_gen := channel_flag_gen sh + 1,
      change_waker_list := change_waker_list sh @ [(channel_flag_gen sh, q)]\<rparr>"
  let ?fresh = "\<lparr>ch_flag = channel_flag_gen sh, ch_src_default_udp = src, ch_default_udp = dflt,
      udp_list = [], ch_poll = q, poll_reg = [(DEFAULT_TOKEN, dflt)], ch_size = ch_size c\<rparr>"
  obtain r0 c0 sh0 where ch: "change os ?fresh ?sh = (r0, (c0, sh0))"
    by (cases "change os ?fresh ?sh") auto
  note frame = change_frame [OF ch [unfolded change_def]]
  have res: "sh' = sh0 \<and> (\<forall>c'. r = Ok c' \<longrightarrow> c' = c0)"
    using assms os ch by (cases r0) (auto simp: channel_try_clone_def Let_def)
  from frame(1) obtain xs where "sh0 = ?sh\<lparr>share_info := xs\<rparr>" by blast
  with res frame(2) os(3) show ?thesis
    by (intro disjI2 exI [of _ q] exI [of _ xs]) auto
qed

lemma change_woken: "change os c sh = (r, (c', sh')) \<Longrightarrow> woken sh' = woken sh"
  using change_frame(1) [of "status sh" os c sh r c' sh'] by (auto simp: change_def)

lemma wakers_inv_add:
  assumes "wakers_inv n S" and "channel_flag_gen (sys S) \<noteq> -1"
    and "sh' = (sys S)\<lparr>channel_flag_gen := channel_flag_gen (sys S) + 1,
           change_waker_list := change_waker_list (sys S) @ [(channel_flag_gen (sys S), q)],
           share_info := xs\<rparr>"
  shows "wakers_inv n (S\<lparr>sys := sh'\<rparr>)"
  using assms by (auto simp: wakers_inv_def intro!: less_inc_flag)

lemma wakers_inv_flags_differ:
  assumes "wakers_inv n S" and "chans S p = Some c" and "chans S q = Some d" and "q \<noteq> p"
  shows "ch_flag d \<noteq> ch_flag c"
proof
  assume "ch_flag d = ch_flag c"
  moreover have "(ch_flag c, p) \<in> set (change_waker_list (sys S))"
    and "(ch_flag d, q) \<in> set (change_waker_list (sys S))"
    and "distinct (map fst (change_waker_list (sys S)))"
    using assms(1-3) by (simp_all add: wakers_inv_def)
  ultimately show False
    using assms(4) by (metis eq_key_imp_eq_value)
qed

lemma wakers_inv_env_step:
  assumes "env_step P S T" and "wakers_inv n S"
  shows "wakers_inv n T"
  using assms
proof (cases rule: env_step.cases)
  case (clone os p c c' sh')
  from try_clone_cases [OF clone(5)] obtain q xs where
    sh': "sh' = (sys S)\<lparr>channel_flag_gen := channel_flag_gen (sys S) + 1,
           change_waker_list := change_waker_list (sys S) @ [(channel_flag_gen (sys S), q)],
           share_info := xs\<rparr>"
    and c': "ch_flag c' = channel_flag_gen (sys S)" "ch_poll c' = q" "ch_size c' = ch_size c"
    by auto
  have inv: "wakers_inv n (S\<lparr>sys := sh'\<rparr>)"
    by (rule wakers_inv_add [OF assms(2) clone(4) sh'])
  have "ch_size c = n"
    using assms(2) clone(3) by (simp add: wakers_inv_def)
  with inv c' sh' show ?thesis
    by (auto simp: clone(1) wakers_inv_def)
next
  case (clone_fails os p c e sh')
  from try_clone_cases [OF clone_fails(5)] show ?thesis
  proof
    assume "sh' = (sys S)\<lparr>channel_flag_gen := channel_flag_gen (sys S) + 1\<rparr> \<and> (\<forall>c'. Err e \<noteq> Ok c')"
    with assms(2) clone_fails(1,4) show ?thesis
      by (auto simp: wakers_inv_def intro!: less_inc_flag order.strict_implies_order)
  next
    assume "\<exists>q xs. os_poll_new os = Inr q \<and>
      sh' = (sys S)\<lparr>channel_flag_gen := channel_flag_gen (sys S) + 1,
               change_waker_list := change_waker_list (sys S) @ [(channel_flag_gen (sys S), q)],
               share_info := xs\<rparr> \<and>
      (\<forall>c'. Err e = Ok c' \<longrightarrow> ch_flag c' = channel_flag_gen (sys S) \<and> ch_poll c' = q \<and>
                         ch_size c' = ch_size c)"
    then show ?thesis
      using wakers_inv_add [OF assms(2) clone_fails(4)] clone_fails(1) by blast
  qed
next
  case (drop p c)
  have "ch_flag c' \<noteq> ch_flag c" if "chans S p' = Some c'" "p' \<noteq> p" for p' c'
    using wakers_inv_flags_differ [OF assms(2) drop(2) that] .
  with assms(2) drop(1) show ?thesis
    by (auto simp: wakers_inv_def channel_drop_def distinct_map_filter)
next
  case (set_nat os nt r sh')
  then obtain st w where "sh' = (sys S)\<lparr>status := st, woken := w\<rparr>"
    by (auto dest: set_nat_type_frame)
  with assms(2) set_nat(1) show ?thesis
    by (simp add: wakers_inv_def)
next
  case (close os r sh')
  then obtain w where "sh' = (sys S)\<lparr>status := StClose, parked_token := True, woken := w\<rparr>"
    by (auto dest: channel_close_frame)
  with assms(2) close(1) show ?thesis
    by (simp add: wakers_inv_def)
next
  case traffic
  with assms(2) show ?thesis
    by (simp add: wakers_inv_def)
next
  case (take p c)
  with assms(2) show ?thesis
    by (simp add: wakers_inv_def)
next
  case miss
  with assms(2) show ?thesis
    by (simp add: wakers_inv_def)
qed

lemma wakers_inv_same:
  assumes "wakers_inv n S" and "chans S p = Some c"
    and "ch_flag c' = ch_flag c" "ch_poll c' = ch_poll c" "ch_size c' = ch_size c"
    and "change_waker_list sh' = change_waker_list (sys S)"
    and "channel_flag_gen sh' = channel_flag_gen (sys S)"
    and "sys T = sh'" and "chans T = (chans S)(p \<mapsto> c')"
  shows "wakers_inv n T"
  using assms by (simp add: wakers_inv_def)

lemma wakers_inv_sys_step:
  assumes "wakers_inv n S" and "sys_step P S T"
  shows "wakers_inv n T"
  using assms(2)
proof (cases rule: sys_step.cases)
  case env
  then show ?thesis using assms(1) by (rule wakers_inv_env_step)
next
  case (load p c)
  with assms(1) show ?thesis by (simp add: wakers_inv_def)
next
  case (act os p c st r c' sh')
  from change_frame [OF act(5)] obtain xs where "sh' = (sys S)\<lparr>share_info := xs\<rparr>" by blast
  with wakers_inv_same [OF assms(1) act(3), of c' sh' T] change_frame(2) [OF act(5)] show ?thesis
    by (simp add: act(1))
qed

lemma wakers_inv_atomic_step:
  assumes "wakers_inv n S" and "atomic_step P S T"
  shows "wakers_inv n T"
  using assms(2)
proof (cases rule: atomic_step.cases)
  case env
  then show ?thesis using assms(1) by (rule wakers_inv_env_step)
next
  case (handle os p c r c' sh')
  note frame = change_frame [OF handle(5) [unfolded change_def]]
  from frame(1) obtain xs where "sh' = (sys S)\<lparr>share_info := xs\<rparr>" by blast
  with wakers_inv_same [OF assms(1) handle(3), of c' sh' T] frame(2) show ?thesis
    by (simp add: handle(1))
qed

lemma wakers_inv_reachable: "reachable (sys_init P n) (sys_step P) S \<Longrightarrow> wakers_inv n S"
  by (erule reachable_invariant) (auto intro: wakers_inv_init wakers_inv_sys_step)

subsection \<open>Sockets: the invariant when \<^verbatim>\<open>change\<close> runs undisturbed\<close>

text \<open>
  A channel without a wake-up that is pending, taken or missed has followed the NAT type: its list and the shared list are
  empty on a cone NAT; its list is the shared list, which is full, on a symmetric one.
\<close>

definition synced :: "channel \<Rightarrow> 'id shared \<Rightarrow> bool" where
  "synced c sh \<longleftrightarrow>
     (case status sh of
        StCone \<Rightarrow> udp_list c = [] \<and> share_info sh = []
      | StSymmetric \<Rightarrow> udp_list c = share_info sh \<and> length (share_info sh) = ch_size c
      | StClose \<Rightarrow> True)"

definition sockets_inv :: "nat \<Rightarrow> 'id system \<Rightarrow> bool" where
  "sockets_inv n S \<longleftrightarrow>
     wakers_inv n S \<and>
     (share_info (sys S) = [] \<or> length (share_info (sys S)) = n) \<and>
     (\<forall>p c. chans S p = Some c \<and> p \<notin> woken (sys S) \<union> taken S \<union> missed S \<longrightarrow> synced c (sys S))"

lemma sockets_inv_init: "sys_init P n S \<Longrightarrow> sockets_inv n S"
  unfolding sockets_inv_def
  by (auto intro: wakers_inv_init)
    (auto simp: sys_init_def synced_def channel_new_def shared_new_def outcome_iff split: if_splits)

lemma synced_change:
  assumes "os_reliable os" and "change os c sh = (r, (c', sh'))" and "status sh \<noteq> StClose"
    and "share_info sh = [] \<or> length (share_info sh) = ch_size c"
  shows "synced c' sh'" and "share_info sh' = [] \<or> length (share_info sh') = ch_size c"
  using change_ok [OF assms(1,3), of c] assms(2,4)
  by (auto simp: synced_def target_list_def split: status.splits)

text \<open>What \<^const>\<open>change\<close> on one channel means for the others that were in step.\<close>

lemma synced_others:
  assumes "os_reliable os" and "change os c sh = (r, (c', sh'))"
    and "synced d sh" and "ch_size d = ch_size c"
  shows "synced d sh'"
proof (cases "status sh = StClose")
  case True
  with assms(2,3) show ?thesis by (simp add: change_closed)
next
  case False
  with change_ok [OF assms(1) False, of c] assms(2-4) show ?thesis
    by (auto simp: synced_def target_list_def split: status.splits if_splits)
       (metis bound_def length_0_conv length_bound)+
qed

lemma synced_cong:
  "status sh' = status sh \<Longrightarrow> share_info sh' = share_info sh \<Longrightarrow> synced c sh' = synced c sh"
  by (simp add: synced_def split: status.split)

lemma synced_closed: "status sh = StClose \<Longrightarrow> synced c sh"
  by (simp add: synced_def)

text \<open>On a reliable system, \<^verbatim>\<open>try_clone\<close> is one \<^verbatim>\<open>change\<close> on a fresh channel.\<close>

lemma try_clone_reliable:
  assumes "os_reliable os" and "channel_try_clone os c sh = (r, sh')"
  shows "\<exists>fresh sh2 r0 c0. ch_size fresh = ch_size c \<and>
    status sh2 = status sh \<and> share_info sh2 = share_info sh \<and> woken sh2 = woken sh \<and>
    change os fresh sh2 = (r0, (c0, sh')) \<and> (\<forall>c'. r = Ok c' \<longrightarrow> c' = c0 \<and> r0 = Ok ())"
proof -
  from assms(1) obtain q where os: "\<And>s. os_dup os s = Inr s" "os_poll_new os = Inr q"
    "\<And>p. os_waker_new os p = None" "\<And>p s t. os_register os p s t = None"
    unfolding os_reliable_def by blast
  let ?src = "ch_src_default_udp c"
  let ?sh = "sh\<lparr>channel_flag_gen := channel_flag_gen sh + 1,
      change_waker_list := change_waker_list sh @ [(channel_flag_gen sh, q)]\<rparr>"
  let ?fresh = "\<lparr>ch_flag = channel_flag_gen sh, ch_src_default_udp = ?src, ch_default_udp = ?src,
      udp_list = [], ch_poll = q, poll_reg = [(DEFAULT_TOKEN, ?src)], ch_size = ch_size c\<rparr>"
  obtain r0 c0 sh0 where ch: "change os ?fresh ?sh = (r0, (c0, sh0))"
    by (cases "change os ?fresh ?sh") auto
  have "sh' = sh0 \<and> (\<forall>c'. r = Ok c' \<longrightarrow> c' = c0 \<and> r0 = Ok ())"
    using assms(2) os ch by (cases r0) (auto simp: channel_try_clone_def Let_def)
  with ch show ?thesis
    by (intro exI [of _ ?fresh] exI [of _ ?sh] exI [of _ r0] exI [of _ c0]) simp
qed

lemma sockets_inv_env_step:
  assumes "env_step os_reliable S T" and inv: "sockets_inv n S"
  shows "sockets_inv n T"
proof -
  have w: "wakers_inv n T"
    using assms by (intro wakers_inv_env_step [OF assms(1)]) (simp add: sockets_inv_def)
  have sizes: "ch_size c = n" if "chans S p = Some c" for p c
    using inv that by (simp add: sockets_inv_def wakers_inv_def)
  have share: "share_info (sys S) = [] \<or> length (share_info (sys S)) = n"
    using inv by (simp add: sockets_inv_def)
  have sync: "synced c (sys S)" if "chans S p = Some c" "p \<notin> woken (sys S) \<union> taken S \<union> missed S" for p c
    using inv that unfolding sockets_inv_def by blast
  show ?thesis
    using assms(1)
  proof (cases rule: env_step.cases)
    case (clone os p c c' sh')
    from try_clone_reliable [OF clone(2,5)] obtain fresh sh2 r0 c0 where
      f: "ch_size fresh = ch_size c" "status sh2 = status (sys S)"
        "share_info sh2 = share_info (sys S)" "woken sh2 = woken (sys S)"
        "change os fresh sh2 = (r0, (c0, sh'))" "c' = c0" "r0 = Ok ()"
      by blast
    have st: "status sh2 \<noteq> StClose"
      using f(5,7) change_closed [of sh2 os fresh] by auto
    have sz: "ch_size c = n" by (rule sizes [OF clone(3)])
    have new: "synced c' sh'" and len: "share_info sh' = [] \<or> length (share_info sh') = n"
      using synced_change [OF clone(2) f(5) st] share unfolding f(1,3,6) sz by blast+
    have "synced d sh'" if d: "chans S p' = Some d" "p' \<notin> woken sh' \<union> taken S \<union> missed S" for p' d
    proof -
      have "woken sh' = woken (sys S)"
        using change_woken [OF f(5)] f(4) by (rule trans)
      then have "synced d (sys S)"
        using d by (intro sync [OF d(1)]) simp
      then have "synced d sh2"
        using synced_cong [OF f(2,3)] by simp
      then show ?thesis
        using synced_others [OF clone(2) f(5)] sizes [OF d(1)] f(1) sz by simp
    qed
    with w new len show ?thesis
      by (auto simp: clone(1) sockets_inv_def)
  next
    case (clone_fails os p c e sh')
    from try_clone_reliable [OF clone_fails(2,5)] obtain fresh sh2 r0 c0 where
      f: "ch_size fresh = ch_size c" "status sh2 = status (sys S)"
        "share_info sh2 = share_info (sys S)" "woken sh2 = woken (sys S)"
        "change os fresh sh2 = (r0, (c0, sh'))"
      by blast
    have sz: "ch_size c = n" by (rule sizes [OF clone_fails(3)])
    have wk: "woken sh' = woken (sys S)"
      using change_woken [OF f(5)] f(4) by (rule trans)
    have "share_info sh' = [] \<or> length (share_info sh') = n"
      using synced_change(2) [OF clone_fails(2) f(5)] change_closed [of sh2 os fresh] f share sz
      by (cases "status sh2 = StClose") auto
    moreover have "synced d sh'" if d: "chans S p' = Some d" "p' \<notin> woken sh' \<union> taken S \<union> missed S" for p' d
    proof -
      have "synced d (sys S)"
        using d(2) wk by (intro sync [OF d(1)]) simp
      then have "synced d sh2"
        using synced_cong [OF f(2,3)] by simp
      then show ?thesis
        using synced_others [OF clone_fails(2) f(5)] sizes [OF d(1)] f(1) sz by simp
    qed
    ultimately show ?thesis
      using w by (auto simp: clone_fails(1) sockets_inv_def)
  next
    case (drop p c)
    with w share sync show ?thesis
      by (auto simp: sockets_inv_def channel_drop_def synced_def split: status.splits)
  next
    case (set_nat os nt r sh')
    have ok: "\<And>p. os_wake os p = None"
      using set_nat(2) unfolding os_reliable_def by blast
    have "p \<in> snd ` set (change_waker_list (sys S))" if "chans S p = Some c" for p c
      using inv that by (force simp: sockets_inv_def wakers_inv_def)
    with w share sync set_nat(3) ok show ?thesis
      by (cases "status (sys S)"; cases nt)
        (auto simp: set_nat(1) sockets_inv_def set_nat_type_def wake_all_ok)
  next
    case (close os r sh')
    then obtain wk where "sh' = (sys S)\<lparr>status := StClose, parked_token := True, woken := wk\<rparr>"
      by (auto dest: channel_close_frame)
    with w share show ?thesis
      by (simp add: close(1) sockets_inv_def synced_closed)
  next
    case traffic
    with w share sync show ?thesis
      by (auto simp: sockets_inv_def synced_def split: status.splits)
  next
    case (take p c)
    with w share sync show ?thesis
      by (auto simp: sockets_inv_def synced_def split: status.splits)
  next
    case miss
    with w share sync show ?thesis
      by (auto simp: sockets_inv_def)
  qed
qed

lemma sockets_inv_atomic_step:
  assumes inv: "sockets_inv n S" and "atomic_step os_reliable S T"
  shows "sockets_inv n T"
  using assms(2)
proof (cases rule: atomic_step.cases)
  case env
  then show ?thesis using inv by (rule sockets_inv_env_step)
next
  case (handle os p c r c' sh')
  let ?sh = "sys S"
  have w: "wakers_inv n T"
    using inv assms(2) by (intro wakers_inv_atomic_step [OF _ assms(2)]) (simp add: sockets_inv_def)
  have sizes: "ch_size d = n" if "chans S q = Some d" for q d
    using inv that by (simp add: sockets_inv_def wakers_inv_def)
  have wk: "woken sh' = woken (sys S)"
    using change_woken [OF handle(5)] by simp
  have share: "share_info ?sh = [] \<or> length (share_info ?sh) = ch_size c"
    using inv sizes [OF handle(3)] by (simp add: sockets_inv_def)
  have others: "synced d sh'" if "chans S q = Some d" "q \<notin> woken sh' \<union> (taken S - {p}) \<union> (missed S - {p})" "q \<noteq> p" for q d
  proof -
    have "synced d ?sh"
      using inv that wk by (auto simp: sockets_inv_def)
    then show ?thesis
      using synced_others [OF handle(2,5)] sizes that(1) handle(3) by simp
  qed
  show ?thesis
  proof (cases "status (sys S) = StClose")
    case True
    then have "c' = c" "sh' = ?sh" "status sh' = StClose"
      using handle(5) by (auto simp: change_closed)
    with w inv show ?thesis
      by (simp add: handle(1) sockets_inv_def synced_closed)
  next
    case False
    then have "status ?sh \<noteq> StClose" by simp
    from synced_change [OF handle(2,5) this share] others w sizes [OF handle(3)] show ?thesis
      by (auto simp: handle(1) sockets_inv_def)
  qed
qed

lemma sockets_inv_reachable:
  "reachable (sys_init os_reliable n) (atomic_step os_reliable) S \<Longrightarrow> sockets_inv n S"
  by (erule reachable_invariant) (auto intro: sockets_inv_init sockets_inv_atomic_step)

end
