(* ===== verification/Channel_Props.thy ===== *)
theory Channel_Props
  imports Channel_Sync
begin

section \<open>Properties of the channels\<close>

text \<open>
  What holds of any number of cloned channels in every reachable state, what the operations that
  switch the NAT type and close do, and three behaviours of the code that its callers would not
  expect: a waker left behind, a list left half filled, and a race in \<^verbatim>\<open>change\<close>.
\<close>

subsection \<open>A system that answers every call\<close>

text \<open>For the witnesses: sockets are numbered from \<open>b\<close>, the next poll is \<open>q\<close>.\<close>

definition sample_os :: "nat \<Rightarrow> nat \<Rightarrow> os_sockets" where
  "sample_os b q =
     \<lparr>os_bind = (\<lambda>n. Inr (b + n)), os_nonblocking = (\<lambda>_. None), os_dup = (\<lambda>s. Inr s),
      os_poll_new = Inr q, os_waker_new = (\<lambda>_. None), os_register = (\<lambda>_ _ _. None),
      os_wake = (\<lambda>_. None)\<rparr>"

lemma sample_os_simps [simp]:
  "os_bind (sample_os b q) n = Inr (b + n)" "os_nonblocking (sample_os b q) s = None"
  "os_dup (sample_os b q) s = Inr s" "os_poll_new (sample_os b q) = Inr q"
  "os_waker_new (sample_os b q) p = None" "os_register (sample_os b q) p s t = None"
  "os_wake (sample_os b q) p = None"
  by (simp_all add: sample_os_def)

lemma sample_os_reliable [simp]: "os_reliable (sample_os b q)"
  by (simp add: os_reliable_def)

definition sample_channel :: "nat \<Rightarrow> nat \<Rightarrow> channel" where
  "sample_channel s p =
     \<lparr>ch_flag = 0, ch_src_default_udp = s, ch_default_udp = s, udp_list = [], ch_poll = p,
      poll_reg = [(DEFAULT_TOKEN, s)], ch_size = 1\<rparr>"

definition sample_system :: "'id system" where
  "sample_system =
     \<lparr>sys = (shared_new StCone)\<lparr>change_waker_list := [(0, 0)]\<rparr>,
      chans = [0 \<mapsto> sample_channel 5 0], taken = {}, loaded = Map.empty, missed = {}\<rparr>"

lemma sample_init: "P (sample_os 5 0) \<Longrightarrow> sys_init P 1 sample_system"
  unfolding sys_init_def sample_system_def
  by (rule exI [of _ "sample_os 5 0"], rule exI [of _ "sample_channel 5 0"],
      rule exI [of _ "(shared_new StCone)\<lparr>change_waker_list := [(0, 0)]\<rparr>"])
    (simp add: channel_new_def sample_channel_def)

subsection \<open>Wakers and flags\<close>

text \<open>
  C5: Whatever the system answers and however the threads interleave: every live channel has its
  waker in the shared list under its own flag, no two entries of the list share a flag, and so
  dropping one channel never takes the waker of another out of the list.
\<close>

theorem live_channels_have_wakers:
  assumes "reachable (sys_init (\<lambda>_. True) n) (sys_step (\<lambda>_. True)) S"
    and "chans S p = Some c"
  shows "(ch_flag c, p) \<in> set (change_waker_list (sys S)) \<and>
    distinct (map fst (change_waker_list (sys S))) \<and>
    (\<forall>q d. chans S q = Some d \<and> q \<noteq> p \<longrightarrow>
       (ch_flag d, q) \<in> set (change_waker_list (channel_drop c (sys S))))"
proof -
  have inv: "wakers_inv n S"
    using assms(1) by (rule wakers_inv_reachable)
  have "ch_flag d \<noteq> ch_flag c" if "chans S q = Some d" "q \<noteq> p" for q d
    using wakers_inv_flags_differ [OF inv assms(2) that] .
  with inv assms(2) show ?thesis
    by (auto simp: wakers_inv_def channel_drop_def)
qed

theorem live_channels_have_wakers_witness:
  "(0, 0) \<in> set (change_waker_list (sys (sample_system :: nat system)))"
proof -
  have "reachable (sys_init (\<lambda>_. True) 1) (sys_step (\<lambda>_. True)) (sample_system :: nat system)"
    by (rule reachable.start) (rule sample_init, simp)
  moreover have "chans (sample_system :: nat system) 0 = Some (sample_channel 5 0)"
    by (simp add: sample_system_def)
  ultimately show ?thesis
    using live_channels_have_wakers [of 1 "sample_system :: nat system" 0 "sample_channel 5 0"]
    by (simp add: sample_channel_def)
qed

subsection \<open>Closing\<close>

lemma status_env_step:
  assumes "env_step P S T" and "status (sys S) = StClose"
  shows "status (sys T) = StClose"
  using assms
proof (cases rule: env_step.cases)
  case (clone os p c c' sh')
  from try_clone_cases [OF clone(5)] assms(2) show ?thesis by (auto simp: clone(1))
next
  case (clone_fails os p c e sh')
  from try_clone_cases [OF clone_fails(5)] assms(2) show ?thesis by (auto simp: clone_fails(1))
next
  case (set_nat os nt r sh')
  with assms(2) show ?thesis by (auto dest!: set_nat_type_frame)
next
  case (close os r sh')
  with assms(2) show ?thesis by (auto dest!: channel_close_frame)
qed (simp_all add: channel_drop_def)

lemma status_sys_step:
  assumes "sys_step P S T" and "status (sys S) = StClose"
  shows "status (sys T) = StClose"
  using assms
proof (cases rule: sys_step.cases)
  case (act os p c st r c' sh')
  from change_frame(1) [OF act(5)] assms(2) show ?thesis by (auto simp: act(1))
qed (auto intro: status_env_step)

lemma status_sys_steps:
  "(sys_step P)\<^sup>*\<^sup>* S T \<Longrightarrow> status (sys S) = StClose \<Longrightarrow> status (sys T) = StClose"
  by (induction rule: rtranclp_induct) (auto intro: status_sys_step)

lemma try_clone_closed:
  assumes "status sh = StClose"
  shows "fst (channel_try_clone os c sh) \<noteq> Ok c'"
  using assms
  by (auto simp: channel_try_clone_def lift_sum_def lift_opt_def Let_def change_closed
      split: sum.splits option.splits)

text \<open>
  C28: Closing is final. In every state that any steps of any threads can reach after the status was
  set to closed, the status is closed; setting the NAT type, asking for it and cloning a channel
  fail; and sending to an address through a channel fails without sending anything.
\<close>

theorem close_is_final:
  assumes "(sys_step P)\<^sup>*\<^sup>* S T" and "status (sys S) = StClose"
  shows "channel_is_close (sys T) \<and>
    set_nat_type os nt (sys T) = (Err (IoError Other ''closed''), sys T) \<and>
    channel_nat_type (sys T) = Err (IoError Other ''closed'') \<and>
    channel_send_to_addr snd_os c buf a (sys T) = (Err (IoError Other ''closed''), sys T) \<and>
    (\<forall>c'. fst (channel_try_clone os c (sys T)) \<noteq> Ok c')"
proof -
  have "status (sys T) = StClose"
    using assms by (rule status_sys_steps)
  then show ?thesis
    by (simp add: channel_is_close_def set_nat_type_def channel_nat_type_def
        channel_send_to_addr_def try_clone_closed)
qed

theorem close_is_final_witness:
  "channel_nat_type (snd (channel_close (sample_os 5 0) (sys (sample_system :: nat system)))) =
     Err (IoError Other ''closed'')"
proof -
  let ?S = "sample_system :: nat system"
  let ?T = "?S\<lparr>sys := snd (channel_close (sample_os 5 0) (sys ?S))\<rparr>"
  have closed: "status (sys ?T) = StClose"
    by (simp add: sample_system_def channel_close_def unpark_def)
  have "(sys_step (\<lambda>_. True))\<^sup>*\<^sup>* ?T ?T"
    by simp
  from close_is_final [OF this closed] show ?thesis
    by simp
qed

text \<open>
  C30: Closing, and switching to the other NAT type, leaves every live channel with a pending
  wake-up, so that each of them will run \<^verbatim>\<open>change\<close>; closing also gives the idle thread its token.
  (The system answers the wake-ups; the threads may have interleaved in any way before.)
\<close>

theorem switching_wakes_every_channel:
  assumes "reachable (sys_init (\<lambda>_. True) n) (sys_step (\<lambda>_. True)) S"
    and "chans S p = Some c" and "os_reliable os"
  shows "p \<in> woken (snd (channel_close os (sys S))) \<and>
    parked_token (snd (channel_close os (sys S))) \<and>
    (status (snd (set_nat_type os nt (sys S))) \<noteq> status (sys S) \<longrightarrow>
       p \<in> woken (snd (set_nat_type os nt (sys S))))"
proof -
  have wake: "\<And>p. os_wake os p = None"
    using assms(3) unfolding os_reliable_def by blast
  have "p \<in> snd ` set (change_waker_list (sys S))"
    using wakers_inv_reachable [OF assms(1)] assms(2) by (force simp: wakers_inv_def)
  then show ?thesis
    by (cases "status (sys S)"; cases nt)
      (simp_all add: channel_close_def unpark_def set_nat_type_def wake_all_ok wake)
qed

theorem switching_wakes_every_channel_witness:
  "0 \<in> woken (snd (set_nat_type (sample_os 5 0) NatSymmetric (sys (sample_system :: nat system))))"
proof -
  let ?S = "sample_system :: nat system"
  have r: "reachable (sys_init (\<lambda>_. True) 1) (sys_step (\<lambda>_. True)) ?S"
    by (rule reachable.start) (rule sample_init, simp)
  have "chans ?S 0 = Some (sample_channel 5 0)"
    by (simp add: sample_system_def)
  from switching_wakes_every_channel [OF r this sample_os_reliable, of 5 0 NatSymmetric]
  show ?thesis
    by (simp add: sample_system_def set_nat_type_def shared_new_def)
qed

subsection \<open>Sockets\<close>

lemma send_to_route_agree:
  assumes "udp_list c = share_info sh"
  shows "channel_send_to_route os now c buf k sh =
    sender_send_to_route os now \<lparr>sd_default_udp = ch_src_default_udp c\<rparr> buf k sh"
  using assms
  by (simp add: channel_send_to_route_def sender_send_to_route_def send_all_agree Let_def
      split: option.split)

text \<open>
  C6: As long as \<^verbatim>\<open>change\<close> runs undisturbed and the system answers its calls, in every reachable
  state each channel of an open system that has no wake-up before it (none pending, none that its poll returned and the
  receive loop has yet to come to) and has missed none since it last ran \<^verbatim>\<open>change\<close> (the receive loop returns with a
  datagram that the poll reported before the wake-up, which is lost) has exactly the shared sockets
  in its own list: none on a cone NAT, as many as configured on a symmetric one. There, sending to
  a route through the channel and through a \<^verbatim>\<open>Sender\<close> is the same operation.
\<close>

theorem quiescent_channels_agree:
  assumes "reachable (sys_init os_reliable n) (atomic_step os_reliable) S"
    and "chans S p = Some c" and "p \<notin> woken (sys S) \<union> taken S \<union> missed S" and "status (sys S) \<noteq> StClose"
  shows "udp_list c = share_info (sys S) \<and>
    length (udp_list c) = (if status (sys S) = StSymmetric then n else 0) \<and>
    channel_send_to_route os now c buf k (sys S) =
      sender_send_to_route os now \<lparr>sd_default_udp = ch_src_default_udp c\<rparr> buf k (sys S)"
proof -
  have inv: "sockets_inv n S"
    using assms(1) by (rule sockets_inv_reachable)
  then have "synced c (sys S)" and "ch_size c = n"
    using assms(2,3) unfolding sockets_inv_def wakers_inv_def by blast+
  then have "udp_list c = share_info (sys S)"
    and "length (udp_list c) = (if status (sys S) = StSymmetric then n else 0)"
    using assms(4) by (auto simp: synced_def split: status.splits)
  then show ?thesis
    using send_to_route_agree by blast
qed

text \<open>The sample system after switching to a symmetric NAT: it follows, or misses the wake-up.\<close>

definition sample_switched :: "'id system" where
  "sample_switched =
     \<lparr>sys = (shared_new StSymmetric)\<lparr>change_waker_list := [(0, 0)], share_info := [9]\<rparr>,
      chans = [0 \<mapsto> (sample_channel 5 0)\<lparr>udp_list := [9],
                       poll_reg := [(DEFAULT_TOKEN, 5), (0, 9)]\<rparr>],
      taken = {}, loaded = Map.empty, missed = {}\<rparr>"

lemma sample_taken_reachable:
  "reachable (sys_init os_reliable 1) (atomic_step os_reliable)
     ((sample_system :: 'id system)\<lparr>sys := (sys sample_system)\<lparr>status := StSymmetric\<rparr>, taken := {0}\<rparr>)"
proof (rule reachable.step [OF reachable.step [OF reachable.start]])
  let ?S = "sample_system :: 'id system"
  let ?T = "?S\<lparr>sys := (sys ?S)\<lparr>status := StSymmetric, woken := {0}\<rparr>\<rparr>"
  show "sys_init os_reliable 1 ?S"
    by (rule sample_init) simp
  show "atomic_step os_reliable ?S ?T"
  proof (rule atomic_step.env, rule env_step.set_nat)
    show "set_nat_type (sample_os 5 0) NatSymmetric (sys ?S) =
        (Ok (), (sys ?S)\<lparr>status := StSymmetric, woken := {0}\<rparr>)"
      by (simp add: set_nat_type_def sample_system_def shared_new_def)
  qed simp
  have "atomic_step os_reliable ?T (?T\<lparr>sys := (sys ?T)\<lparr>woken := woken (sys ?T) - {0}\<rparr>, taken := insert 0 (taken ?T)\<rparr>)"
    by (rule atomic_step.env, rule env_step.take) (simp_all add: sample_system_def)
  then show "atomic_step os_reliable ?T (?S\<lparr>sys := (sys ?S)\<lparr>status := StSymmetric\<rparr>, taken := {0}\<rparr>)"
    by (simp add: sample_system_def shared_new_def)
qed

lemma sample_switched_reachable:
  "reachable (sys_init os_reliable 1) (atomic_step os_reliable) (sample_switched :: 'id system)"
proof (rule reachable.step [OF sample_taken_reachable])
  let ?T = "(sample_system :: 'id system)\<lparr>sys := (sys sample_system)\<lparr>status := StSymmetric\<rparr>, taken := {0}\<rparr>"
  have h: "change (sample_os 9 0) (sample_channel 5 0) (sys ?T) =
      (Ok (), (the (chans (sample_switched :: 'id system) 0), sys (sample_switched :: 'id system)))"
    by (simp add: change_def change_loaded_def sample_system_def shared_new_def sample_channel_def
        sample_switched_def drop_udps_def)
  have "atomic_step os_reliable ?T (?T\<lparr>sys := sys sample_switched,
      chans := (chans ?T)(0 \<mapsto> the (chans (sample_switched :: 'id system) 0)),
      taken := taken ?T - {0}, missed := missed ?T - {0}\<rparr>)"
    by (rule atomic_step.handle [OF _ _ _ h]) (simp_all add: sample_system_def)
  then show "atomic_step os_reliable ?T sample_switched"
    by (simp add: sample_system_def sample_switched_def)
qed

text \<open>
  What a missed wake-up costs: an open system can have nothing before it while a channel has not followed the switch
  to the symmetric NAT: it has no sockets, and neither has the shared list, so that nobody listens on the sockets the
  NAT type asks for.
\<close>

theorem missed_wakeup_leaves_behind:
  "\<exists>S :: 'id system. reachable (sys_init os_reliable 1) (atomic_step os_reliable) S \<and>
     woken (sys S) = {} \<and> taken S = {} \<and> status (sys S) = StSymmetric \<and>
     (\<exists>c. chans S 0 = Some c \<and> udp_list c = [] \<and> share_info (sys S) = [])"
proof -
  let ?T = "(sample_system :: 'id system)\<lparr>sys := (sys sample_system)\<lparr>status := StSymmetric\<rparr>, taken := {0}\<rparr>"
  have "atomic_step os_reliable ?T (?T\<lparr>taken := taken ?T - {0}, missed := insert 0 (missed ?T)\<rparr>)"
    by (rule atomic_step.env, rule env_step.miss) simp
  note reach = reachable.step [OF sample_taken_reachable this]
  show ?thesis
  proof (rule exI, rule conjI)
    show "reachable (sys_init os_reliable 1) (atomic_step os_reliable)
        (?T\<lparr>taken := taken ?T - {0}, missed := insert 0 (missed ?T)\<rparr>)"
      by (rule reach)
  qed (simp add: sample_system_def shared_new_def sample_channel_def)
qed

theorem quiescent_channels_agree_witness:
  "udp_list (the (chans (sample_switched :: nat system) 0)) = [9] \<and>
   length (share_info (sys (sample_switched :: nat system))) = 1"
proof -
  let ?S = "sample_switched :: nat system"
  have c: "chans ?S 0 = Some (the (chans ?S 0))"
    by (simp add: sample_switched_def)
  have "0 \<notin> woken (sys ?S) \<union> taken ?S \<union> missed ?S" and "status (sys ?S) \<noteq> StClose"
    by (simp_all add: sample_switched_def shared_new_def)
  from quiescent_channels_agree [OF sample_switched_reachable c this]
  show ?thesis
    by (simp add: sample_switched_def shared_new_def)
qed

subsection \<open>Three behaviours to know about\<close>

text \<open>
  Cloning a channel that was closed fails, but only after the waker of the clone was pushed on
  the shared list: the entry stays, with a flag that no channel has, so no drop removes it.
\<close>

theorem closed_clone_leaves_waker:
  assumes "status sh = StClose" and "os_reliable os" and "os_poll_new os = Inr q"
  shows "channel_try_clone os c sh =
    (Err (IoError Other ''channel close''),
     sh\<lparr>channel_flag_gen := channel_flag_gen sh + 1,
        change_waker_list := change_waker_list sh @ [(channel_flag_gen sh, q)]\<rparr>) \<and>
    (\<forall>d. ch_flag d \<noteq> channel_flag_gen sh \<longrightarrow>
       (channel_flag_gen sh, q) \<in>
         set (change_waker_list (channel_drop d (snd (channel_try_clone os c sh)))))"
proof -
  have os: "\<And>s. os_dup os s = Inr s" "\<And>p. os_waker_new os p = None"
    "\<And>p s t. os_register os p s t = None"
    using assms(2) unfolding os_reliable_def by blast+
  have "channel_try_clone os c sh =
    (Err (IoError Other ''channel close''),
     sh\<lparr>channel_flag_gen := channel_flag_gen sh + 1,
        change_waker_list := change_waker_list sh @ [(channel_flag_gen sh, q)]\<rparr>)"
    using assms(1,3) os by (simp add: channel_try_clone_def Let_def change_closed)
  then show ?thesis
    by (simp add: channel_drop_def)
qed

theorem closed_clone_leaves_waker_witness:
  "change_waker_list (snd (channel_try_clone (sample_os 5 3) (sample_channel 5 0)
     (shared_new StClose :: nat shared))) = [(1, 3)]"
  using closed_clone_leaves_waker [of "shared_new StClose :: nat shared" "sample_os 5 3" 3
      "sample_channel 5 0"]
  by (simp add: shared_new_def)

lemma bind_udps_partial:
  assumes "\<And>j. j < m \<Longrightarrow> os_bind os (k + j) = Inr (f j)" and "\<And>s. os_nonblocking os s = None"
    and "os_bind os (k + m) = Inl e" and "m < n"
  shows "bind_udps os n k xs = (Err e, xs @ map f [0..<m])"
  using assms
proof (induction m arbitrary: n k xs f)
  case 0
  then show ?case by (cases n) simp_all
next
  case (Suc m)
  then obtain n' where n: "n = Suc n'" by (cases n) simp_all
  have "os_bind os k = Inr (f 0)"
    using Suc.prems(1) [of 0] by simp
  moreover have "bind_udps os n' (Suc k) (xs @ [f 0]) =
      (Err e, (xs @ [f 0]) @ map (\<lambda>j. f (Suc j)) [0..<m])"
    using Suc.prems(1) [of "Suc _"] Suc.prems(2-4) n
    by (intro Suc.IH) simp_all
  moreover have "map f [0..<Suc m] = f 0 # map (\<lambda>j. f (Suc j)) [0..<m]"
    by (simp add: upt_conv_Cons map_Suc_upt [symmetric] del: upt_Suc)
  ultimately show ?case
    using Suc.prems(2) n by simp
qed

text \<open>
  If binding the sockets of a symmetric NAT fails after \<open>m > 0\<close> of them, the error is returned
  but the \<open>m\<close> sockets stay in the shared list, and the next \<^verbatim>\<open>change\<close> takes the half-filled list for
  a full one: it succeeds, and the channel works with fewer sockets than configured.
\<close>

theorem partial_bind_sticks:
  assumes "status sh = StSymmetric" and "share_info sh = []"
    and "\<And>j. j < m \<Longrightarrow> os_bind os j = Inr (f j)" and "\<And>s. os_nonblocking os s = None"
    and "os_bind os m = Inl e" and "0 < m" and "m < ch_size c" and "os_reliable os'"
  shows "case change os c sh of (r, (c1, sh1)) \<Rightarrow>
    r = Err e \<and> udp_list c1 = [] \<and> share_info sh1 = map f [0..<m] \<and>
    (case change os' c1 sh1 of (r2, (c2, sh2)) \<Rightarrow>
      r2 = Ok () \<and> udp_list c2 = map f [0..<m] \<and> length (udp_list c2) < ch_size c)"
proof -
  have "bind_udps os (ch_size c) 0 [] = (Err e, map f [0..<m])"
    using bind_udps_partial [of m os 0 f e "ch_size c" "[]"] assms(3-5,7) by simp
  then have first: "change os c sh = (Err e, (drop_udps c, sh\<lparr>share_info := map f [0..<m]\<rparr>))"
    using assms(1,2) by (simp add: change_def change_loaded_def)
  let ?sh = "sh\<lparr>share_info := map f [0..<m]\<rparr>"
  have "map f [0..<m] \<noteq> []"
    using assms(6) by simp
  then have "target_list os' (ch_size (drop_udps c)) ?sh = map f [0..<m]"
    using assms(1) by (simp add: target_list_def)
  moreover have "status ?sh \<noteq> StClose"
    using assms(1) by simp
  ultimately show ?thesis
    using first change_ok [OF assms(8), of ?sh "drop_udps c"] assms(7) by auto
qed

theorem partial_bind_sticks_witness:
  "udp_list (fst (snd (change (sample_os 20 0) ((sample_channel 5 0)\<lparr>ch_size := 3\<rparr>)
      ((shared_new StSymmetric :: nat shared)\<lparr>share_info := [7]\<rparr>)))) = [7]"
proof -
  let ?os = "(sample_os 7 0)\<lparr>os_bind := (\<lambda>n. if n = 0 then Inr 7 else Inl (IoError Other ''in use''))\<rparr>"
  let ?c = "(sample_channel 5 0)\<lparr>ch_size := 3\<rparr>"
  let ?sh = "shared_new StSymmetric :: nat shared"
  have "case change ?os ?c ?sh of (r, (c1, sh1)) \<Rightarrow>
    r = Err (IoError Other ''in use'') \<and> udp_list c1 = [] \<and> share_info sh1 = map (\<lambda>_. 7) [0..<1] \<and>
    (case change (sample_os 20 0) c1 sh1 of (r2, (c2, sh2)) \<Rightarrow>
      r2 = Ok () \<and> udp_list c2 = map (\<lambda>_. 7) [0..<1] \<and> length (udp_list c2) < ch_size ?c)"
    by (rule partial_bind_sticks) (simp_all add: shared_new_def sample_os_def os_reliable_def)
  then show ?thesis
    by (simp add: change_def change_loaded_def shared_new_def sample_channel_def drop_udps_def
        numeral_3_eq_3)
qed

text \<open>
  The race. Two channels, \<open>0\<close> and \<open>2\<close>, both listening on the symmetric NAT's socket 7.
\<close>

definition race_channel :: "u64 \<Rightarrow> nat \<Rightarrow> sock list \<Rightarrow> (nat \<times> sock) list \<Rightarrow> channel" where
  "race_channel f p us reg =
     \<lparr>ch_flag = f, ch_src_default_udp = 5, ch_default_udp = 5, udp_list = us, ch_poll = p,
      poll_reg = (DEFAULT_TOKEN, 5) # reg, ch_size = 1\<rparr>"

definition race_state ::
    "status \<Rightarrow> sock list \<Rightarrow> nat set \<Rightarrow> channel \<Rightarrow> channel \<Rightarrow> (nat \<rightharpoonup> status) \<Rightarrow> 'id system" where
  "race_state st share w c0 c1 l =
     \<lparr>sys = (shared_new st)\<lparr>share_info := share, channel_flag_gen := 2,
              change_waker_list := [(0, 0), (1, 2)], woken := w\<rparr>,
      chans = [0 \<mapsto> c0, 2 \<mapsto> c1], taken = {}, loaded = l, missed = {}\<rparr>"

lemmas race_defs = race_state_def race_channel_def shared_new_def

lemma race_clone:
  "env_step os_reliable (sample_system :: 'id system)
     (race_state StCone [] {} (race_channel 0 0 [] []) (race_channel 1 2 [] []) Map.empty)"
proof -
  let ?S = "sample_system :: 'id system"
  let ?sh = "(sys ?S)\<lparr>channel_flag_gen := 2, change_waker_list := [(0, 0), (1, 2)]\<rparr>"
  have c: "channel_try_clone (sample_os 5 2) (sample_channel 5 0) (sys ?S) =
      (Ok (race_channel 1 2 [] []), ?sh)"
    by (simp add: channel_try_clone_def change_def change_loaded_def sample_system_def
        sample_channel_def drop_udps_def race_defs Let_def)
  have "env_step os_reliable ?S (?S\<lparr>sys := ?sh,
      chans := (chans ?S)(ch_poll (race_channel 1 2 [] []) \<mapsto> race_channel 1 2 [] [])\<rparr>)"
    by (rule env_step.clone [OF _ _ _ c])
      (simp_all add: sample_system_def sample_channel_def race_defs)
  then show ?thesis
    by (simp add: sample_system_def sample_channel_def race_defs fun_upd_twist)
qed

lemma race_switch:
  assumes "w \<subseteq> {0, 2}"
    and "(st, nt, st') \<in> {(StCone, NatSymmetric, StSymmetric), (StSymmetric, NatCone, StCone)}"
  shows "sys_step os_reliable (race_state st share w c0 c1 l :: 'id system)
    (race_state st' share {0, 2} c0 c1 l)"
proof -
  let ?S = "race_state st share w c0 c1 l :: 'id system"
  let ?sh = "(sys ?S)\<lparr>status := st', woken := {0, 2}\<rparr>"
  have wake: "wake_all (sample_os 5 0) [(0, 0), (1, 2)] sh = (Ok (), sh\<lparr>woken := {0, 2}\<rparr>)"
    if "woken sh = w" for sh :: "'id shared"
  proof -
    have "woken sh \<union> snd ` set [(0 :: u64, 0 :: nat), (1, 2)] = {0, 2}"
      using assms(1) that by auto
    then show ?thesis
      using wake_all_ok [of "sample_os 5 0" "[(0, 0), (1, 2)]" sh] by simp
  qed
  have *: "set_nat_type (sample_os 5 0) nt (sys ?S) = (Ok (), ?sh)"
  proof (cases "st = StCone")
    case True
    with assms(2) have "nt = NatSymmetric" "st' = StSymmetric" by auto
    with True show ?thesis
      by (simp add: set_nat_type_def race_state_def shared_new_def wake del: wake_all.simps)
  next
    case False
    with assms(2) have "st = StSymmetric" "nt = NatCone" "st' = StCone" by auto
    then show ?thesis
      by (simp add: set_nat_type_def race_state_def shared_new_def wake del: wake_all.simps)
  qed
  have "env_step os_reliable ?S (?S\<lparr>sys := ?sh\<rparr>)"
    by (rule env_step.set_nat [where P = os_reliable, OF sample_os_reliable *])
  then show ?thesis
    by (intro sys_step.env) (simp add: race_state_def shared_new_def)
qed

text \<open>The poll of a channel returns the wake-up, and \<^verbatim>\<open>change\<close> reads the status.\<close>

lemma race_load:
  assumes "p \<in> {0, 2}" and "p \<in> w" and "l p = None"
  shows "(sys_step os_reliable)\<^sup>*\<^sup>* (race_state st share w c0 c1 l :: 'id system)
    (race_state st share (w - {p}) c0 c1 (l(p \<mapsto> st)))"
proof -
  let ?S = "race_state st share w c0 c1 l :: 'id system"
  let ?T = "race_state st share (w - {p}) c0 c1 l\<lparr>taken := {p}\<rparr> :: 'id system"
  obtain c where c: "chans ?S p = Some c" "chans ?T p = Some c"
    using assms(1) by (auto simp: race_state_def)
  have "sys_step os_reliable ?S ?T"
    using sys_step.env [OF env_step.take [OF c(1), of os_reliable]] assms(2,3)
    by (simp add: race_state_def shared_new_def)
  moreover have "sys_step os_reliable ?T (race_state st share (w - {p}) c0 c1 (l(p \<mapsto> st)))"
    using sys_step.load [OF c(2), of os_reliable] assms(3)
    by (simp add: race_state_def shared_new_def)
  ultimately show ?thesis by (meson converse_rtranclp_into_rtranclp r_into_rtranclp)
qed

lemma race_act0:
  assumes "l 0 = Some st'" and "os_reliable os"
    and "change_loaded st' os c0 (sys (race_state st share w c0 c1 l :: 'id system)) =
      (Ok (), (c0', sys (race_state st share' w c0 c1 l)))"
  shows "sys_step os_reliable (race_state st share w c0 c1 l :: 'id system)
    (race_state st share' w c0' c1 (l(0 := None)))"
  using sys_step.act [where P = os_reliable and p = 0, OF assms(2) _ _ assms(3)] assms(1)
  by (simp add: race_state_def fun_upd_twist)

lemma race_act1:
  assumes "l 2 = Some st'" and "os_reliable os"
    and "change_loaded st' os c1 (sys (race_state st share w c0 c1 l :: 'id system)) =
      (Ok (), (c1', sys (race_state st share' w c0 c1 l)))"
  shows "sys_step os_reliable (race_state st share w c0 c1 l :: 'id system)
    (race_state st share' w c0 c1' (l(2 := None)))"
  using sys_step.act [where P = os_reliable and p = 2, OF assms(2) _ _ assms(3)] assms(1)
  by (simp add: race_state_def)

text \<open>One channel follows the symmetric NAT: it reads the status, then takes or fills the list.\<close>

lemma race_follow0:
  assumes "0 \<in> w" and "l 0 = None" and "us = [] \<or> us = [x]"
    and "share = [] \<and> y = b \<or> share = [y]"
  shows "(sys_step os_reliable)\<^sup>*\<^sup>*
    (race_state StSymmetric share w (race_channel 0 0 us (enumerate 0 us)) c1 l :: 'id system)
    (race_state StSymmetric [y] (w - {0}) (race_channel 0 0 [y] [(0, y)]) c1 l)"
proof -
  let ?c = "race_channel 0 0 us (enumerate 0 us)" and ?l = "l(0 \<mapsto> StSymmetric)"
  have "change_loaded StSymmetric (sample_os b 0) ?c
      (sys (race_state StSymmetric share (w - {0}) ?c c1 ?l :: 'id system)) =
      (Ok (), (race_channel 0 0 [y] [(0, y)], sys (race_state StSymmetric [y] (w - {0}) ?c c1 ?l)))"
    using assms(3,4) by (auto simp: change_loaded_def drop_udps_def vec_get_def race_defs
        DEFAULT_TOKEN_def DEFAULT_TOKEN_INDEX_def)
  then have "sys_step os_reliable (race_state StSymmetric share (w - {0}) ?c c1 ?l :: 'id system)
      (race_state StSymmetric [y] (w - {0}) (race_channel 0 0 [y] [(0, y)]) c1 (?l(0 := None)))"
    by (intro race_act0) simp_all
  moreover have "?l(0 := None) = l"
    using assms(2) by auto
  moreover have "(sys_step os_reliable)\<^sup>*\<^sup>* (race_state StSymmetric share w ?c c1 l :: 'id system)
      (race_state StSymmetric share (w - {0}) ?c c1 ?l)"
    by (rule race_load) (use assms(1,2) in simp_all)
  ultimately show ?thesis
    by (metis (no_types, lifting) rtranclp.rtrancl_into_rtrancl)
qed

lemma race_follow1:
  assumes "2 \<in> w" and "l 2 = None" and "us = [] \<or> us = [y]"
  shows "(sys_step os_reliable)\<^sup>*\<^sup>*
    (race_state StSymmetric [y] w c0 (race_channel 1 2 us (enumerate 0 us)) l :: 'id system)
    (race_state StSymmetric [y] (w - {2}) c0 (race_channel 1 2 [y] [(0, y)]) l)"
proof -
  let ?c = "race_channel 1 2 us (enumerate 0 us)" and ?l = "l(2 \<mapsto> StSymmetric)"
  have "change_loaded StSymmetric (sample_os 0 0) ?c
      (sys (race_state StSymmetric [y] (w - {2}) c0 ?c ?l :: 'id system)) =
      (Ok (), (race_channel 1 2 [y] [(0, y)], sys (race_state StSymmetric [y] (w - {2}) c0 ?c ?l)))"
    using assms(3) by (auto simp: change_loaded_def drop_udps_def vec_get_def race_defs
        DEFAULT_TOKEN_def DEFAULT_TOKEN_INDEX_def)
  then have "sys_step os_reliable (race_state StSymmetric [y] (w - {2}) c0 ?c ?l :: 'id system)
      (race_state StSymmetric [y] (w - {2}) c0 (race_channel 1 2 [y] [(0, y)]) (?l(2 := None)))"
    by (intro race_act1) simp_all
  moreover have "?l(2 := None) = l"
    using assms(2) by auto
  moreover have "(sys_step os_reliable)\<^sup>*\<^sup>* (race_state StSymmetric [y] w c0 ?c l :: 'id system)
      (race_state StSymmetric [y] (w - {2}) c0 ?c ?l)"
    by (rule race_load) (use assms(1,2) in simp_all)
  ultimately show ?thesis
    by (metis (no_types, lifting) rtranclp.rtrancl_into_rtrancl)
qed

lemma race_both_follow:
  "reachable (sys_init os_reliable 1) (sys_step os_reliable)
     (race_state StSymmetric [7] {} (race_channel 0 0 [7] [(0, 7)]) (race_channel 1 2 [7] [(0, 7)])
       Map.empty :: 'id system)"
proof -
  let ?R = "reachable (sys_init os_reliable 1) (sys_step os_reliable) :: 'id system \<Rightarrow> bool"
  have "?R sample_system"
    by (intro reachable.start sample_init) simp
  then have "?R (race_state StCone [] {} (race_channel 0 0 [] []) (race_channel 1 2 [] []) Map.empty)"
    by (rule reachable.step) (intro sys_step.env race_clone)
  then have "?R (race_state StSymmetric [] {0, 2} (race_channel 0 0 [] []) (race_channel 1 2 [] [])
      Map.empty)"
    by (rule reachable.step) (rule race_switch [of _ _ NatSymmetric], simp_all)
  then have "?R (race_state StSymmetric [7] ({0, 2} - {0}) (race_channel 0 0 [7] [(0, 7)])
      (race_channel 1 2 [] []) Map.empty)"
    by (rule reachable_steps [rotated]) (use race_follow0 [of "{0, 2}" Map.empty "[]" 0 "[]" 7 7] in simp_all)
  then have "?R (race_state StSymmetric [7] ({0, 2} - {0} - {2}) (race_channel 0 0 [7] [(0, 7)])
      (race_channel 1 2 [7] [(0, 7)]) Map.empty)"
    by (rule reachable_steps [rotated]) (use race_follow1 [of "{0, 2} - {0}" Map.empty "[]" 7] in simp_all)
  moreover have "{0, 2} - {0} - {2 :: nat} = {}" by auto
  ultimately show ?thesis by simp
qed

lemma race_final:
  "reachable (sys_init os_reliable 1) (sys_step os_reliable)
     (race_state StSymmetric [8] {} (race_channel 0 0 [8] [(0, 8)]) (race_channel 1 2 [7] [(0, 7)])
       Map.empty :: 'id system)"
proof -
  let ?R = "reachable (sys_init os_reliable 1) (sys_step os_reliable) :: 'id system \<Rightarrow> bool"
  let ?a = "race_channel 0 0 [7] [(0, 7)]" and ?b = "race_channel 1 2 [7] [(0, 7)]"
  have "?R (race_state StCone [7] {0, 2} ?a ?b Map.empty)"
    by (rule reachable.step [OF race_both_follow]) (rule race_switch [of _ _ NatCone], simp_all)
  then have "?R (race_state StCone [7] ({0, 2} - {0}) ?a ?b [0 \<mapsto> StCone])"
    by (rule reachable_steps [rotated]) (rule race_load, simp_all)
  then have "?R (race_state StSymmetric [7] {0, 2} ?a ?b [0 \<mapsto> StCone])"
    by (rule reachable.step) (rule race_switch [of _ _ NatSymmetric], auto)
  then have "?R (race_state StSymmetric [7] ({0, 2} - {2}) ?a ?b [0 \<mapsto> StCone])"
    by (rule reachable_steps [rotated]) (use race_follow1 [of "{0, 2}" "[0 \<mapsto> StCone]" "[7]" 7] in simp_all)
  then have "?R (race_state StSymmetric [] ({0, 2} - {2}) (race_channel 0 0 [] []) ?b Map.empty)"
    by (rule reachable.step)
      (use race_act0 [of "[0 \<mapsto> StCone]" StCone "sample_os 0 0" ?a StSymmetric "[7]" "{0, 2} - {2}"
          ?b "race_channel 0 0 [] []" "[]"] in
        \<open>simp add: change_loaded_def drop_udps_def vec_get_def race_defs DEFAULT_TOKEN_def
          DEFAULT_TOKEN_INDEX_def\<close>)
  then have "?R (race_state StSymmetric [8] ({0, 2} - {2} - {0}) (race_channel 0 0 [8] [(0, 8)]) ?b
      Map.empty)"
    by (rule reachable_steps [rotated]) (use race_follow0 [of "{0, 2} - {2}" Map.empty "[]" 0 "[]" 8 8] in simp_all)
  moreover have "{0, 2} - {2} - {0 :: nat} = {}" by auto
  ultimately show ?thesis by simp
qed

lemma sends_from_listed:
  assumes "udp_list c = [u]" and "calls sh = []"
  shows "\<exists>n. sends (calls (snd (channel_send_to_route os now c buf (RouteKey 0 a) sh))) = replicate (Suc n) (u, buf, a)"
  using std_socket.sends_after [of os u buf a "[]"] assms
  by (auto simp: channel_send_to_route_def send_all_agree vec_get_def DEFAULT_TOKEN_INDEX_def case_prod_beta)

lemma sender_sends_from_shared:
  assumes "share_info sh = [u]" and "calls sh = []"
  shows "\<exists>n. sends (calls (snd (sender_send_to_route os now sd buf (RouteKey 0 a) sh))) = replicate (Suc n) (u, buf, a)"
  using std_socket.sends_after [of os u buf a "[]"] assms
  by (auto simp: sender_send_to_route_def vec_get_def DEFAULT_TOKEN_INDEX_def case_prod_beta)

text \<open>
  C35: A race in \<^verbatim>\<open>change\<close>: the status is read before the shared list is locked. A channel that has
  read "cone" can be overtaken by a switch back to the symmetric NAT and then empties the list that
  the other channel has just taken. The system reaches a state, with nothing left to do and no wake-up missed, in which
  of two channels of a symmetric NAT one has the list of the shared socket and the other a list of a
  socket that is not shared any more: datagrams for the same route go out from one socket through the first and through every
  \<^verbatim>\<open>Sender\<close>, and from another one through the second.
\<close>

theorem change_race:
  "\<exists>(S :: 'id system) c d. reachable (sys_init os_reliable 1) (sys_step os_reliable) S \<and>
     woken (sys S) = {} \<and> taken S = {} \<and> missed S = {} \<and> loaded S = Map.empty \<and> status (sys S) = StSymmetric \<and>
     chans S = [0 \<mapsto> c, 2 \<mapsto> d] \<and> share_info (sys S) = [8] \<and> udp_list c = [8] \<and> udp_list d = [7] \<and>
     (\<forall>os now sd buf a.
        (\<exists>n. sends (calls (snd (channel_send_to_route os now c buf (RouteKey 0 a) (sys S)))) = replicate (Suc n) (8, buf, a)) \<and>
        (\<exists>n. sends (calls (snd (sender_send_to_route os now sd buf (RouteKey 0 a) (sys S)))) = replicate (Suc n) (8, buf, a)) \<and>
        (\<exists>n. sends (calls (snd (channel_send_to_route os now d buf (RouteKey 0 a) (sys S)))) = replicate (Suc n) (7, buf, a)))"
proof -
  let ?c = "race_channel 0 0 [8] [(0, 8)]" and ?d = "race_channel 1 2 [7] [(0, 7)]"
  let ?S = "race_state StSymmetric [8] {} ?c ?d Map.empty :: 'id system"
  have fields: "woken (sys ?S) = {}" "taken ?S = {}" "missed ?S = {}" "loaded ?S = Map.empty" "status (sys ?S) = StSymmetric"
    "chans ?S = [0 \<mapsto> ?c, 2 \<mapsto> ?d]" "share_info (sys ?S) = [8]" "calls (sys ?S) = []" "udp_list ?c = [8]" "udp_list ?d = [7]"
    by (simp_all add: race_defs)
  show ?thesis
  proof (rule exI [of _ ?S], rule exI [of _ ?c], rule exI [of _ ?d], intro conjI allI)
    show "reachable (sys_init os_reliable 1) (sys_step os_reliable) ?S" by (rule race_final)
  qed (rule fields sends_from_listed [OF fields(9,8)] sender_sends_from_shared [OF fields(7,8)]
      sends_from_listed [OF fields(10,8)])+
qed

end
