(* ===== verification/Recv.thy ===== *)
theory Recv
  imports Channel_Props
begin

section \<open>The receive loop\<close>

text \<open>
  \<^verbatim>\<open>Channel::recv_from\<close> of \<^verbatim>\<open>src/channel/mod.rs\<close>. The answers of the system are arguments: the
  \<open>n\<close>-th \<^verbatim>\<open>recv_from\<close> on a socket, the \<open>k\<close>-th \<^verbatim>\<open>Poll::poll\<close> (the tokens of its events, and what the
  other threads did to the shared state while it waited), the clock. The loop may run for ever, so
  it takes fuel, one unit for each round.
\<close>

subsection \<open>The loop\<close>

record 'id recv_env =
  os_recv :: "nat \<Rightarrow> sock \<Rightarrow> io_error + (bytes \<times> socket_addr)"
  os_poll :: "nat \<Rightarrow> 'id shared \<Rightarrow> (io_error + nat list) \<times> 'id shared"
  os_clock :: "nat \<Rightarrow> i64"
  os_change :: "nat \<Rightarrow> os_sockets"

type_synonym received = "(bytes \<times> route_key) outcome"

text \<open>
  \<^verbatim>\<open>udp_recv_\<close>: \<open>t\<close> counts the calls of \<^verbatim>\<open>recv_from\<close>; \<open>None\<close> is "would block". The bytes are the
  part of the buffer that was filled.
\<close>

definition udp_recv ::
    "'id recv_env \<Rightarrow> sock \<Rightarrow> nat \<Rightarrow> nat \<Rightarrow> 'id shared \<Rightarrow> received option \<times> 'id shared" where
  "udp_recv env udp index t sh =
     (case os_recv env t udp of
        Inr (data, addr) \<Rightarrow>
          (Some (Ok (data, RouteKey index addr)),
           sh\<lparr>tables := touch_read (RouteKey index addr) (os_clock env t) (tables sh)\<rparr>)
      | Inl e \<Rightarrow> if err_kind e \<noteq> WouldBlock then (Some (Err e), sh) else (None, sh))"

text \<open>The sockets of the channel's own list, from position \<open>index\<close> on.\<close>

fun recv_list ::
    "'id recv_env \<Rightarrow> sock list \<Rightarrow> nat \<Rightarrow> nat \<Rightarrow> 'id shared \<Rightarrow> received option \<times> nat \<times> 'id shared" where
  "recv_list env [] index t sh = (None, t, sh)"
| "recv_list env (udp # us) index t sh =
     (case udp_recv env udp index t sh of
        (Some rs, sh') \<Rightarrow> (Some rs, t + 1, sh')
      | (None, sh') \<Rightarrow> recv_list env us (index + 1) (t + 1) sh')"

text \<open>
  The events of one poll, in order: the first that gives a datagram or an error returns. A token
  names the default socket or a position of the list; a position that is gone is skipped.
\<close>

definition event_socket :: "channel \<Rightarrow> nat \<Rightarrow> (nat \<times> sock) option" where
  "event_socket ch token =
     (if token = DEFAULT_TOKEN then Some (DEFAULT_TOKEN_INDEX, ch_default_udp ch)
      else map_option (\<lambda>udp. (token, udp)) (vec_get (udp_list ch) token))"

fun recv_events ::
    "'id recv_env \<Rightarrow> nat list \<Rightarrow> nat \<Rightarrow> channel \<Rightarrow> 'id shared
     \<Rightarrow> received option \<times> nat \<times> channel \<times> 'id shared" where
  "recv_events env [] t ch sh = (None, t, ch, sh)"
| "recv_events env (token # es) t ch sh =
     (if token = CHANGE_TOKEN then
        (case change (os_change env t) ch sh of
           (Ok _, (ch', sh')) \<Rightarrow> recv_events env es (t + 1) ch' sh'
         | (Err e, (ch', sh')) \<Rightarrow> (Some (Err e), t + 1, ch', sh')
         | (Panic, (ch', sh')) \<Rightarrow> (Some Panic, t + 1, ch', sh'))
      else
        (case event_socket ch token of
           None \<Rightarrow> recv_events env es t ch sh
         | Some (index, udp) \<Rightarrow>
             (case udp_recv env udp index t sh of
                (Some rs, sh') \<Rightarrow> (Some rs, t + 1, ch, sh')
              | (None, sh') \<Rightarrow> recv_events env es (t + 1) ch sh')))"

text \<open>One round of the loop; \<open>k\<close> counts the polls.\<close>

definition recv_round ::
    "'id recv_env \<Rightarrow> nat \<Rightarrow> nat \<Rightarrow> channel \<Rightarrow> 'id shared
     \<Rightarrow> received option \<times> nat \<times> channel \<times> 'id shared" where
  "recv_round env k t ch sh =
     (case udp_recv env (ch_default_udp ch) DEFAULT_TOKEN_INDEX t sh of
        (Some rs, sh1) \<Rightarrow> (Some rs, t + 1, ch, sh1)
      | (None, sh1) \<Rightarrow>
          (case recv_list env (udp_list ch) 0 (t + 1) sh1 of
             (Some rs, t2, sh2) \<Rightarrow> (Some rs, t2, ch, sh2)
           | (None, t2, sh2) \<Rightarrow>
               (case os_poll env k sh2 of
                  (Inl e, sh3) \<Rightarrow> (Some (Err e), t2, ch, sh3)
                | (Inr es, sh3) \<Rightarrow>
                    if es = [] then (Some (Err (IoError WouldBlock ''timeout'')), t2, ch, sh3)
                    else recv_events env es t2 ch sh3)))"

fun recv_from ::
    "nat \<Rightarrow> 'id recv_env \<Rightarrow> nat \<Rightarrow> nat \<Rightarrow> channel \<Rightarrow> 'id shared
     \<Rightarrow> (received \<times> nat \<times> channel \<times> 'id shared) option" where
  "recv_from 0 env k t ch sh = None"
| "recv_from (Suc fuel) env k t ch sh =
     (case recv_round env k t ch sh of
        (Some rs, t', ch', sh') \<Rightarrow> Some (rs, t', ch', sh')
      | (None, t', ch', sh') \<Rightarrow> recv_from fuel env (k + 1) t' ch' sh')"

subsection \<open>Lemmas\<close>

lemma recv_from_mono:
  "recv_from fuel env k t ch sh = Some r \<Longrightarrow> recv_from (fuel + d) env k t ch sh = Some r"
  by (induction fuel arbitrary: k t ch sh) (auto split: prod.splits option.splits)

text \<open>
  What receiving keeps of the shared state: a predicate that survives a store to a read clock, a new list
  of sockets and what the others do while the poll waits, survives the whole call.
\<close>

definition recv_keeps :: "('id shared \<Rightarrow> bool) \<Rightarrow> 'id recv_env \<Rightarrow> bool" where
  "recv_keeps J env \<longleftrightarrow>
     (\<forall>sh k now. J sh \<longrightarrow> J (sh\<lparr>tables := touch_read k now (tables sh)\<rparr>)) \<and>
     (\<forall>sh xs. J sh \<longrightarrow> J (sh\<lparr>share_info := xs\<rparr>)) \<and>
     (\<forall>sh k. J sh \<longrightarrow> J (snd (os_poll env k sh)))"

lemma udp_recv_keeps: "recv_keeps J env \<Longrightarrow> J sh \<Longrightarrow> J (snd (udp_recv env udp index t sh))"
  by (auto simp: udp_recv_def recv_keeps_def split: sum.split)

lemma recv_list_keeps: "recv_keeps J env \<Longrightarrow> J sh \<Longrightarrow> J (snd (snd (recv_list env us index t sh)))"
proof (induction us arbitrary: index t sh)
  case Nil
  then show ?case by simp
next
  case (Cons udp us)
  from udp_recv_keeps [OF Cons.prems, of udp index t] Cons.IH [OF Cons.prems(1)] show ?case
    by (auto split: prod.split option.split)
qed

lemma recv_events_keeps: "recv_keeps J env \<Longrightarrow> J sh \<Longrightarrow> J (snd (snd (snd (recv_events env es t ch sh))))"
proof (induction env es t ch sh rule: recv_events.induct)
  case (1 env t ch sh)
  then show ?case by simp
next
  case (2 env token es t ch sh)
  obtain r c1 sh1 where c: "change (os_change env t) ch sh = (r, (c1, sh1))"
    by (cases "change (os_change env t) ch sh") auto
  then obtain xs where "sh1 = sh\<lparr>share_info := xs\<rparr>"
    using change_frame(1) unfolding change_def by blast
  with 2(4,5) have "J sh1" by (simp add: recv_keeps_def)
  moreover have "J (snd (udp_recv env udp index t sh))" for udp index
    using 2(4,5) by (rule udp_recv_keeps)
  ultimately show ?case
    using 2 c by (auto split: outcome.split option.split prod.split) (metis snd_conv)+
qed

lemma recv_round_keeps:
  assumes "recv_keeps J env" and "J sh"
  shows "J (snd (snd (snd (recv_round env k t ch sh))))"
proof -
  obtain q1 sh1 where u: "udp_recv env (ch_default_udp ch) DEFAULT_TOKEN_INDEX t sh = (q1, sh1)"
    by fastforce
  obtain q2 t2 sh2 where l: "recv_list env (udp_list ch) 0 (t + 1) sh1 = (q2, t2, sh2)"
    by (cases "recv_list env (udp_list ch) 0 (t + 1) sh1") auto
  obtain q3 sh3 where p: "os_poll env k sh2 = (q3, sh3)"
    by fastforce
  have "J sh1" "J sh2" "J sh3"
    using udp_recv_keeps [OF assms, of "ch_default_udp ch" DEFAULT_TOKEN_INDEX t]
      recv_list_keeps [OF assms(1), of sh1 "udp_list ch" 0 "t + 1"] assms(1) u l p
    by (auto simp: recv_keeps_def) (metis snd_conv)
  with recv_events_keeps [OF assms(1), of sh3] u l p show ?thesis
    by (auto simp: recv_round_def split: option.split sum.split)
qed

lemma recv_from_keeps:
  assumes "recv_keeps J env" and "J sh" and "recv_from fuel env k t ch sh = Some (r, t', ch', sh')"
  shows "J sh'"
  using assms(2,3)
proof (induction fuel arbitrary: k t ch sh)
  case 0
  then show ?case by simp
next
  case (Suc fuel)
  with recv_round_keeps [OF assms(1) Suc.prems(1), of k t ch] show ?case
    by (auto split: prod.splits option.splits)
qed

text \<open>
  \<open>genuine\<close>: a received datagram was given by the system on the socket that the returned index
  names, and the read clock of its key, if the key is in the table, is the time of that call.
\<close>

definition genuine :: "'id recv_env \<Rightarrow> received \<Rightarrow> channel \<Rightarrow> 'id shared \<Rightarrow> bool" where
  "genuine env rs ch sh \<longleftrightarrow>
     (\<forall>data k. rs = Ok (data, k) \<longrightarrow>
        (\<exists>t udp. os_recv env t udp = Inr (data, rk_addr k) \<and>
           (rk_index k = DEFAULT_TOKEN_INDEX \<and> udp = ch_default_udp ch \<or>
            vec_get (udp_list ch) (rk_index k) = Some udp) \<and>
           (\<forall>e. direct_route_table_time (tables sh) k = Some e \<longrightarrow> te_read e = os_clock env t)))"

lemma udp_recv_genuine:
  assumes "udp_recv env udp index t sh = (Some rs, sh')"
    and "index = DEFAULT_TOKEN_INDEX \<and> udp = ch_default_udp ch \<or> vec_get (udp_list ch) index = Some udp"
  shows "genuine env rs ch sh'"
proof (cases "os_recv env t udp")
  case (Inl e)
  with assms(1) show ?thesis
    by (auto simp: udp_recv_def genuine_def split: if_splits)
next
  case (Inr r)
  then obtain data addr where r: "os_recv env t udp = Inr (data, addr)"
    by (cases r) simp
  have clock: "te_read e = os_clock env t"
    if "direct_route_table_time (touch_read k (os_clock env t) tb) k = Some e" for k e and tb :: "'a tables"
    using that by (auto simp: touch_read_def split: option.splits)
  from assms(1) r have "rs = Ok (data, RouteKey index addr)"
    and "sh' = sh\<lparr>tables := touch_read (RouteKey index addr) (os_clock env t) (tables sh)\<rparr>"
    by (auto simp: udp_recv_def)
  with r assms(2) clock show ?thesis
    unfolding genuine_def by (intro allI impI exI [of _ t] exI [of _ udp]) auto
qed

lemma recv_list_genuine:
  assumes "recv_list env us index t sh = (Some rs, t', sh')"
    and "\<And>i. i < length us \<Longrightarrow> vec_get (udp_list ch) (index + i) = Some (us ! i)"
  shows "genuine env rs ch sh'"
  using assms
proof (induction us arbitrary: index t sh)
  case Nil
  then show ?case by simp
next
  case (Cons udp us)
  have pos: "vec_get (udp_list ch) index = Some udp"
    using Cons.prems(2) [of 0] by simp
  have rest: "vec_get (udp_list ch) (index + 1 + i) = Some (us ! i)" if "i < length us" for i
    using Cons.prems(2) [of "Suc i"] that by simp
  obtain q sh1 where u: "udp_recv env udp index t sh = (q, sh1)" by (cases "udp_recv env udp index t sh")
  show ?case
  proof (cases q)
    case None
    with Cons.prems(1) u have "recv_list env us (index + 1) (t + 1) sh1 = (Some rs, t', sh')" by simp
    then show ?thesis using rest by (rule Cons.IH)
  next
    case (Some rs0)
    with Cons.prems(1) u have "udp_recv env udp index t sh = (Some rs, sh')" by simp
    with pos show ?thesis by (intro udp_recv_genuine) auto
  qed
qed

lemma not_ok_genuine: "(\<And>x. rs \<noteq> Ok x) \<Longrightarrow> genuine env rs ch sh"
  by (simp add: genuine_def)

lemma recv_events_genuine:
  assumes "recv_events env es t ch sh = (Some rs, t', ch', sh')"
  shows "genuine env rs ch' sh'"
  using assms
proof (induction env es t ch sh rule: recv_events.induct)
  case (1 env t ch sh)
  then show ?case by simp
next
  case (2 env token es t ch sh)
  show ?case
  proof (cases "token = CHANGE_TOKEN")
    case True
    obtain r c1 sh1 where c: "change (os_change env t) ch sh = (r, (c1, sh1))"
      by (cases "change (os_change env t) ch sh") auto
    with True 2 show ?thesis
      by (cases r) (auto intro: not_ok_genuine)
  next
    case False
    show ?thesis
    proof (cases "event_socket ch token")
      case None
      with False 2 show ?thesis by simp
    next
      case (Some d)
      then obtain index udp where d: "event_socket ch token = Some (index, udp)" by (cases d) simp
      then have pos: "index = DEFAULT_TOKEN_INDEX \<and> udp = ch_default_udp ch \<or>
          vec_get (udp_list ch) index = Some udp"
        by (auto simp: event_socket_def split: if_splits)
      obtain q sh1 where u: "udp_recv env udp index t sh = (q, sh1)"
        by (cases "udp_recv env udp index t sh")
      show ?thesis
      proof (cases q)
        case None
        with False d u 2 show ?thesis by simp
      next
        case (Some rs0)
        with False d u 2 have "udp_recv env udp index t sh = (Some rs, sh')" and "ch' = ch"
          by auto
        with pos show ?thesis by (metis udp_recv_genuine)
      qed
    qed
  qed
qed

lemma recv_round_genuine:
  assumes "recv_round env k t ch sh = (Some rs, t', ch', sh')"
  shows "genuine env rs ch' sh'"
proof -
  obtain q1 sh1 where u: "udp_recv env (ch_default_udp ch) DEFAULT_TOKEN_INDEX t sh = (q1, sh1)"
    by (cases "udp_recv env (ch_default_udp ch) DEFAULT_TOKEN_INDEX t sh")
  obtain q2 t2 sh2 where l: "recv_list env (udp_list ch) 0 (t + 1) sh1 = (q2, t2, sh2)"
    by (cases "recv_list env (udp_list ch) 0 (t + 1) sh1") auto
  consider (first) "q1 \<noteq> None" | (list) "q1 = None" "q2 \<noteq> None" | (poll) "q1 = None" "q2 = None"
    by blast
  then show ?thesis
  proof cases
    case first
    with assms u show ?thesis
      by (auto simp: recv_round_def intro: udp_recv_genuine)
  next
    case list
    with assms u l have "recv_list env (udp_list ch) 0 (t + 1) sh1 = (Some rs, t', sh')" "ch' = ch"
      by (auto simp: recv_round_def)
    then show ?thesis
      by (metis recv_list_genuine add_0 vec_get_def)
  next
    case poll
    obtain p sh3 where "os_poll env k sh2 = (p, sh3)" by (cases "os_poll env k sh2")
    with poll assms u l show ?thesis
      by (cases p) (auto simp: recv_round_def intro: not_ok_genuine recv_events_genuine split: if_splits)
  qed
qed

lemma recv_from_genuine:
  "recv_from fuel env k t ch sh = Some (rs, t', ch', sh') \<Longrightarrow> genuine env rs ch' sh'"
proof (induction fuel arbitrary: k t ch sh)
  case 0
  then show ?case by simp
next
  case (Suc fuel)
  obtain q t1 c1 sh1 where r: "recv_round env k t ch sh = (q, t1, c1, sh1)"
    by (cases "recv_round env k t ch sh") auto
  with Suc show ?case
    by (cases q) (auto intro: recv_round_genuine)
qed

text \<open>
  \<open>quiet env t ch n\<close>: the first \<open>n\<close> sockets of the channel, tried in order from call \<open>t\<close> on, would
  block.
\<close>

definition all_sockets :: "channel \<Rightarrow> sock list" where
  "all_sockets ch = ch_default_udp ch # udp_list ch"

definition blocks :: "'id recv_env \<Rightarrow> nat \<Rightarrow> sock \<Rightarrow> bool" where
  "blocks env t s \<longleftrightarrow> (\<exists>m. os_recv env t s = Inl (IoError WouldBlock m))"

definition quiet :: "'id recv_env \<Rightarrow> nat \<Rightarrow> channel \<Rightarrow> nat \<Rightarrow> bool" where
  "quiet env t ch n \<longleftrightarrow> (\<forall>i < n. blocks env (t + i) (all_sockets ch ! i))"

lemma udp_recv_blocks: "blocks env t s \<Longrightarrow> udp_recv env s index t sh = (None, sh)"
  by (auto simp: blocks_def udp_recv_def)

lemma recv_list_blocks:
  assumes "\<And>i. i < length us \<Longrightarrow> blocks env (t + i) (us ! i)"
  shows "recv_list env (us @ vs) index t sh = recv_list env vs (index + length us) (t + length us) sh"
  using assms
proof (induction us arbitrary: index t)
  case Nil
  then show ?case by simp
next
  case (Cons u us)
  have "blocks env t u"
    using Cons.prems [of 0] by simp
  moreover have "blocks env (t + 1 + i) (us ! i)" if "i < length us" for i
    using Cons.prems [of "Suc i"] that by simp
  ultimately show ?case
    using Cons.IH [of "t + 1" "index + 1"] by (simp add: udp_recv_blocks)
qed

lemma recv_round_first:
  "udp_recv env (ch_default_udp ch) DEFAULT_TOKEN_INDEX t sh = (Some rs, sh') \<Longrightarrow>
   recv_round env k t ch sh = (Some rs, t + 1, ch, sh')"
  by (simp add: recv_round_def)

lemma quiet_default: "quiet env t ch (Suc n) \<Longrightarrow> blocks env t (ch_default_udp ch)"
  by (auto simp: quiet_def all_sockets_def dest: spec [of _ 0])

lemma quiet_list: "quiet env t ch (Suc n) \<Longrightarrow> i < n \<Longrightarrow> blocks env (t + 1 + i) (udp_list ch ! i)"
  by (auto simp: quiet_def all_sockets_def dest: spec [of _ "Suc i"])

lemma recv_round_list:
  assumes "quiet env t ch (Suc j)" and "j < length (udp_list ch)"
    and "udp_recv env (udp_list ch ! j) j (t + 1 + j) sh = (Some rs, sh')"
  shows "recv_round env k t ch sh = (Some rs, t + j + 2, ch, sh')"
proof -
  let ?us = "take j (udp_list ch)"
  have len: "length ?us = j" using assms(2) by simp
  have list: "udp_list ch = ?us @ (udp_list ch ! j # drop (Suc j) (udp_list ch))"
    using assms(2) by (simp add: id_take_nth_drop)
  have "blocks env (t + 1 + i) (?us ! i)" if "i < length ?us" for i
    using quiet_list [OF assms(1), of i] that len by simp
  then have "recv_list env (udp_list ch) 0 (t + 1) sh =
      recv_list env (udp_list ch ! j # drop (Suc j) (udp_list ch)) j (t + 1 + j) sh"
    using recv_list_blocks [of ?us env "t + 1" "udp_list ch ! j # drop (Suc j) (udp_list ch)" 0 sh]
    by (simp only: list [symmetric] len add_0)
  with assms(3) udp_recv_blocks [OF quiet_default [OF assms(1)]] show ?thesis
    by (simp add: recv_round_def)
qed

lemma recv_round_quiet:
  assumes "quiet env t ch (length (all_sockets ch))"
  shows "recv_round env k t ch sh =
    (case os_poll env k sh of
       (Inl e, sh') \<Rightarrow> (Some (Err e), t + length (all_sockets ch), ch, sh')
     | (Inr es, sh') \<Rightarrow>
         if es = []
         then (Some (Err (IoError WouldBlock ''timeout'')), t + length (all_sockets ch), ch, sh')
         else recv_events env es (t + length (all_sockets ch)) ch sh')"
proof -
  have q: "quiet env t ch (Suc (length (udp_list ch)))"
    using assms by (simp add: all_sockets_def)
  have "recv_list env (udp_list ch) 0 (t + 1) sh = (None, t + 1 + length (udp_list ch), sh)"
    using recv_list_blocks [of "udp_list ch" env "t + 1" "[]" 0 sh] quiet_list [OF q] by simp
  with udp_recv_blocks [OF quiet_default [OF q]] show ?thesis
    by (simp add: recv_round_def all_sockets_def split: prod.split sum.split)
qed

subsection \<open>Properties\<close>

text \<open>
  C8: A received datagram is genuine: the bytes and the source address are what the system gave on
  the socket that the returned key names (the default socket, or the one at that position of the
  channel's list when the call returns), and the read clock of the key, if the key is in the
  table, is the time of that reception.
\<close>

theorem received_datagram_genuine:
  assumes "recv_from fuel env k t ch sh = Some (Ok (data, key), t', ch', sh')"
  shows "(\<exists>t udp. os_recv env t udp = Inr (data, rk_addr key) \<and>
      (rk_index key = DEFAULT_TOKEN_INDEX \<and> udp = ch_default_udp ch' \<or>
       vec_get (udp_list ch') (rk_index key) = Some udp) \<and>
      (\<forall>e. direct_route_table_time (tables sh') key = Some e \<longrightarrow> te_read e = os_clock env t))"
  using recv_from_genuine [OF assms] by (simp add: genuine_def)

text \<open>
  A system for the witnesses: the socket \<open>s\<close> has the datagram \<open>d\<close> at call \<open>n\<close>, all else blocks; the
  polls give the listed events and time out after them.
\<close>

definition sample_env :: "nat \<Rightarrow> sock \<Rightarrow> bytes \<Rightarrow> nat list list \<Rightarrow> 'id recv_env" where
  "sample_env n s d polls =
     \<lparr>os_recv = (\<lambda>t u. if t = n \<and> u = s then Inr (d, SockV4 7 8) else Inl (IoError WouldBlock [])),
      os_poll = (\<lambda>k sh. (Inr (if k < length polls then polls ! k else []), sh)),
      os_clock = (\<lambda>_. 40), os_change = (\<lambda>_. sample_os 9 9)\<rparr>"

lemma blocks_sample_env [simp]: "blocks (sample_env n s d polls) t u \<longleftrightarrow> \<not> (t = n \<and> u = s)"
  by (simp add: blocks_def sample_env_def)

theorem received_datagram_genuine_witness:
  "os_recv (sample_env 0 5 [1, 2] [] :: nat recv_env) 0 5 = Inr ([1, 2], SockV4 7 8)"
proof -
  have "recv_from 1 (sample_env 0 5 [1, 2] [] :: nat recv_env) 0 0 (sample_channel 5 0)
      (shared_new StCone) =
    Some (Ok ([1, 2], RouteKey DEFAULT_TOKEN_INDEX (SockV4 7 8)), 1, sample_channel 5 0,
      shared_new StCone)"
    by (simp add: recv_round_def udp_recv_def sample_env_def sample_channel_def shared_new_def
        touch_read_def tables_new_def)
  from received_datagram_genuine [OF this] obtain t udp
    where "os_recv (sample_env 0 5 [1, 2] [] :: nat recv_env) t udp = Inr ([1, 2], SockV4 7 8)"
    by auto
  then show ?thesis
    by (auto simp: sample_env_def split: if_splits)
qed

text \<open>
  A waiting datagram is taken before anything is polled: if socket \<open>j\<close> of the channel (0 the
  default socket, then its list in order) is the first that does not block and gives a datagram,
  that datagram is returned in the first round, under the default index or the position in the
  list, with the read clock of its key set; no event is consumed.
\<close>

theorem waiting_datagram_first:
  assumes "quiet env t ch j" and "j < length (all_sockets ch)"
    and "os_recv env (t + j) (all_sockets ch ! j) = Inr (data, a)"
  defines "key \<equiv> RouteKey (if j = 0 then DEFAULT_TOKEN_INDEX else j - 1) a"
  shows "recv_from (Suc fuel) env k t ch sh =
    Some (Ok (data, key), t + j + 1, ch, sh\<lparr>tables := touch_read key (os_clock env (t + j)) (tables sh)\<rparr>)"
proof (cases j)
  case 0
  with assms show ?thesis
    by (simp add: all_sockets_def recv_round_first udp_recv_def)
next
  case (Suc i)
  with assms have "i < length (udp_list ch)"
    and "os_recv env (t + 1 + i) (udp_list ch ! i) = Inr (data, a)"
    by (simp_all add: all_sockets_def)
  with assms(1) Suc show ?thesis
    by (simp add: recv_round_list udp_recv_def key_def)
qed

theorem waiting_datagram_first_witness:
  "recv_from 1 (sample_env 1 9 [3] [] :: nat recv_env) 0 0 ((sample_channel 5 0)\<lparr>udp_list := [9]\<rparr>)
     (shared_new StSymmetric) =
   Some (Ok ([3], RouteKey 0 (SockV4 7 8)), 2, (sample_channel 5 0)\<lparr>udp_list := [9]\<rparr>,
     shared_new StSymmetric)"
proof -
  let ?ch = "(sample_channel 5 0)\<lparr>udp_list := [9]\<rparr>"
  have q: "quiet (sample_env 1 9 [3] [] :: nat recv_env) 0 ?ch 1"
    by (simp add: quiet_def)
  have "1 < length (all_sockets ?ch)"
    and "os_recv (sample_env 1 9 [3] [] :: nat recv_env) (0 + 1) (all_sockets ?ch ! 1) =
      Inr ([3], SockV4 7 8)"
    by (simp_all add: all_sockets_def sample_env_def)
  from waiting_datagram_first [OF q this, of 0 0 "shared_new StSymmetric"] show ?thesis
    by (simp add: shared_new_def touch_read_def tables_new_def)
qed

text \<open>
  C39: The receive loop ends: if the \<open>d\<close>-th next poll can only fail or time out, the call returns
  after at most \<open>d + 1\<close> rounds, whatever the sockets, the other threads and \<^verbatim>\<open>change\<close> do.
\<close>

theorem recv_from_returns_by_timeout:
  assumes "\<And>s. (\<exists>e. fst (os_poll env (k + d) s) = Inl e) \<or> fst (os_poll env (k + d) s) = Inr []"
  shows "\<exists>r. recv_from (Suc d) env k t ch sh = Some r"
  using assms
proof (induction d arbitrary: k t ch sh)
  case 0
  have "fst (recv_round env k t ch sh) \<noteq> None"
  proof -
    obtain q1 sh1 where u: "udp_recv env (ch_default_udp ch) DEFAULT_TOKEN_INDEX t sh = (q1, sh1)"
      by (cases "udp_recv env (ch_default_udp ch) DEFAULT_TOKEN_INDEX t sh")
    obtain q2 t2 sh2 where l: "recv_list env (udp_list ch) 0 (t + 1) sh1 = (q2, t2, sh2)"
      by (cases "recv_list env (udp_list ch) 0 (t + 1) sh1") auto
    obtain p sh3 where "os_poll env k sh2 = (p, sh3)" by (cases "os_poll env k sh2")
    with 0 [of sh2] u l show ?thesis
      by (cases q1; cases q2) (auto simp: recv_round_def)
  qed
  then show ?case by (auto split: option.split prod.split)
next
  case (Suc d)
  have "\<exists>r. recv_from (Suc d) env (k + 1) t1 c1 sh1 = Some r" for t1 c1 sh1
    by (rule Suc.IH) (use Suc.prems in simp)
  then show ?case
    by (subst recv_from.simps) (simp split: option.split prod.split del: recv_from.simps)
qed

theorem recv_from_returns_by_timeout_witness:
  "\<exists>r. recv_from 2 (sample_env 0 0 [] [[3]] :: nat recv_env) 0 0 (sample_channel 5 0)
     (shared_new StCone) = Some r"
  using recv_from_returns_by_timeout [of "sample_env 0 0 [] [[3]] :: nat recv_env" 0 1 0
      "sample_channel 5 0" "shared_new StCone"]
  by (simp add: sample_env_def numeral_2_eq_2)

lemma change_token_differs: "DEFAULT_TOKEN \<noteq> CHANGE_TOKEN"
  by (simp add: DEFAULT_TOKEN_def DEFAULT_TOKEN_INDEX_def CHANGE_TOKEN_def)

lemma recv_events_silent:
  assumes "\<And>t s. blocks env t s" and "CHANGE_TOKEN \<notin> set es"
  shows "\<exists>t'. recv_events env (es @ fs) t ch sh = recv_events env fs t' ch sh"
  using assms(2)
proof (induction es arbitrary: t)
  case Nil
  then show ?case by auto
next
  case (Cons e es)
  then have e: "e \<noteq> CHANGE_TOKEN" by auto
  show ?case
  proof (cases "event_socket ch e")
    case None
    with e Cons.IH [of t] Cons.prems show ?thesis by simp
  next
    case (Some d)
    then obtain index udp where "event_socket ch e = Some (index, udp)" by (cases d) simp
    with e Cons.IH [of "t + 1"] Cons.prems udp_recv_blocks [OF assms(1)] show ?thesis by simp
  qed
qed

text \<open>
  Closing ends the receive loop: a receiver whose sockets stay silent, and whose poll reports
  its wake-up on a closed channel, returns the error "channel close" in that very round and
  changes nothing.
\<close>

theorem closed_receiver_stops:
  assumes "\<And>t s. blocks env t s" and "os_poll env k sh = (Inr es, sh')"
    and "CHANGE_TOKEN \<in> set es" and "status sh' = StClose"
  shows "\<exists>t'. recv_from (Suc fuel) env k t ch sh =
    Some (Err (IoError Other ''channel close''), t', ch, sh')"
proof -
  obtain es1 es2 where es: "es = es1 @ CHANGE_TOKEN # es2" "CHANGE_TOKEN \<notin> set es1"
    using split_list_first [OF assms(3)] by blast
  obtain t' where "recv_events env es (t + length (all_sockets ch)) ch sh' =
      recv_events env (CHANGE_TOKEN # es2) t' ch sh'"
    using recv_events_silent [OF assms(1) es(2), of "CHANGE_TOKEN # es2"] es(1) by blast
  moreover have "quiet env t ch (length (all_sockets ch))"
    using assms(1) by (simp add: quiet_def)
  ultimately show ?thesis
    using assms(2,4) es(1) by (simp add: recv_round_quiet change_closed)
qed

theorem closed_receiver_stops_witness:
  "\<exists>t'. recv_from 1 (sample_env 0 0 [] [[3, CHANGE_TOKEN]]
       \<lparr>os_recv := \<lambda>_ _. Inl (IoError WouldBlock [])\<rparr> :: nat recv_env) 0 0 (sample_channel 5 0)
     (shared_new StClose) =
   Some (Err (IoError Other ''channel close''), t', sample_channel 5 0, shared_new StClose)"
  using closed_receiver_stops [of "sample_env 0 0 [] [[3, CHANGE_TOKEN]]
      \<lparr>os_recv := \<lambda>_ _. Inl (IoError WouldBlock [])\<rparr> :: nat recv_env" 0 "shared_new StClose"
      "[3, CHANGE_TOKEN]" "shared_new StClose" 0 0 "sample_channel 5 0"]
  by (simp add: sample_env_def blocks_def shared_new_def)

text \<open>
  C34: A wake-up can be lost. When one poll reports a datagram on the default socket before the
  wake-up, the call returns the datagram and leaves the rest of the events unread: \<^verbatim>\<open>change\<close> does
  not run, even on a closed channel. If no other wake-up comes, the next call finds nothing, polls
  and ends with the time-out (without one it would wait on), not with "channel close".
\<close>

theorem wakeup_behind_datagram_is_lost:
  assumes "quiet env t ch (length (all_sockets ch))"
    and "os_poll env k sh = (Inr (DEFAULT_TOKEN # CHANGE_TOKEN # es), sh1)"
    and "os_recv env (t + length (all_sockets ch)) (ch_default_udp ch) = Inr (data, a)"
    and "\<And>t' s. t + length (all_sockets ch) < t' \<Longrightarrow> blocks env t' s"
    and "\<And>s. os_poll env (k + 1) s = (Inr [], s)"
  defines "key \<equiv> RouteKey DEFAULT_TOKEN_INDEX a"
    and "t1 \<equiv> t + length (all_sockets ch) + 1"
  shows "\<exists>sh2 t2.
    recv_from (Suc fuel) env k t ch sh = Some (Ok (data, key), t1, ch, sh2) \<and>
    sh2 = sh1\<lparr>tables := touch_read key (os_clock env (t1 - 1)) (tables sh1)\<rparr> \<and>
    recv_from (Suc fuel) env (k + 1) t1 ch sh2 =
      Some (Err (IoError WouldBlock ''timeout''), t2, ch, sh2)"
proof -
  have "event_socket ch DEFAULT_TOKEN = Some (DEFAULT_TOKEN_INDEX, ch_default_udp ch)"
    by (simp add: event_socket_def)
  with assms(1-3) have one: "recv_from (Suc fuel) env k t ch sh = Some (Ok (data, key), t1, ch,
      sh1\<lparr>tables := touch_read key (os_clock env (t1 - 1)) (tables sh1)\<rparr>)"
    by (simp add: recv_round_quiet change_token_differs udp_recv_def key_def t1_def)
  have "quiet env t1 ch (length (all_sockets ch))"
    using assms(4) by (simp add: quiet_def t1_def)
  then have "recv_from (Suc fuel) env (k + 1) t1 ch sh2 =
      Some (Err (IoError WouldBlock ''timeout''), t1 + length (all_sockets ch), ch, sh2)" for sh2
    using assms(5) by (simp add: recv_round_quiet)
  with one show ?thesis by blast
qed

theorem wakeup_behind_datagram_is_lost_witness:
  "\<exists>sh2 t2. recv_from 1 (sample_env 1 5 [7] [[DEFAULT_TOKEN, CHANGE_TOKEN]] :: nat recv_env) 1 2
      (sample_channel 5 0) sh2 =
    Some (Err (IoError WouldBlock ''timeout''), t2, sample_channel 5 0, sh2) \<and> status sh2 = StClose"
proof -
  let ?e = "sample_env 1 5 [7] [[DEFAULT_TOKEN, CHANGE_TOKEN]] :: nat recv_env"
  let ?c = "sample_channel 5 0"
  have n: "length (all_sockets ?c) = 1"
    by (simp add: all_sockets_def sample_channel_def)
  have "quiet ?e 0 ?c (length (all_sockets ?c))"
    "os_poll ?e 0 (shared_new StClose) = (Inr [DEFAULT_TOKEN, CHANGE_TOKEN], shared_new StClose)"
    "os_recv ?e (0 + length (all_sockets ?c)) (ch_default_udp ?c) = Inr ([7], SockV4 7 8)"
    "\<And>t' s. 0 + length (all_sockets ?c) < t' \<Longrightarrow> blocks ?e t' s"
    "\<And>s. os_poll ?e (0 + 1) s = (Inr [], s)"
    unfolding n by (auto simp: quiet_def) (simp_all add: sample_env_def sample_channel_def)
  from wakeup_behind_datagram_is_lost [OF this, of 0] show ?thesis
    unfolding n by (auto simp: shared_new_def numeral_2_eq_2)
qed

end
