(* ===== verification/Punch.thy ===== *)
theory Punch
  imports Channel "HOL-Library.Multiset"
begin

section \<open>Hole punching\<close>

text \<open>
  \<^verbatim>\<open>src/punch/mod.rs\<close>: the queue of requests and the datagrams that a request makes. The shuffle
  of \<^verbatim>\<open>rand\<close> and the crossbeam channels are arguments; of a shuffle the code relies on nothing but
  that it permutes. \<open>chk\<close> says whether the build checks arithmetic overflow.
\<close>

subsection \<open>State\<close>

record 'id punch =
  port_vec :: "u16 list"
  port_index :: "'id \<rightharpoonup> nat"
  pn_sender :: sender

type_synonym shuffle = "u16 list \<Rightarrow> u16 list"

text \<open>\<^verbatim>\<open>(1..65535).collect()\<close> and the last port pushed after it.\<close>

definition all_ports :: "u16 list" where
  "all_ports = map of_nat [1..<65535] @ [65535]"

definition punch_new :: "shuffle \<Rightarrow> sender \<Rightarrow> 'id punch" where
  "punch_new shuf sd =
     \<lparr>port_vec = shuf all_ports, port_index = Map.empty, pn_sender = sd\<rparr>"

text \<open>\<open>dup\<close> is the answer of the system to \<^verbatim>\<open>UdpSocket::try_clone\<close>.\<close>

definition punch_try_clone ::
    "shuffle \<Rightarrow> (sock \<Rightarrow> io_error + sock) \<Rightarrow> 'id punch \<Rightarrow> 'id punch outcome" where
  "punch_try_clone shuf dup p =
     bind_outcome (sender_try_clone dup (pn_sender p)) (\<lambda>sd.
       Ok \<lparr>port_vec = shuf (port_vec p), port_index = Map.empty, pn_sender = sd\<rparr>)"

subsection \<open>Waiting for a request\<close>

text \<open>
  \<open>recv_timeout\<close> and \<open>recv\<close> are the operations of a crossbeam receiver on its queue.
\<close>

datatype recv_timeout_error = RecvTimeout | RecvDisconnected

definition next_request ::
    "(nat \<Rightarrow> 'q \<Rightarrow> (recv_timeout_error + 'id \<times> nat_info) \<times> 'q) \<Rightarrow>
     ('q \<Rightarrow> (unit + 'id \<times> nat_info) \<times> 'q) \<Rightarrow>
     nat option \<Rightarrow> 'q \<Rightarrow> ('id \<times> nat_info) outcome \<times> 'q" where
  "next_request recv_timeout recv limit q =
     (case limit of
        Some t \<Rightarrow>
          (case recv_timeout t q of
             (Inr rs, q') \<Rightarrow> (Ok rs, q')
           | (Inl RecvTimeout, q') \<Rightarrow> (Err (IoError TimedOut []), q')
           | (Inl RecvDisconnected, q') \<Rightarrow> (Err (IoError Other ''close''), q'))
      | None \<Rightarrow>
          (case recv q of
             (Inr rs, q') \<Rightarrow> (Ok rs, q')
           | (Inl _, q') \<Rightarrow> (Err (IoError Other ''close''), q')))"

definition next_symmetric where
  "next_symmetric recv_timeout recv limit qs =
     (let (r, q) = next_request recv_timeout recv limit (symmetric_queue qs)
      in (r, qs\<lparr>symmetric_queue := q\<rparr>))"

definition next_cone where
  "next_cone recv_timeout recv limit qs =
     (let (r, q) = next_request recv_timeout recv limit (cone_queue qs)
      in (r, qs\<lparr>cone_queue := q\<rparr>))"

subsection \<open>Sending to many ports\<close>

text \<open>How \<^verbatim>\<open>punch_\<close> sends one datagram.\<close>

definition punch_send ::
    "os_send \<Rightarrow> sender \<Rightarrow> sock list \<Rightarrow> bool \<Rightarrow> bytes \<Rightarrow> socket_addr \<Rightarrow> history \<Rightarrow> unit outcome \<times> history" where
  "punch_send os sd share is_cone buf addr h =
     (if is_cone
      then and_then (sender_send_to_addr os sd buf addr h) (\<lambda>_ h. (Ok (), h))
      else sender_send_to_addr_all os sd share buf addr h)"

text \<open>
  The two loops of \<^verbatim>\<open>punch_\<close>. The inner one gives the count for the next port, or \<open>None\<close> when the
  whole function returns because the count \<open>tries\<close> has come to \<open>limit\<close> (\<^verbatim>\<open>max\<close> in the code).
\<close>

fun punch_ips ::
    "(socket_addr \<Rightarrow> history \<Rightarrow> unit outcome \<times> history) \<Rightarrow> u16 \<Rightarrow> ip_addr list \<Rightarrow> nat \<Rightarrow> nat
     \<Rightarrow> history \<Rightarrow> nat option outcome \<times> history" where
  "punch_ips send port [] limit tries h = (Ok (Some tries), h)"
| "punch_ips send port (pub_ip # ips) limit tries h =
     (let tries' = tries + 1 in
      if tries' = limit then (Ok None, h)
      else and_then (send (socket_addr_new pub_ip port) h) (\<lambda>_ h1.
             punch_ips send port ips limit tries' (h1 @ [SleepMs 2])))"

fun punch_ports ::
    "(socket_addr \<Rightarrow> history \<Rightarrow> unit outcome \<times> history) \<Rightarrow> u16 list \<Rightarrow> ip_addr list \<Rightarrow> nat \<Rightarrow> nat
     \<Rightarrow> history \<Rightarrow> unit outcome \<times> history" where
  "punch_ports send [] ips limit tries h = (Ok (), h)"
| "punch_ports send (port # ports) ips limit tries h =
     and_then (punch_ips send port ips limit tries h) (\<lambda>r h1.
       case r of None \<Rightarrow> (Ok (), h1)
       | Some tries' \<Rightarrow> punch_ports send ports ips limit tries' h1)"

subsection \<open>Predicting ports\<close>

text \<open>
  The random choice inside the predicted range: at most \<open>max_k1\<close> ports of
  \<open>min_port, \<dots>, max_port\<close>.
\<close>

definition predicted_ports :: "bool \<Rightarrow> shuffle \<Rightarrow> u16 \<Rightarrow> nat_info \<Rightarrow> u16 list outcome" where
  "predicted_ports chk shuf max_k1 info =
     bind_outcome (if public_port_range info < public_port info
                   then u16_sub chk (public_port info) (public_port_range info) else Ok 1) (\<lambda>min_port.
     let (sum, overflow) = u16_overflowing_add (public_port info) (public_port_range info);
         max_port = (if overflow then 65535 else sum) in
     bind_outcome (bind_outcome (u16_sub chk max_port min_port) (\<lambda>d. u16_add chk d 1)) (\<lambda>width.
     let k = (if max_k1 < width then unat max_k1 else unat width);
         nums = shuf (map of_nat [unat min_port..<unat max_port] @ [max_port])
     in slice nums 0 k))"

subsection \<open>\<^verbatim>\<open>punch\<close>\<close>

definition punch_symmetric ::
    "bool \<Rightarrow> os_send \<Rightarrow> shuffle \<Rightarrow> bytes \<Rightarrow> 'id \<Rightarrow> nat_info \<Rightarrow> bool \<Rightarrow> sock list
     \<Rightarrow> 'id punch \<Rightarrow> history \<Rightarrow> unit outcome \<times> ('id punch \<times> history)" where
  "punch_symmetric chk os shuf buf i info is_cone share p h =
     (let (max_k1, max_k2) = (if is_cone then (60 :: u16, 800) else (5, 10));
          send = punch_send os (pn_sender p) share is_cone buf;
          (r, h1) =
            (if public_port_range info < max_k1 * 4 then
               and_then (predicted_ports chk shuf max_k1 info, h) (\<lambda>nums h.
                 punch_ports send nums (public_ips info) (unat max_k1) 0 h)
             else (Ok (), h))
      in and_then (r, (p, h1)) (\<lambda>_ (p, h1).
         let start = (case port_index p i of Some n \<Rightarrow> n | None \<Rightarrow> 0);
             p1 = p\<lparr>port_index := (port_index p)(i \<mapsto> start)\<rparr>;
             stop = start + max_k2;
             (stop', index) = (if length (port_vec p1) \<le> stop then (length (port_vec p1), 0)
                               else (stop, stop))
         in and_then (slice (port_vec p1) start stop', (p1, h1)) (\<lambda>ports (p1, h1).
            let (r2, h2) = punch_ports send ports (public_ips info) max_k2 0 h1
            in and_then (r2, (p1, h2)) (\<lambda>_ (p1, h2).
               (Ok (), (p1\<lparr>port_index := (port_index p1)(i \<mapsto> index)\<rparr>, h2))))))"

fun punch_cone ::
    "(socket_addr \<Rightarrow> history \<Rightarrow> 'r outcome \<times> history) \<Rightarrow> ip_addr list \<Rightarrow> u16 \<Rightarrow> history
     \<Rightarrow> unit outcome \<times> history" where
  "punch_cone send [] port h = (Ok (), h)"
| "punch_cone send (ip # ips) port h =
     and_then (send (socket_addr_new ip port) h) (\<lambda>_ h1. punch_cone send ips port h1)"

definition punch ::
    "bool \<Rightarrow> os_send \<Rightarrow> shuffle \<Rightarrow> bytes \<Rightarrow> 'id \<Rightarrow> nat_info \<Rightarrow> 'id punch \<Rightarrow> 'id shared
     \<Rightarrow> unit outcome \<times> ('id punch \<times> 'id shared)" where
  "punch chk os shuf buf i info p sh =
     (if sender_is_close sh then (Err (IoError Other ''close''), (p, sh))
      else
        let h = (if \<not> is_unspecified (local_ip info) \<or> local_port info \<noteq> 0
                 then snd (sender_send_to_addr os (pn_sender p) buf
                             (socket_addr_new (local_ip info) (local_port info)) (calls sh))
                 else calls sh);
            is_cone = sender_is_cone sh
        in case nat_type info of
             NatSymmetric \<Rightarrow>
               let (r, (p', h')) = punch_symmetric chk os shuf buf i info is_cone (share_info sh) p h
               in (r, (p', sh\<lparr>calls := h'\<rparr>))
           | NatCone \<Rightarrow>
               let (r, h') = punch_cone (sender_send_to_addr os (pn_sender p) buf)
                               (public_ips info) (public_port info) h
               in (r, (p, sh\<lparr>calls := h'\<rparr>)))"

subsection \<open>The loops as one list of targets\<close>

text \<open>
  \<open>targets\<close> lists the addresses in the order of the loops, and \<open>spray\<close> sends to each address of a
  list and then sleeps. Starting from count 0 the loops reach the first \<open>max - 1\<close> targets.
\<close>

definition targets :: "u16 list \<Rightarrow> ip_addr list \<Rightarrow> socket_addr list" where
  "targets ports ips = concat (map (\<lambda>port. map (\<lambda>ip. socket_addr_new ip port) ips) ports)"

fun spray :: "(socket_addr \<Rightarrow> history \<Rightarrow> 'r outcome \<times> history) \<Rightarrow> socket_addr list \<Rightarrow> history
     \<Rightarrow> unit outcome \<times> history" where
  "spray send [] h = (Ok (), h)"
| "spray send (a # as) h = and_then (send a h) (\<lambda>_ h1. spray send as (h1 @ [SleepMs 2]))"

lemma spray_append: "spray send (as @ bs) h = and_then (spray send as h) (\<lambda>_ h1. spray send bs h1)"
  by (induction send as h rule: spray.induct) (simp_all add: and_then_assoc)

lemma punch_ips_spray:
  "tries < limit \<Longrightarrow> punch_ips send port ips limit tries h =
    and_then (spray send (take (limit - 1 - tries) (map (\<lambda>ip. socket_addr_new ip port) ips)) h)
      (\<lambda>_ h1. (Ok (if tries + length ips < limit then Some (tries + length ips) else None), h1))"
proof (induction ips arbitrary: tries h)
  case Nil
  then show ?case by simp
next
  case (Cons ip ips)
  show ?case
  proof (cases "tries + 1 = limit")
    case True
    then have "limit - 1 - tries = 0" and "\<not> tries + length (ip # ips) < limit" by auto
    with True show ?thesis by simp
  next
    case False
    with Cons.prems have "limit - 1 - tries = Suc (limit - 1 - (tries + 1))" by simp
    with False Cons.IH [of "tries + 1"] Cons.prems show ?thesis
      by (simp add: and_then_assoc Let_def)
  qed
qed

lemma punch_ports_spray:
  "tries < limit \<Longrightarrow> punch_ports send ports ips limit tries h =
    spray send (take (limit - 1 - tries) (targets ports ips)) h"
proof (induction ports arbitrary: tries h)
  case Nil
  then show ?case by (simp add: targets_def)
next
  case (Cons port ports)
  let ?as = "map (\<lambda>ip. socket_addr_new ip port) ips"
  have t: "targets (port # ports) ips = ?as @ targets ports ips"
    by (simp add: targets_def)
  show ?case
  proof (cases "tries + length ips < limit")
    case True
    then have "take (limit - 1 - tries) ?as = ?as"
      and "limit - 1 - tries - length ?as = limit - 1 - (tries + length ips)" by auto
    with True Cons.IH [of "tries + length ips"] Cons.prems show ?thesis
      unfolding t by (simp add: punch_ips_spray take_append spray_append and_then_assoc)
  next
    case False
    then have "limit - 1 - tries - length ?as = 0" by simp
    with False Cons.prems show ?thesis
      unfolding t by (simp add: punch_ips_spray take_append and_then_assoc and_then_Ok_unit)
  qed
qed

context address_sender begin

lemma spray_spec:
  "\<exists>ext. sends (snd (spray send as h)) = sends h @ map (\<lambda>(s, a). (s, buf, a)) ext \<and>
     set ext \<subseteq> set socks \<times> set as \<and>
     (is_ok (fst (spray send as h)) \<longrightarrow> set ext = set socks \<times> set as)"
proof (induction as arbitrary: h)
  case Nil
  then show ?case by (intro exI [of _ "[]"]) simp
next
  case (Cons a as)
  obtain one where one: "sends (snd (send a h)) = sends h @ map (\<lambda>s. (s, buf, a)) one"
    "set one \<subseteq> set socks" "is_ok (fst (send a h)) \<longrightarrow> set one = set socks"
    using sent_only [of a h] by blast
  obtain r h1 where s: "send a h = (r, h1)" by (cases "send a h")
  show ?case
  proof (cases r)
    case (Ok x)
    obtain ext where ext: "sends (snd (spray send as (h1 @ [SleepMs 2]))) =
        sends (h1 @ [SleepMs 2]) @ map (\<lambda>(s, a). (s, buf, a)) ext"
      "set ext \<subseteq> set socks \<times> set as"
      "is_ok (fst (spray send as (h1 @ [SleepMs 2]))) \<longrightarrow> set ext = set socks \<times> set as"
      using Cons.IH by blast
    show ?thesis
      by (rule exI [of _ "map (\<lambda>s. (s, a)) one @ ext"]) (use s Ok one ext in auto)
  next
    case (Err e)
    show ?thesis
      by (rule exI [of _ "map (\<lambda>s. (s, a)) one"]) (use s Err one in auto)
  next
    case Panic
    then show ?thesis using never_panics [of a h] s by simp
  qed
qed

lemma spray_no_panic: "fst (spray send as h) \<noteq> Panic"
proof (induction as arbitrary: h)
  case (Cons a as)
  then show ?case using never_panics [of a h]
    by (simp add: and_then_Panic_iff)
qed simp

lemma spray_only: "(s, b, d) \<in> set (sends (snd (spray send as h))) \<Longrightarrow>
   (s, b, d) \<in> set (sends h) \<or> b = buf \<and> s \<in> set socks \<and> d \<in> set as"
  using spray_spec [of as h] by auto

end

text \<open>Both ways in which \<^verbatim>\<open>punch_\<close> sends a datagram keep the contract of sending to an address.\<close>

definition punch_socks :: "sender \<Rightarrow> sock list \<Rightarrow> bool \<Rightarrow> sock list" where
  "punch_socks sd share is_cone = (if is_cone then [sd_default_udp sd] else sd_default_udp sd # share)"

interpretation pun: address_sender "\<lambda>a. punch_send os sd share is_cone buf a" buf
    "punch_socks sd share is_cone"
proof unfold_locales
  fix a h
  let ?one = "sender_send_to_addr os sd buf a h"
  have cone: "punch_send os sd share True buf a h = and_then ?one (\<lambda>_ h. (Ok (), h))"
    by (simp add: punch_send_def)
  have same: "snd (and_then ?one (\<lambda>_ h. (Ok (), h))) = snd ?one"
    "is_ok (fst (and_then ?one (\<lambda>_ h. (Ok (), h)))) = is_ok (fst ?one)"
    by (cases "(?one, \<lambda>_ :: nat. \<lambda>h :: history. (Ok (), h))" rule: and_then.cases; simp)+
  show "\<exists>ext. sends (snd (punch_send os sd share is_cone buf a h)) =
      sends h @ map (\<lambda>s. (s, buf, a)) ext \<and> set ext \<subseteq> set (punch_socks sd share is_cone) \<and>
      length ext \<le> 11 * length (punch_socks sd share is_cone) \<and>
      (is_ok (fst (punch_send os sd share is_cone buf a h)) \<longrightarrow>
         set ext = set (punch_socks sd share is_cone))"
    using one.sent_only [of os sd buf a h] every.sent_only [of os sd share buf a h]
    by (cases is_cone) (simp_all only: cone same punch_socks_def punch_send_def if_True if_False)
  show "fst (punch_send os sd share is_cone buf a h) \<noteq> Panic"
    using one.never_panics [of os sd buf a h] every.never_panics [of os sd share buf a h]
    by (cases is_cone) (auto simp: punch_send_def and_then_Panic_iff)
qed

subsection \<open>The predicted window\<close>

definition permutes :: "shuffle \<Rightarrow> bool" where
  "permutes shuf \<longleftrightarrow> (\<forall>xs. mset (shuf xs) = mset xs)"

lemma permutes_id: "permutes (\<lambda>xs. xs)"
  by (simp add: permutes_def)

lemma permutes_list:
  assumes "permutes shuf"
  shows "set (shuf xs) = set xs" "length (shuf xs) = length xs" "distinct (shuf xs) = distinct xs"
  using assms unfolding permutes_def
  by (metis mset_eq_setD, metis mset_eq_length, metis mset_eq_imp_distinct_iff)

definition window_low :: "nat_info \<Rightarrow> nat" where
  "window_low info = max 1 (unat (public_port info) - unat (public_port_range info))"

definition window_high :: "nat_info \<Rightarrow> nat" where
  "window_high info = min 65535 (unat (public_port info) + unat (public_port_range info))"

definition ports_between :: "nat \<Rightarrow> nat \<Rightarrow> u16 list" where
  "ports_between a b = map of_nat [a..<Suc b]"

lemma of_nat_u16_inj: "inj_on (of_nat :: nat \<Rightarrow> u16) {..65535}"
  by (rule inj_onI) (simp add: word_unat_eq_iff unat_of_nat take_bit_nat_eq_self)

lemma ports_between_props:
  assumes "b \<le> 65535"
  shows "distinct (ports_between a b)" "length (ports_between a b) = Suc b - a"
    "set (ports_between a b) = {p. a \<le> unat p \<and> unat p \<le> b}"
proof -
  show "distinct (ports_between a b)"
    using assms by (auto simp: ports_between_def distinct_map intro: inj_on_subset [OF of_nat_u16_inj])
  show "length (ports_between a b) = Suc b - a"
    by (simp add: ports_between_def del: upt_Suc)
  have n: "unat (of_nat n :: u16) = n" if "n \<le> b" for n
    using that assms by (simp add: unat_of_nat take_bit_nat_eq_self)
  show "set (ports_between a b) = {p. a \<le> unat p \<and> unat p \<le> b}"
  proof (intro set_eqI iffI)
    fix p :: u16
    assume "p \<in> set (ports_between a b)"
    then obtain m where "p = of_nat m" "a \<le> m" "m \<le> b"
      by (auto simp: ports_between_def simp del: upt_Suc)
    with n [of m] show "p \<in> {p. a \<le> unat p \<and> unat p \<le> b}" by simp
  next
    fix p :: u16
    assume "p \<in> {p. a \<le> unat p \<and> unat p \<le> b}"
    then have "p \<in> of_nat ` {a..<Suc b}"
      by (intro image_eqI [of _ _ "unat p"]) simp_all
    then show "p \<in> set (ports_between a b)"
      by (simp add: ports_between_def del: upt_Suc)
  qed
qed

lemma all_ports_eq: "all_ports = ports_between 1 65535"
proof -
  have "[1..<Suc 65535] = [1..<65535] @ [65535]" by (rule upt_Suc_append) simp
  then show ?thesis by (simp only: all_ports_def ports_between_def map_append list.map of_nat_numeral)
qed

lemma window_nonempty:
  "window_low info \<le> window_high info \<longleftrightarrow> public_port info \<noteq> 0 \<or> public_port_range info \<noteq> 0"
  using unat_u16_bound [of "public_port info"]
  by (auto simp: window_low_def window_high_def unat_eq_0 [symmetric])

text \<open>The prediction in plain numbers.\<close>

lemma predicted_ports_window:
  assumes "permutes shuf" and "window_low info \<le> window_high info"
  shows "predicted_ports chk shuf max_k1 info =
    Ok (take (unat max_k1) (shuf (ports_between (window_low info) (window_high info))))"
proof -
  let ?p = "public_port info" and ?r = "public_port_range info"
  define lo where "lo = (if ?r < ?p then ?p - ?r else 1)"
  define hi where "hi = (if 65536 \<le> unat ?p + unat ?r then 65535 else ?p + ?r)"
  have lo: "unat lo = window_low info"
    by (auto simp: lo_def window_low_def unat_sub_u16 word_less_nat_alt word_le_nat_alt not_less)
  have hi: "unat hi = window_high info"
    by (auto simp: hi_def window_high_def unat_add_u16 not_le)
  have hb: "window_high info \<le> 65535" and lb: "1 \<le> window_low info"
    by (simp_all add: window_high_def window_low_def)
  have le: "lo \<le> hi"
    using assms(2) by (simp add: word_le_nat_alt lo hi)
  have d: "unat (hi - lo) = window_high info - window_low info"
    using le by (simp add: unat_sub_u16 lo hi)
  have w: "unat (hi - lo) + unat (1 :: u16) < 65536"
    using hb lb d by simp
  have width: "unat (hi - lo + 1) = Suc (window_high info - window_low info)"
    using unat_add_u16 [OF w] d by simp
  have nums: "map of_nat [unat lo..<unat hi] @ [hi] =
      ports_between (window_low info) (window_high info)"
    using assms(2) by (simp add: ports_between_def lo hi flip: hi)
  have len: "length (shuf (ports_between (window_low info) (window_high info))) =
      Suc (window_high info - window_low info)"
    using assms by (simp add: permutes_list ports_between_props [OF hb] Suc_diff_le)
  have sub: "(if ?r < ?p then u16_sub chk ?p ?r else Ok 1) = Ok lo"
    by (simp add: lo_def u16_sub_ok)
  have "predicted_ports chk shuf max_k1 info =
      slice (shuf (ports_between (window_low info) (window_high info))) 0
        (if max_k1 < hi - lo + 1 then unat max_k1 else unat (hi - lo + 1))"
    unfolding predicted_ports_def sub u16_overflowing_add_def
    using nums by (simp add: Let_def u16_sub_ok [OF le] u16_add_ok [OF w] hi_def [symmetric])
  also have "\<dots> = Ok (take (unat max_k1) (shuf (ports_between (window_low info) (window_high info))))"
    using len width by (auto simp: slice_def word_less_nat_alt)
  finally show ?thesis .
qed

lemma predicted_ports_empty:
  assumes "public_port info = 0" and "public_port_range info = 0"
  shows "predicted_ports chk shuf max_k1 info = (if chk then Panic else slice (shuf [0]) 0 0)"
  using assms by (simp add: predicted_ports_def u16_overflowing_add_def u16_sub_def u16_add_def Let_def)

subsection \<open>One request in plain terms\<close>

text \<open>
  The addresses that one request for a symmetric peer goes through: the guesses inside the predicted
  window, if the peer's ports do not vary much, then the next piece of the shuffled port list.
\<close>

definition guesses :: "shuffle \<Rightarrow> bool \<Rightarrow> nat_info \<Rightarrow> socket_addr list" where
  "guesses shuf is_cone info =
     (let k1 = (if is_cone then 60 else 5) in
      if unat (public_port_range info) < k1 * 4
      then take (k1 - 1) (targets (take k1 (shuf (ports_between (window_low info) (window_high info))))
             (public_ips info))
      else [])"

definition sweep :: "bool \<Rightarrow> nat \<Rightarrow> u16 list \<Rightarrow> nat_info \<Rightarrow> socket_addr list" where
  "sweep is_cone start ports info =
     (let k2 = (if is_cone then 800 else 10) in
      take (k2 - 1) (targets (take k2 (drop start ports)) (public_ips info)))"

definition sweep_start :: "'id punch \<Rightarrow> 'id \<Rightarrow> nat" where
  "sweep_start p i = (case port_index p i of Some n \<Rightarrow> n | None \<Rightarrow> 0)"

definition sweep_next :: "bool \<Rightarrow> nat \<Rightarrow> nat" where
  "sweep_next is_cone start =
     (let stop = start + (if is_cone then 800 else 10) in if 65535 \<le> stop then 0 else stop)"

definition port_zero :: "nat_info \<Rightarrow> bool" where
  "port_zero info \<longleftrightarrow> public_port info = 0 \<and> public_port_range info = 0"

lemma permutes_short:
  assumes "permutes shuf" shows "shuf [] = []" "shuf [x] = [x]"
  using permutes_list(2) [OF assms, of "[]"] permutes_list(1,2) [OF assms, of "[x]"]
  by (simp, cases "shuf [x]") auto

lemma window_port_zero: "port_zero info \<Longrightarrow> ports_between (window_low info) (window_high info) = []"
  by (simp add: port_zero_def window_low_def window_high_def ports_between_def)

lemma predicted_ports_all:
  assumes "permutes shuf" and "\<not> (chk \<and> port_zero info)"
  shows "predicted_ports chk shuf max_k1 info =
    Ok (take (unat max_k1) (shuf (ports_between (window_low info) (window_high info))))"
proof (cases "port_zero info")
  case True
  with assms show ?thesis
    by (simp add: window_port_zero permutes_short)
      (simp add: port_zero_def predicted_ports_empty slice_def permutes_short)
next
  case False
  then have "window_low info \<le> window_high info"
    by (simp add: window_nonempty port_zero_def)
  with assms(1) show ?thesis by (rule predicted_ports_window)
qed

lemma guesses_punch_ports:
  assumes "permutes shuf" and "\<not> (chk \<and> port_zero info)" and "k1 = (if is_cone then 60 else 5 :: u16)"
  shows "(if public_port_range info < k1 * 4 then
            and_then (predicted_ports chk shuf k1 info, h) (\<lambda>nums h.
              punch_ports send nums (public_ips info) (unat k1) 0 h)
          else (Ok (), h)) = spray send (guesses shuf is_cone info) h"
  using assms
  by (cases is_cone)
    (simp_all add: guesses_def predicted_ports_all punch_ports_spray word_less_nat_alt)

lemma sweep_slice:
  assumes "length xs = (65535 :: nat)" and "start < 65535" and "0 < k2"
  shows "slice xs start (if length xs \<le> start + k2 then length xs else start + k2) =
    Ok (take k2 (drop start xs))"
  using assms by (auto simp: slice_def)

text \<open>What a request for a symmetric peer does, on every branch.\<close>

lemma punch_symmetric_spray:
  fixes p :: "'id punch" and os share is_cone buf shuf i info
  assumes "permutes shuf" and "\<not> (chk \<and> port_zero info)"
    and "length (port_vec p) = 65535" and "sweep_start p i < 65535"
  defines "send \<equiv> punch_send os (pn_sender p) share is_cone buf"
    and "g \<equiv> guesses shuf is_cone info" and "w \<equiv> sweep is_cone (sweep_start p i) (port_vec p) info"
  shows "punch_symmetric chk os shuf buf i info is_cone share p h =
    (let (r, h') = spray send (g @ w) h
     in (r, (p\<lparr>port_index := (if is_ok r then (port_index p)(i \<mapsto> sweep_next is_cone (sweep_start p i))
             else if is_ok (fst (spray send g h)) then (port_index p)(i \<mapsto> sweep_start p i)
             else port_index p)\<rparr>, h')))"
proof -
  define k1 :: u16 where "k1 = (if is_cone then 60 else 5)"
  define k2 :: nat where "k2 = (if is_cone then 800 else 10)"
  let ?n = "sweep_start p i"
  have k2: "0 < k2" by (simp add: k2_def)
  have pair: "(if is_cone then (60 :: u16, 800 :: nat) else (5, 10)) = (k1, k2)"
    by (simp add: k1_def k2_def)
  have start: "(case port_index p i of Some n \<Rightarrow> n | None \<Rightarrow> 0) = ?n"
    by (simp add: sweep_start_def)
  have second: "punch_ports send (take k2 (drop ?n (port_vec p))) (public_ips info) k2 0 h1 =
      spray send w h1" for h1
    using punch_ports_spray [OF k2] by (simp add: w_def sweep_def k2_def)
  obtain r1 h1 where first: "spray send g h = (r1, h1)" by (cases "spray send g h")
  obtain r2 h2 where both: "spray send w h1 = (r2, h2)" by (cases "spray send w h1")
  have nxt: "sweep_next is_cone ?n = (if 65535 \<le> ?n + k2 then 0 else ?n + k2)"
    by (simp add: sweep_next_def k2_def Let_def)
  note unfolded = punch_symmetric_def pair Let_def prod.case send_def [symmetric]
    guesses_punch_ports [OF assms(1,2) k1_def] g_def [symmetric] first
  show ?thesis
  proof (cases "65535 \<le> ?n + k2")
    case True
    then have "slice (port_vec p) ?n 65535 = Ok (take k2 (drop ?n (port_vec p)))"
      using sweep_slice [OF assms(3,4) k2] by (simp add: assms(3))
    moreover have "take k2 (drop ?n (port_vec p)) = drop ?n (port_vec p)"
      using True assms(3) by simp
    ultimately show ?thesis
      unfolding unfolded using second [of h1] True
      by (cases r1; cases r2) (simp_all add: start assms(3) nxt both first spray_append)
  next
    case False
    then have "slice (port_vec p) ?n (?n + k2) = Ok (take k2 (drop ?n (port_vec p)))"
      using sweep_slice [OF assms(3,4) k2] by (simp add: assms(3))
    with False show ?thesis
      unfolding unfolded
      by (cases r1; cases r2) (simp_all add: start assms(3) nxt second both first spray_append)
  qed
qed

end
