(* ===== verification/Punch_Props.thy ===== *)
theory Punch_Props
  imports Punch Channel_Props
begin

section \<open>Properties of hole punching\<close>

text \<open>
  What every \<^verbatim>\<open>Punch\<close> object looks like after any sequence of requests and clones, what one request
  sends, which ports a sweep tries, when a request panics, and that a request comes out of the queue
  it was put in.
\<close>

subsection \<open>Reachable objects\<close>

inductive punch_reach :: "'id punch \<Rightarrow> bool" where
  fresh: "permutes shuf \<Longrightarrow> punch_reach (punch_new shuf sd)"
| clone: "punch_reach p \<Longrightarrow> permutes shuf \<Longrightarrow> punch_try_clone shuf dup p = Ok q \<Longrightarrow> punch_reach q"
| request: "punch_reach p \<Longrightarrow> permutes shuf \<Longrightarrow> punch chk os shuf buf i info p sh = (r, (p', sh')) \<Longrightarrow>
    punch_reach p'"

definition punch_inv :: "'id punch \<Rightarrow> bool" where
  "punch_inv p \<longleftrightarrow> distinct (port_vec p) \<and> set (port_vec p) = {a. a \<noteq> 0} \<and>
     length (port_vec p) = 65535 \<and> (\<forall>i n. port_index p i = Some n \<longrightarrow> n < 65535)"

lemma all_ports_props: "distinct all_ports" "set all_ports = {a. a \<noteq> 0}" "length all_ports = 65535"
proof -
  have "{p :: u16. 1 \<le> unat p \<and> unat p \<le> 65535} = {a. a \<noteq> 0}"
    using unat_u16_bound by (auto simp: Suc_le_eq unat_gt_0 less_Suc_eq_le [symmetric])
  then show "distinct all_ports" "set all_ports = {a. a \<noteq> 0}" "length all_ports = 65535"
    using ports_between_props [of 65535 1] by (simp_all add: all_ports_eq)
qed

lemma sweep_start_bound: "punch_inv p \<Longrightarrow> sweep_start p i < 65535"
  by (auto simp: punch_inv_def sweep_start_def split: option.split)

lemma sweep_next_bound: "sweep_next c n < 65535"
  by (simp add: sweep_next_def Let_def)

lemma punch_closed:
  "status sh = StClose \<Longrightarrow> punch chk os shuf buf i info p sh = (Err (IoError Other ''close''), (p, sh))"
  by (simp add: punch_def sender_is_close_def)

text \<open>The first datagram of a request: the peer's local address, if it was told.\<close>

definition after_local :: "os_send \<Rightarrow> sender \<Rightarrow> bytes \<Rightarrow> nat_info \<Rightarrow> history \<Rightarrow> history" where
  "after_local os sd buf info h =
     (if \<not> is_unspecified (local_ip info) \<or> local_port info \<noteq> 0
      then snd (sender_send_to_addr os sd buf (socket_addr_new (local_ip info) (local_port info)) h)
      else h)"

lemma punch_open:
  assumes "status sh \<noteq> StClose"
  shows "punch chk os shuf buf i info p sh =
    (case nat_type info of
       NatSymmetric \<Rightarrow>
         let (r, (p', h')) = punch_symmetric chk os shuf buf i info (status sh = StCone) (share_info sh) p
                               (after_local os (pn_sender p) buf info (calls sh))
         in (r, (p', sh\<lparr>calls := h'\<rparr>))
     | NatCone \<Rightarrow>
         let (r, h') = punch_cone (sender_send_to_addr os (pn_sender p) buf) (public_ips info)
               (public_port info) (after_local os (pn_sender p) buf info (calls sh))
         in (r, (p, sh\<lparr>calls := h'\<rparr>)))"
  using assms
  unfolding punch_def sender_is_close_def sender_is_cone_def after_local_def [symmetric] Let_def
  by simp

lemma punch_symmetric_panics:
  assumes "chk" and "port_zero info"
  shows "punch_symmetric chk os shuf buf i info c share p h = (Panic, (p, h))"
proof -
  have "public_port_range info < (if c then 60 else 5 :: u16) * 4"
    using assms(2) by (simp add: port_zero_def word_less_nat_alt)
  then show ?thesis
    using assms by (simp add: punch_symmetric_def port_zero_def predicted_ports_empty)
qed

lemma punch_inv_request:
  assumes "punch_inv p" and "permutes shuf" and "punch chk os shuf buf i info p sh = (r, (p', sh'))"
  shows "punch_inv p'"
proof (cases "status sh = StClose \<or> nat_type info = NatCone \<or> (chk \<and> port_zero info)")
  case True
  have "p' = p"
  proof (cases "status sh = StClose")
    case True
    with assms(3) show ?thesis by (simp add: punch_closed)
  next
    case False
    with \<open>_ \<or> _\<close> assms(3) show ?thesis
      by (cases "nat_type info") (auto simp: punch_open punch_symmetric_panics Let_def split: prod.splits)
  qed
  with assms(1) show ?thesis by simp
next
  case False
  then have sym: "nat_type info = NatSymmetric" and "\<not> (chk \<and> port_zero info)"
    and op: "status sh \<noteq> StClose"
    using nat_type.exhaust by blast+
  with assms(1,2) show ?thesis
    using assms(3) sweep_next_bound sweep_start_bound [OF assms(1)]
    by (auto simp: punch_open [OF op] punch_symmetric_spray punch_inv_def Let_def split: prod.splits if_splits)
qed

lemma punch_inv_reach: "punch_reach p \<Longrightarrow> punch_inv p"
proof (induction rule: punch_reach.induct)
  case (fresh shuf sd)
  then show ?case
    by (simp add: punch_inv_def punch_new_def permutes_list all_ports_props)
next
  case (clone p shuf dup q)
  then show ?case
    by (auto simp: punch_inv_def punch_try_clone_def bind_outcome_Ok_iff permutes_list)
next
  case (request p shuf chk os buf i info sh r p' sh')
  then show ?case by (blast intro: punch_inv_request)
qed

subsection \<open>What a request sends\<close>

definition local_target :: "nat_info \<Rightarrow> socket_addr list" where
  "local_target info =
     (if is_unspecified (local_ip info) \<and> local_port info = 0 then []
      else [socket_addr_new (local_ip info) (local_port info)])"

lemma after_local_sends:
  "\<exists>loc. sends (after_local os sd buf info h) = sends h @ loc \<and>
     set loc = (\<lambda>a. (sd_default_udp sd, buf, a)) ` set (local_target info)"
proof (cases "is_unspecified (local_ip info) \<and> local_port info = 0")
  case True
  then show ?thesis by (simp add: after_local_def local_target_def)
next
  case False
  let ?a = "socket_addr_new (local_ip info) (local_port info)"
  obtain n where "sends (snd (sender_send_to_addr os sd buf ?a h)) =
      sends h @ replicate (Suc n) (sd_default_udp sd, buf, ?a)"
    using std_socket.sends_after [of os "sd_default_udp sd" buf ?a h]
    by (auto simp: sender_send_to_addr_def)
  with False show ?thesis
    by (intro exI [of _ "replicate (Suc n) (sd_default_udp sd, buf, ?a)"])
      (auto simp: after_local_def local_target_def)
qed

text \<open>A request for a cone peer is a \<^const>\<open>spray\<close> without the pauses.\<close>

context address_sender begin

lemma cone_spec:
  shows "\<exists>ext. sends (snd (punch_cone send ips port h)) = sends h @ map (\<lambda>(s, a). (s, buf, a)) ext \<and>
     set ext \<subseteq> set socks \<times> set (targets [port] ips) \<and>
     (is_ok (fst (punch_cone send ips port h)) \<longrightarrow> set ext = set socks \<times> set (targets [port] ips)) \<and>
     fst (punch_cone send ips port h) \<noteq> Panic"
proof (induction ips arbitrary: h)
  case Nil
  then show ?case by (intro exI [of _ "[]"]) (simp add: targets_def)
next
  case (Cons ip ips)
  let ?a = "socket_addr_new ip port"
  obtain one where one: "sends (snd (send ?a h)) = sends h @ map (\<lambda>s. (s, buf, ?a)) one"
    "set one \<subseteq> set socks" "is_ok (fst (send ?a h)) \<longrightarrow> set one = set socks"
    using sent_only [of ?a h] by blast
  obtain r h1 where s: "send ?a h = (r, h1)" by (cases "send ?a h")
  show ?case
  proof (cases r)
    case (Ok x)
    obtain ext where ext: "sends (snd (punch_cone send ips port h1)) =
        sends h1 @ map (\<lambda>(s, a). (s, buf, a)) ext"
      "set ext \<subseteq> set socks \<times> set (targets [port] ips)"
      "is_ok (fst (punch_cone send ips port h1)) \<longrightarrow> set ext = set socks \<times> set (targets [port] ips)"
      "fst (punch_cone send ips port h1) \<noteq> Panic"
      using Cons.IH by blast
    show ?thesis
      by (rule exI [of _ "map (\<lambda>s. (s, ?a)) one @ ext"])
        (use s Ok one ext in \<open>auto simp: targets_def\<close>)
  next
    case (Err e)
    show ?thesis
      by (rule exI [of _ "map (\<lambda>s. (s, ?a)) one"]) (use s Err one in \<open>auto simp: targets_def\<close>)
  next
    case Panic
    then show ?thesis using never_panics [of ?a h] s by simp
  qed
qed

end

lemma targets_one_port: "set (targets [port] ips) = (\<lambda>ip. socket_addr_new ip port) ` set ips"
  by (auto simp: targets_def)

lemma targets_no_ips [simp]: "targets ports [] = []"
  by (simp add: targets_def)

subsection \<open>Properties\<close>

text \<open>
  C40: After any sequence of requests and clones the shuffled list of a \<^verbatim>\<open>Punch\<close> holds every port from
  1 to 65535 exactly once, and the position kept for a peer is inside the list.
\<close>

theorem punch_object_invariant:
  assumes "punch_reach p"
  shows "distinct (port_vec p) \<and> set (port_vec p) = {a. a \<noteq> 0} \<and> length (port_vec p) = 65535 \<and>
    (\<forall>i n. port_index p i = Some n \<longrightarrow> n < 65535)"
  using punch_inv_reach [OF assms] by (simp add: punch_inv_def)

theorem punch_object_invariant_witness:
  "distinct (port_vec (punch_new (\<lambda>xs. xs) \<lparr>sd_default_udp = 1\<rparr> :: nat punch))"
  using punch_object_invariant [OF punch_reach.fresh [OF permutes_id]] by blast

lemma punch_request_cases:
  assumes "punch_inv p" and "permutes shuf" and "status sh \<noteq> StClose"
    and "nat_type info = NatSymmetric" and "\<not> (chk \<and> port_zero info)"
    and "punch chk os shuf buf i info p sh = (r, (p', sh'))"
  defines "c \<equiv> status sh = StCone"
  defines "send \<equiv> punch_send os (pn_sender p) (share_info sh) c buf"
    and "h \<equiv> after_local os (pn_sender p) buf info (calls sh)"
    and "ts \<equiv> guesses shuf c info @ sweep c (sweep_start p i) (port_vec p) info"
  shows "r = fst (spray send ts h)" "sh' = sh\<lparr>calls := snd (spray send ts h)\<rparr>"
    "port_vec p' = port_vec p" "pn_sender p' = pn_sender p"
    "\<And>j. j \<noteq> i \<Longrightarrow> port_index p' j = port_index p j"
    "sweep_start p' i = (if is_ok r then sweep_next c (sweep_start p i) else sweep_start p i)"
proof -
  have len: "length (port_vec p) = 65535"
    using assms(1) by (simp add: punch_inv_def)
  obtain r0 h0 where s: "spray send ts h = (r0, h0)" by (cases "spray send ts h")
  have eq: "r = r0 \<and> sh' = sh\<lparr>calls := h0\<rparr> \<and>
      p' = p\<lparr>port_index := (if is_ok r0 then (port_index p)(i \<mapsto> sweep_next c (sweep_start p i))
             else if is_ok (fst (spray send (guesses shuf c info) h)) then (port_index p)(i \<mapsto> sweep_start p i)
             else port_index p)\<rparr>"
    using assms(4,6) s
    by (clarsimp simp: punch_open [OF assms(3)] punch_symmetric_spray [OF assms(2,5) len sweep_start_bound [OF assms(1)]]
        c_def send_def h_def ts_def Let_def)
  then show "r = fst (spray send ts h)" "sh' = sh\<lparr>calls := snd (spray send ts h)\<rparr>"
    "port_vec p' = port_vec p" "pn_sender p' = pn_sender p"
    by (simp_all add: s)
  show "port_index p' j = port_index p j" if "j \<noteq> i" for j
    using eq that by simp
  show "sweep_start p' i = (if is_ok r then sweep_next c (sweep_start p i) else sweep_start p i)"
    using eq by (simp add: sweep_start_def)
qed

lemma punch_panics:
  assumes "punch_reach p" and "permutes shuf"
  shows "fst (punch chk os shuf buf i info p sh) = Panic \<longleftrightarrow>
    chk \<and> status sh \<noteq> StClose \<and> nat_type info = NatSymmetric \<and>
    public_port info = 0 \<and> public_port_range info = 0"
proof (cases "status sh = StClose")
  case True
  then show ?thesis by (simp add: punch_closed)
next
  case op: False
  show ?thesis
  proof (cases "nat_type info")
    case NatCone
    then show ?thesis
      using op one.cone_spec [of os "pn_sender p" buf "public_ips info" "public_port info"]
      by (simp add: punch_open Let_def case_prod_beta) blast
  next
    case sym: NatSymmetric
    show ?thesis
    proof (cases "chk \<and> port_zero info")
      case True
      with op sym show ?thesis
        by (simp add: punch_open punch_symmetric_panics) (simp add: port_zero_def)
    next
      case False
      obtain r p' sh' where e: "punch chk os shuf buf i info p sh = (r, (p', sh'))"
        by (cases "punch chk os shuf buf i info p sh") auto
      have "r \<noteq> Panic"
        unfolding punch_request_cases(1) [OF punch_inv_reach [OF assms(1)] assms(2) op sym False e]
        by (rule pun.spray_no_panic)
      with e False show ?thesis by (auto simp: port_zero_def)
    qed
  qed
qed

text \<open>
  C32: A request never panics but in one case: with overflow checks on, on an open channel, for a
  symmetric peer whose public port and port range are both 0 (values that come from the peer).
\<close>

theorem punch_panics_iff:
  assumes "punch_reach p" and "permutes shuf"
  shows "fst (punch chk os shuf buf i info p sh) = Panic \<longleftrightarrow>
    chk \<and> status sh \<noteq> StClose \<and> nat_type info = NatSymmetric \<and>
    public_port info = 0 \<and> public_port_range info = 0"
  using assms by (rule punch_panics)

definition sample_punch :: "nat punch" where
  "sample_punch = punch_new (\<lambda>xs. xs) \<lparr>sd_default_udp = 5\<rparr>"

lemma sample_punch_reach: "punch_reach sample_punch"
  unfolding sample_punch_def by (rule punch_reach.fresh) (rule permutes_id)

theorem punch_panics_iff_witness:
  "fst (punch True (\<lambda>h s b a. Inr 1) (\<lambda>xs. xs) [9] 4 (nat_info_new [IpV4 7] 0 0 (IpV4 0) 0 NatSymmetric)
     sample_punch (shared_new StCone)) = Panic"
  by (simp add: punch_panics_iff [OF sample_punch_reach permutes_id] shared_new_def nat_info_new_def)

text \<open>
  C9: What one request for a symmetric peer sends. The local address, if it was told, gets the first
  datagrams, from the default socket. Then only the listed targets get datagrams (the guesses and
  the next piece of the shuffled ports, each list cut one short of the budget), only with the given
  bytes and only from the default socket, or from all sockets when we are not on a cone NAT. On
  success all of them are reached and the peer's position moves on; on an error it stays.
\<close>

theorem symmetric_request_sends:
  assumes "punch_reach p" and "permutes shuf" and "status sh \<noteq> StClose"
    and "nat_type info = NatSymmetric" and "\<not> (chk \<and> port_zero info)"
    and "punch chk os shuf buf i info p sh = (r, (p', sh'))"
  defines "c \<equiv> status sh = StCone"
  defines "ts \<equiv> guesses shuf c info @ sweep c (sweep_start p i) (port_vec p) info"
  shows "\<exists>loc ext. sends (calls sh') = sends (calls sh) @ loc @ map (\<lambda>(s, a). (s, buf, a)) ext \<and>
    set loc = (\<lambda>a. (sd_default_udp (pn_sender p), buf, a)) ` set (local_target info) \<and>
    set ext \<subseteq> set (punch_socks (pn_sender p) (share_info sh) c) \<times> set ts \<and>
    (r = Ok () \<longrightarrow> set ext = set (punch_socks (pn_sender p) (share_info sh) c) \<times> set ts) \<and>
    sweep_start p' i = (if r = Ok () then sweep_next c (sweep_start p i) else sweep_start p i)"
proof -
  let ?h = "after_local os (pn_sender p) buf info (calls sh)"
  note cs = punch_request_cases [OF punch_inv_reach [OF assms(1)] assms(2-6), folded c_def, folded ts_def]
  have ok: "is_ok r \<longleftrightarrow> r = Ok ()" by (cases r) auto
  obtain loc where loc: "sends ?h = sends (calls sh) @ loc"
    "set loc = (\<lambda>a. (sd_default_udp (pn_sender p), buf, a)) ` set (local_target info)"
    using after_local_sends [of os "pn_sender p" buf info "calls sh"] by blast
  obtain ext where "sends (calls sh') = sends ?h @ map (\<lambda>(s, a). (s, buf, a)) ext"
    "set ext \<subseteq> set (punch_socks (pn_sender p) (share_info sh) c) \<times> set ts"
    "is_ok r \<longrightarrow> set ext = set (punch_socks (pn_sender p) (share_info sh) c) \<times> set ts"
    using pun.spray_spec [of os "pn_sender p" "share_info sh" c buf ts ?h] cs(1,2) by auto
  with loc cs(6) ok show ?thesis
    by (intro exI [of _ loc] exI [of _ ext]) auto
qed

theorem symmetric_request_sends_witness:
  "(\<lambda>(s, b, a). (s, b)) ` set (sends (calls (snd (snd (punch True (\<lambda>h s b a. Inr 1) (\<lambda>xs. xs) [9] 4
      (nat_info_new [IpV4 7] 500 2 (IpV4 0) 0 NatSymmetric) sample_punch (shared_new StCone)))))) \<subseteq> {(5, [9])}"
proof -
  let ?i = "nat_info_new [IpV4 7] 500 2 (IpV4 0) 0 NatSymmetric"
  let ?r = "punch True (\<lambda>h s b a. Inr 1) (\<lambda>xs. xs) [9] 4 ?i sample_punch (shared_new StCone)"
  obtain r p' sh' where e: "?r = (r, (p', sh'))" by (cases ?r) auto
  have a: "status (shared_new StCone :: nat shared) \<noteq> StClose" "nat_type ?i = NatSymmetric"
    and b: "\<not> (True \<and> port_zero ?i)"
    by (simp_all add: shared_new_def nat_info_new_def port_zero_def)
  show ?thesis
    unfolding e using symmetric_request_sends [OF sample_punch_reach permutes_id a b e]
    by (auto simp: local_target_def nat_info_new_def shared_new_def punch_socks_def sample_punch_def
        punch_new_def split: if_splits)
qed

text \<open>
  A request for a cone peer: every datagram goes from the default socket to the local address or
  to the public port at one of the public addresses; on success every public address has got one.
  The ports kept for symmetric peers are not touched.
\<close>

theorem cone_request_sends:
  assumes "status sh \<noteq> StClose" and "nat_type info = NatCone"
    and "punch chk os shuf buf i info p sh = (r, (p', sh'))"
  shows "p' = p \<and> (\<exists>ext. sends (calls sh') =
      sends (calls sh) @ map (\<lambda>a. (sd_default_udp (pn_sender p), buf, a)) ext \<and>
    set ext \<subseteq> set (local_target info) \<union> (\<lambda>ip. socket_addr_new ip (public_port info)) ` set (public_ips info) \<and>
    (r = Ok () \<longrightarrow> (\<lambda>ip. socket_addr_new ip (public_port info)) ` set (public_ips info) \<subseteq> set ext))"
proof -
  let ?d = "sd_default_udp (pn_sender p)"
  let ?h = "after_local os (pn_sender p) buf info (calls sh)"
  let ?c = "punch_cone (sender_send_to_addr os (pn_sender p) buf) (public_ips info) (public_port info) ?h"
  have e: "p' = p" "r = fst ?c" "calls sh' = snd ?c"
    using assms(2,3) by (auto simp: punch_open [OF assms(1)] Let_def split: prod.splits)
  have as_map: "xs = map (\<lambda>a. (?d, buf, a)) (map (snd \<circ> snd) xs)"
    if "\<forall>x \<in> set xs. fst x = ?d \<and> fst (snd x) = buf" for xs :: "(sock \<times> bytes \<times> socket_addr) list"
    using that by (induction xs) auto
  obtain loc where loc: "sends ?h = sends (calls sh) @ loc"
    "set loc = (\<lambda>a. (?d, buf, a)) ` set (local_target info)"
    using after_local_sends [of os "pn_sender p" buf info "calls sh"] by blast
  obtain ext where ext: "sends (snd ?c) = sends ?h @ map (\<lambda>(s, a). (s, buf, a)) ext"
    "set ext \<subseteq> {?d} \<times> set (targets [public_port info] (public_ips info))"
    "is_ok (fst ?c) \<longrightarrow> set ext = {?d} \<times> set (targets [public_port info] (public_ips info))"
    using one.cone_spec [of os "pn_sender p" buf "public_ips info" "public_port info" ?h] by auto
  let ?l = "map (snd \<circ> snd) loc" and ?e = "map snd ext"
  have "loc = map (\<lambda>a. (?d, buf, a)) ?l"
    by (rule as_map) (use loc in auto)
  moreover have "map (\<lambda>(s, a). (s, buf, a)) ext = map (\<lambda>a. (?d, buf, a)) ?e"
    using ext(2) by auto
  ultimately have "sends (calls sh') = sends (calls sh) @ map (\<lambda>a. (?d, buf, a)) (?l @ ?e)"
    using loc(1) ext(1) e(3) by simp
  moreover have "set (?l @ ?e) \<subseteq>
      set (local_target info) \<union> (\<lambda>ip. socket_addr_new ip (public_port info)) ` set (public_ips info)"
    using loc(2) ext(2) by (auto simp: targets_one_port)
  moreover have "(\<lambda>ip. socket_addr_new ip (public_port info)) ` set (public_ips info) \<subseteq> set (?l @ ?e)"
    if "r = Ok ()"
  proof -
    have "set ?e = set (targets [public_port info] (public_ips info))"
      using ext(3) that e(2) by simp
    then show ?thesis by (simp add: targets_one_port)
  qed
  ultimately show ?thesis using e(1) by blast
qed

theorem cone_request_sends_witness:
  "\<exists>ext. sends (calls (snd (snd (punch True (\<lambda>h s b a. Inr 1) (\<lambda>xs. xs) [9] 4
      (nat_info_new [IpV4 7, IpV4 8] 500 0 (IpV4 0) 0 NatCone) sample_punch (shared_new StCone))))) =
    map (\<lambda>a. (5, [9], a)) ext \<and> set ext \<subseteq> {SockV4 7 500, SockV4 8 500}"
proof -
  let ?i = "nat_info_new [IpV4 7, IpV4 8] 500 0 (IpV4 0) 0 NatCone"
  let ?r = "punch True (\<lambda>h s b a. Inr 1) (\<lambda>xs. xs) [9] 4 ?i sample_punch (shared_new StCone)"
  obtain r p' sh' where e: "?r = (r, (p', sh'))" by (cases ?r) auto
  have "status (shared_new StCone :: nat shared) \<noteq> StClose" "nat_type ?i = NatCone"
    by (simp_all add: shared_new_def nat_info_new_def)
  from cone_request_sends [OF this e] show ?thesis
    unfolding e by (auto simp: local_target_def nat_info_new_def shared_new_def sample_punch_def punch_new_def)
qed

text \<open>
  The guesses lie in the window around the public port that its range gives, cut to the valid
  ports 1 to 65535: distinct ports of the window, sixty (or five) of them, or all when the window
  is smaller. Computing them never overflows, whatever the peer said, except for port and range 0.
\<close>

theorem predicted_ports_in_window:
  assumes "permutes shuf" and "public_port info \<noteq> 0 \<or> public_port_range info \<noteq> 0"
  shows "\<exists>ps. predicted_ports chk shuf max_k1 info = Ok ps \<and> distinct ps \<and>
    (\<forall>q \<in> set ps. q \<noteq> 0 \<and>
       unat (public_port info) - unat (public_port_range info) \<le> unat q \<and>
       unat q \<le> unat (public_port info) + unat (public_port_range info)) \<and>
    length ps = min (unat max_k1)
      (min 65535 (unat (public_port info) + unat (public_port_range info)) + 1
       - max 1 (unat (public_port info) - unat (public_port_range info)))"
proof -
  let ?w = "ports_between (window_low info) (window_high info)"
  have hb: "window_high info \<le> 65535" by (simp add: window_high_def)
  have "window_low info \<le> window_high info"
    using assms(2) by (simp add: window_nonempty)
  then have "predicted_ports chk shuf max_k1 info = Ok (take (unat max_k1) (shuf ?w))"
    by (rule predicted_ports_window [OF assms(1)])
  moreover have "distinct (take (unat max_k1) (shuf ?w))"
    using permutes_list(3) [OF assms(1), of ?w] ports_between_props(1) [OF hb] by simp
  moreover have "q \<noteq> 0 \<and> unat (public_port info) - unat (public_port_range info) \<le> unat q \<and>
      unat q \<le> unat (public_port info) + unat (public_port_range info)"
    if "q \<in> set (take (unat max_k1) (shuf ?w))" for q
  proof -
    have "q \<in> set ?w"
      using that set_take_subset [of "unat max_k1" "shuf ?w"] permutes_list(1) [OF assms(1), of ?w] by auto
    then have "window_low info \<le> unat q" "unat q \<le> window_high info"
      by (simp_all add: ports_between_props [OF hb])
    then show ?thesis
      by (auto simp: window_low_def window_high_def)
  qed
  moreover have "length (take (unat max_k1) (shuf ?w)) = min (unat max_k1)
      (min 65535 (unat (public_port info) + unat (public_port_range info)) + 1
       - max 1 (unat (public_port info) - unat (public_port_range info)))"
    using permutes_list(2) [OF assms(1), of ?w] ports_between_props(2) [OF hb]
    by (simp add: window_low_def window_high_def min.commute)
  ultimately show ?thesis by blast
qed

theorem predicted_ports_in_window_witness:
  "\<exists>ps. predicted_ports True (\<lambda>xs. xs) 60 (nat_info_new [] 65530 20 (IpV4 0) 0 NatSymmetric) = Ok ps \<and>
     length ps = 26"
  using predicted_ports_in_window [OF permutes_id,
      of "nat_info_new [] 65530 20 (IpV4 0) 0 NatSymmetric" True 60]
  by (auto simp: nat_info_new_def)

subsection \<open>Ports that no sweep tries\<close>

lemma set_take_targets:
  "a \<in> set (take n (targets ports ips)) \<Longrightarrow>
   \<exists>j m. j < length ports \<and> m < length ips \<and> j * length ips + m < n \<and>
     a = socket_addr_new (ips ! m) (ports ! j)"
proof (induction ports arbitrary: n)
  case Nil
  then show ?case by (simp add: targets_def)
next
  case (Cons port ports)
  let ?as = "map (\<lambda>ip. socket_addr_new ip port) ips"
  have t: "targets (port # ports) ips = ?as @ targets ports ips"
    by (simp add: targets_def)
  from Cons.prems consider "a \<in> set (take n ?as)" | "a \<in> set (take (n - length ips) (targets ports ips))"
    by (auto simp: t take_append)
  then show ?case
  proof cases
    case 1
    then obtain m where "m < length ips" "m < n" "a = socket_addr_new (ips ! m) port"
      by (auto simp: in_set_conv_nth)
    then show ?thesis by (intro exI [of _ 0] exI [of _ m]) simp
  next
    case 2
    then obtain j m where "j < length ports" "m < length ips" "j * length ips + m < n - length ips"
      "a = socket_addr_new (ips ! m) (ports ! j)"
      using Cons.IH by blast
    then show ?thesis by (intro exI [of _ "Suc j"] exI [of _ m]) simp
  qed
qed

lemma sweep_positions:
  assumes "socket_addr_new ip (pv ! q) \<in> set (sweep True start pv info)" and "start mod 800 = 0"
    and "distinct pv" and "q < length pv"
  shows "q mod 800 * length (public_ips info) < 799"
proof -
  have mem: "socket_addr_new ip (pv ! q) \<in> set (take 799 (targets (take 800 (drop start pv)) (public_ips info)))"
    using assms(1) by (simp add: sweep_def)
  obtain j m where jm: "j < length (take 800 (drop start pv))" "m < length (public_ips info)"
    "j * length (public_ips info) + m < 799"
    "socket_addr_new ip (pv ! q) = socket_addr_new (public_ips info ! m) (take 800 (drop start pv) ! j)"
    using set_take_targets [OF mem] by blast
  then have "pv ! q = pv ! (start + j)" and "start + j < length pv" and "j < 800"
    by auto
  then have "q = start + j"
    using assms(3,4) by (simp add: nth_eq_iff_index_eq)
  then have "q mod 800 = j"
    using assms(2) \<open>j < 800\<close> by (simp add: mod_add_left_eq [symmetric, of start])
  with jm(3) show ?thesis by simp
qed

definition punch_times ::
    "nat \<Rightarrow> bool \<Rightarrow> os_send \<Rightarrow> shuffle \<Rightarrow> bytes \<Rightarrow> 'id \<Rightarrow> nat_info \<Rightarrow> 'id punch \<times> 'id shared
     \<Rightarrow> 'id punch \<times> 'id shared" where
  "punch_times n chk os shuf buf i info =
     ((\<lambda>(p, sh). snd (punch chk os shuf buf i info p sh)) ^^ n)"

lemma punch_times_Suc:
  "punch_times (Suc n) chk os shuf buf i info x =
     (let (p, sh) = punch_times n chk os shuf buf i info x in snd (punch chk os shuf buf i info p sh))"
  by (simp add: punch_times_def case_prod_beta)

text \<open>What a run of requests for one symmetric peer keeps.\<close>

definition run_ok :: "'id punch \<times> 'id shared \<Rightarrow> 'id \<Rightarrow> nat_info \<Rightarrow> 'id punch \<times> 'id shared \<Rightarrow> bool" where
  "run_ok x i info y \<longleftrightarrow>
     punch_inv (fst y) \<and> port_vec (fst y) = port_vec (fst x) \<and> status (snd y) = StCone \<and>
     sweep_start (fst y) i mod 800 = 0 \<and>
     (\<forall>s b ip q. q < 65535 \<and> 799 \<le> q mod 800 * length (public_ips info) \<and>
        (s, b, socket_addr_new ip (port_vec (fst x) ! q)) \<in> set (sends (calls (snd y))) \<longrightarrow>
        (s, b, socket_addr_new ip (port_vec (fst x) ! q)) \<in> set (sends (calls (snd x))))"

lemma run_ok_step:
  assumes "run_ok x i info y" and "permutes shuf" and "nat_type info = NatSymmetric"
    and "240 \<le> unat (public_port_range info)" and "local_target info = []"
    and "snd (punch chk os shuf buf i info (fst y) (snd y)) = z"
  shows "run_ok x i info z"
proof -
  obtain p sh where y: "y = (p, sh)" by (cases y)
  obtain p' sh' where z: "z = (p', sh')" by (cases z)
  obtain r where e: "punch chk os shuf buf i info p sh = (r, (p', sh'))"
    using assms(6) y z by (cases "punch chk os shuf buf i info p sh") auto
  have inv: "punch_inv p" and cone: "status sh = StCone" and start: "sweep_start p i mod 800 = 0"
    and pv: "port_vec p = port_vec (fst x)"
    using assms(1) by (simp_all add: run_ok_def y)
  have op: "status sh \<noteq> StClose" and pz: "\<not> (chk \<and> port_zero info)"
    using cone assms(4) by (auto simp: port_zero_def)
  have g: "guesses shuf True info = []"
    using assms(4) by (simp add: guesses_def)
  have l: "after_local os (pn_sender p) buf info (calls sh) = calls sh"
    using assms(5) by (auto simp: after_local_def local_target_def split: if_splits)
  note cs = punch_request_cases [OF inv assms(2) op assms(3) pz e]
  have sent: "(s, b, a) \<in> set (sends (calls sh)) \<or> a \<in> set (sweep True (sweep_start p i) (port_vec p) info)"
    if "(s, b, a) \<in> set (sends (calls sh'))" for s b a
    using that pun.spray_only cs(2) by (fastforce simp: cone g l)
  have "distinct (port_vec p)" and "length (port_vec p) = 65535"
    using inv by (simp_all add: punch_inv_def)
  then have "(s, b, socket_addr_new ip (port_vec p ! q)) \<in> set (sends (calls sh))"
    if "q < 65535" "799 \<le> q mod 800 * length (public_ips info)"
      "(s, b, socket_addr_new ip (port_vec p ! q)) \<in> set (sends (calls sh'))" for s b ip q
    using sent [OF that(3)] sweep_positions [of ip "port_vec p" q "sweep_start p i" info] start that(1,2)
    by auto
  moreover have "sweep_start p' i mod 800 = 0"
    using start cs(6) by (simp add: cone sweep_next_def Let_def)
  ultimately show ?thesis
    using assms(1) punch_inv_request [OF inv assms(2) e] cs(2,3)
    unfolding run_ok_def y z by (simp add: pv)
qed

text \<open>
  C33: Some ports are never tried. For a symmetric peer whose ports vary too much to be guessed, a peer
  behind a cone NAT sweeps the shuffled list in pieces of 800, and each request stops one short of
  800 datagrams: a port at position \<open>q\<close> of the list gets no datagram, however many requests are
  made, if \<open>q mod 800\<close> times the number of public addresses is 799 or more. With one public
  address that is every 800th port; with two, half of all ports.
\<close>

theorem ports_never_tried:
  assumes "punch_reach p" and "permutes shuf" and "status sh = StCone"
    and "nat_type info = NatSymmetric" and "240 \<le> unat (public_port_range info)"
    and "is_unspecified (local_ip info) \<and> local_port info = 0" and "port_index p i = None"
    and "q < 65535" and "799 \<le> q mod 800 * length (public_ips info)"
    and "(s, b, socket_addr_new ip (port_vec p ! q)) \<in>
      set (sends (calls (snd (punch_times n chk os shuf buf i info (p, sh)))))"
  shows "(s, b, socket_addr_new ip (port_vec p ! q)) \<in> set (sends (calls sh))"
proof -
  have l: "local_target info = []"
    using assms(6) by (simp add: local_target_def)
  have "run_ok (p, sh) i info (punch_times n chk os shuf buf i info (p, sh))"
  proof (induction n)
    case 0
    then show ?case
      using assms(3,7) punch_inv_reach [OF assms(1)] by (simp add: punch_times_def run_ok_def sweep_start_def)
  next
    case (Suc n)
    then show ?case
      by (rule run_ok_step [OF _ assms(2,4,5) l]) (simp add: punch_times_Suc case_prod_beta)
  qed
  with assms(8-10) show ?thesis
    unfolding run_ok_def by auto
qed

theorem ports_never_tried_witness:
  "(5, [9], SockV4 7 800) \<notin> set (sends (calls (snd (punch_times 500 True (\<lambda>h s b a. Inr 1) (\<lambda>xs. xs) [9] 4
     (nat_info_new [IpV4 7] 5000 300 (IpV4 0) 0 NatSymmetric) (sample_punch, shared_new StCone)))))"
proof
  let ?i = "nat_info_new [IpV4 7] 5000 300 (IpV4 0) 0 NatSymmetric"
  assume a: "(5, [9], SockV4 7 800) \<in> set (sends (calls (snd (punch_times 500 True (\<lambda>h s b a. Inr 1)
    (\<lambda>xs. xs) [9] 4 ?i (sample_punch, shared_new StCone)))))"
  have "[1..<Suc 65535] ! 799 = 800"
    by (subst nth_upt) simp_all
  then have pv: "port_vec sample_punch ! 799 = 800"
    by (simp add: sample_punch_def punch_new_def all_ports_eq ports_between_def del: upt_Suc)
  have m: "socket_addr_new (IpV4 7) (port_vec sample_punch ! 799) = SockV4 7 800"
    by (simp add: pv)
  have "(5, [9], socket_addr_new (IpV4 7) (port_vec sample_punch ! 799)) \<in>
      set (sends (calls (shared_new StCone :: nat shared)))"
    by (rule ports_never_tried [OF sample_punch_reach permutes_id _ _ _ _ _ _ _ a [folded m]])
      (simp_all add: nat_info_new_def shared_new_def sample_punch_def punch_new_def)
  then show False by (simp add: shared_new_def)
qed

subsection \<open>The queue of requests\<close>

text \<open>
  What the code relies on of a crossbeam channel \<open>'q\<close> whose waiting messages are \<open>content\<close>: a
  message that is accepted goes to the end, and a receive on a channel that has messages takes the
  first one.
\<close>

definition queue_laws ::
    "('q \<Rightarrow> 'm list) \<Rightarrow> ('q \<Rightarrow> 'm \<Rightarrow> try_send_error + 'q) \<Rightarrow>
     (nat \<Rightarrow> 'q \<Rightarrow> (recv_timeout_error + 'm) \<times> 'q) \<Rightarrow> ('q \<Rightarrow> (unit + 'm) \<times> 'q) \<Rightarrow> bool" where
  "queue_laws content try_send recv_timeout recv \<longleftrightarrow>
     (\<forall>q x q'. try_send q x = Inr q' \<longrightarrow> content q' = content q @ [x]) \<and>
     (\<forall>q x xs t. content q = x # xs \<longrightarrow> (\<exists>q'. recv_timeout t q = (Inr x, q') \<and> content q' = xs)) \<and>
     (\<forall>q x xs. content q = x # xs \<longrightarrow> (\<exists>q'. recv q = (Inr x, q') \<and> content q' = xs))"

lemma next_request_first:
  assumes "queue_laws content try_send recv_timeout recv" and "content q = x # xs"
  shows "\<exists>q'. next_request recv_timeout recv limit q = (Ok x, q') \<and> content q' = xs"
proof -
  obtain q1 where "recv q = (Inr x, q1)" "content q1 = xs"
    using assms unfolding queue_laws_def by blast
  moreover obtain q2 where "recv_timeout (the limit) q = (Inr x, q2)" "content q2 = xs"
    using assms unfolding queue_laws_def by blast
  ultimately show ?thesis
    by (cases limit) (simp_all add: next_request_def)
qed

text \<open>
  A request that \<^verbatim>\<open>Channel::punch\<close> accepts on an empty queue is the one that the matching side of
  \<^verbatim>\<open>Punch\<close> takes out next, unchanged, with or without a time limit: requests for symmetric peers
  through \<^verbatim>\<open>next_symmetric\<close>, those for cone peers through \<^verbatim>\<open>next_cone\<close>; the other queue is not
  touched. A request that is refused leaves both queues alone and the error says "busy" or "closed".
\<close>

theorem punch_request_roundtrip:
  assumes "queue_laws content try_send recv_timeout recv"
    and "content (cone_queue qs) = []" and "content (symmetric_queue qs) = []"
    and "channel_punch try_send peer info qs = (r, qs')"
  shows "(r = Ok () \<and>
      (case nat_type info of
         NatSymmetric \<Rightarrow> cone_queue qs' = cone_queue qs \<and>
           (\<exists>q. next_symmetric recv_timeout recv limit qs' = (Ok (peer, info), qs'\<lparr>symmetric_queue := q\<rparr>) \<and>
                content q = [])
       | NatCone \<Rightarrow> symmetric_queue qs' = symmetric_queue qs \<and>
           (\<exists>q. next_cone recv_timeout recv limit qs' = (Ok (peer, info), qs'\<lparr>cone_queue := q\<rparr>) \<and>
                content q = []))) \<or>
    (qs' = qs \<and> (r = Err (IoError Other ''busy'') \<or> r = Err (IoError Other ''closed'')))"
proof -
  have sent: "content q' = [x]" if "try_send q x = Inr q'" "content q = []" for q x q'
    using assms(1) that unfolding queue_laws_def by (metis append_Nil)
  have recvd: "\<exists>q'. next_request recv_timeout recv limit q = (Ok x, q') \<and> content q' = []"
    if "content q = [x]" for q x
    using next_request_first [OF assms(1) that] .
  define q where "q = (case nat_type info of NatSymmetric \<Rightarrow> symmetric_queue qs | NatCone \<Rightarrow> cone_queue qs)"
  have "content q = []"
    using assms(2,3) by (simp add: q_def split: nat_type.split)
  show ?thesis
  proof (cases "try_send q (peer, info)")
    case (Inl e)
    with assms(4) show ?thesis
      by (cases e; cases "nat_type info") (auto simp: channel_punch_def q_def)
  next
    case (Inr q1)
    obtain q2 where "next_request recv_timeout recv limit q1 = (Ok (peer, info), q2)" "content q2 = []"
      using recvd [OF sent [OF Inr \<open>content q = []\<close>]] by blast
    with Inr assms(4) show ?thesis
      by (cases "nat_type info") (auto simp: channel_punch_def q_def next_symmetric_def next_cone_def)
  qed
qed

text \<open>A channel of capacity one, as \<^verbatim>\<open>bounded(1)\<close> makes it.\<close>

definition one_send :: "'m list \<Rightarrow> 'm \<Rightarrow> try_send_error + 'm list" where
  "one_send q x = (if q = [] then Inr [x] else Inl Full)"

definition one_recv :: "'e \<Rightarrow> 'm list \<Rightarrow> ('e + 'm) \<times> 'm list" where
  "one_recv e q = (case q of [] \<Rightarrow> (Inl e, []) | x # xs \<Rightarrow> (Inr x, xs))"

theorem punch_request_roundtrip_witness:
  "\<exists>q. next_symmetric (\<lambda>_. one_recv RecvTimeout) (one_recv ()) (Some 5)
      \<lparr>cone_queue = [], symmetric_queue = [(4::nat, nat_info_new [] 1 2 (IpV4 0) 0 NatSymmetric)]\<rparr> =
    (Ok (4, nat_info_new [] 1 2 (IpV4 0) 0 NatSymmetric), \<lparr>cone_queue = [], symmetric_queue = q\<rparr>)"
proof -
  let ?i = "nat_info_new [] 1 2 (IpV4 0) 0 NatSymmetric"
  have laws: "queue_laws (\<lambda>q. q) one_send (\<lambda>_. one_recv RecvTimeout) (one_recv ())"
    by (auto simp: queue_laws_def one_send_def one_recv_def split: if_splits)
  have "channel_punch one_send (4::nat) ?i \<lparr>cone_queue = [], symmetric_queue = []\<rparr> =
      (Ok (), \<lparr>cone_queue = [], symmetric_queue = [(4, ?i)]\<rparr>)"
    by (simp add: channel_punch_def one_send_def nat_info_new_def)
  from punch_request_roundtrip [OF laws _ _ this, of "Some 5"] show ?thesis
    by (auto simp: nat_info_new_def)
qed

end
