(* ===== verification/Peer.thy ===== *)
theory Peer
  imports Messages Recv Idle Punch_Props
begin

section \<open>The peer program\<close>

text \<open>
  \<^verbatim>\<open>examples/peer.rs\<close>: the threads that use the library. A \<^verbatim>\<open>String\<close> is its bytes; the id of a peer in the
  route tables is the decimal text of its number. Each thread is a loop over the rounds it goes
  through. The answers of the system, the clock, and what the other threads do to the shared state
  between two accesses of a thread are arguments of each round.
\<close>

type_synonym peer_id = bytes

definition id_text :: "u32 \<Rightarrow> peer_id" where
  "id_text n = show_nat (unat n)"

lemma id_text_inject [simp]: "id_text m = id_text n \<longleftrightarrow> m = n"
  by (simp add: id_text_def show_nat_inject word_unat_eq_iff)

subsection \<open>Reporting to the server\<close>

text \<open>
  \<open>server\<close> is what the argument of the program parses to. The report is sent, and the next datagram
  must be the one byte 252; \<open>None\<close> says that \<^verbatim>\<open>recv_from\<close> is still waiting after \<open>fuel\<close> rounds.
\<close>

definition report_to_server ::
    "os_send \<Rightarrow> nat \<Rightarrow> peer_id recv_env \<Rightarrow> u32 \<Rightarrow> u32 \<Rightarrow> socket_addr option \<Rightarrow> bytes \<Rightarrow> channel
     \<Rightarrow> peer_id shared \<Rightarrow> (unit outcome \<times> bytes \<times> channel \<times> peer_id shared) option" where
  "report_to_server os fuel env my_peer_id peer_id server buf ch sh =
     (case server of
        None \<Rightarrow> Some (Panic, buf, ch, sh)
      | Some addr \<Rightarrow>
          (case unwrap (channel_send_to_addr os ch (report_message my_peer_id peer_id) addr sh) of
             (Ok _, sh1) \<Rightarrow>
               (case recv_from fuel env 0 0 ch sh1 of
                  None \<Rightarrow> None
                | Some (Ok (data, _), _, ch2, sh2) \<Rightarrow>
                    let (n, buf') = receive_into buf data in
                    Some (if n \<noteq> 1 \<or> buf' ! 0 \<noteq> 252 then Panic else Ok (), buf', ch2, sh2)
                | Some (_, _, ch2, sh2) \<Rightarrow> Some (Panic, buf, ch2, sh2))
           | (_, sh1) \<Rightarrow> Some (Panic, buf, ch, sh1)))"

subsection \<open>Heartbeats\<close>

text \<open>The address of the heartbeats is a constant of the program. \<open>others\<close>: what happens while it sleeps.\<close>

definition heartbeat_addr :: socket_addr_v4 where
  "heartbeat_addr = the (parse_addr_v4 (ascii ''150.158.95.11:3000''))"

definition sock_of_v4 :: "socket_addr_v4 \<Rightarrow> socket_addr" where
  "sock_of_v4 a = SockV4 (v4_ip a) (v4_port a)"

fun heartbeat_loop ::
    "os_send \<Rightarrow> channel \<Rightarrow> (peer_id shared \<Rightarrow> peer_id shared) list \<Rightarrow> peer_id shared
     \<Rightarrow> loop_end \<times> peer_id shared" where
  "heartbeat_loop os ch [] sh = (Waiting, sh)"
| "heartbeat_loop os ch (others # es) sh =
     (case channel_send_to_addr os ch [255] (sock_of_v4 heartbeat_addr) sh of
        (Ok _, sh1) \<Rightarrow> heartbeat_loop os ch es (others sh1)
      | (Err _, sh1) \<Rightarrow> (Stopped, sh1)
      | (Panic, sh1) \<Rightarrow> (Panicked, sh1))"

subsection \<open>The receive thread\<close>

record peer_state =
  pr_channel :: channel
  pr_shared :: "peer_id shared"
  pr_buf :: bytes
  pr_greeted :: bool
  pr_requests :: "(ip_addr \<times> u16 \<times> u32) list"
  pr_texts :: "bytes list"

text \<open>
  \<open>pr_greeted\<close> is \<^verbatim>\<open>status\<close>, \<open>pr_requests\<close> what was sent to the trigger thread, \<open>pr_texts\<close> the texts of
  the data messages that were logged. \<open>pe_other\<close> is what the other threads do before the test of the
  route, before the route is added, and before the greeting is sent; \<open>pe_rx_alive\<close> says whether the
  receiving end of the trigger thread still exists.
\<close>

record peer_env =
  pe_recv :: "peer_id recv_env"
  pe_send :: os_send
  pe_clock :: i64
  pe_other :: "nat \<Rightarrow> peer_id shared \<Rightarrow> peer_id shared"
  pe_rx_alive :: bool

definition learn_route :: "peer_env \<Rightarrow> route_key \<Rightarrow> peer_id \<Rightarrow> peer_id shared \<Rightarrow> peer_id shared" where
  "learn_route env key i sh =
     (let sh1 = pe_other env 0 sh in
      if channel_route_to_id key sh1 = None
      then channel_add_route i (route_from key 10 64) (pe_clock env) (pe_other env 1 sh1)
      else sh1)"

definition coordinate :: "peer_env \<Rightarrow> nat \<Rightarrow> peer_state \<Rightarrow> unit outcome \<times> peer_state" where
  "coordinate env len st =
     and_then (slice (pr_buf st) 1 5, st) (\<lambda>b st.
     and_then (unwrap_opt (bytes_to_u32 b), st) (\<lambda>peer_id st.
     and_then (slice (pr_buf st) 5 len, st) (\<lambda>peer_addr st.
     and_then (unwrap_opt (parse_addr_v4 peer_addr), st) (\<lambda>s st.
       if pe_rx_alive env
       then (Ok (), st\<lparr>pr_requests := pr_requests st @ [(IpV4 (v4_ip s), v4_port s, peer_id)]\<rparr>)
       else (Panic, st)))))"

definition greet :: "peer_env \<Rightarrow> u32 \<Rightarrow> peer_id \<Rightarrow> peer_state \<Rightarrow> unit outcome \<times> peer_state" where
  "greet env my_peer_id remote_peer_id st =
     (if pr_greeted st then (Ok (), st)
      else
        let (r, sh) = channel_send_to_id (pe_send env) (pe_clock env) (pr_channel st)
                        (greeting my_peer_id) remote_peer_id (pe_other env 2 (pr_shared st))
        in and_then (unwrap (r, st\<lparr>pr_shared := sh\<rparr>)) (\<lambda>_ st. (Ok (), st\<lparr>pr_greeted := True\<rparr>)))"

definition peer_message ::
    "peer_env \<Rightarrow> nat \<Rightarrow> route_key \<Rightarrow> peer_id \<Rightarrow> peer_state \<Rightarrow> unit outcome \<times> peer_state" where
  "peer_message env len key remote_peer_id st =
     (if len > 0 \<and> pr_buf st ! 0 = 0
      then (Ok (), st\<lparr>pr_shared := learn_route env key remote_peer_id (pr_shared st)\<rparr>)
      else if len > 0 \<and> pr_buf st ! 0 = 1
      then and_then (slice (pr_buf st) 4 len,
                     st\<lparr>pr_shared := learn_route env key remote_peer_id (pr_shared st)\<rparr>) (\<lambda>text st.
             (Ok (), st\<lparr>pr_texts := pr_texts st @ [text]\<rparr>))
      else (Ok (), st))"

definition peer_datagram ::
    "peer_env \<Rightarrow> u32 \<Rightarrow> nat \<Rightarrow> route_key \<Rightarrow> peer_state \<Rightarrow> unit outcome \<times> peer_state" where
  "peer_datagram env my_peer_id len key st =
     (if len > 0 \<and> (pr_buf st ! 0 = 255 \<or> pr_buf st ! 0 = 252) then (Ok (), st)
      else if len > 0 \<and> pr_buf st ! 0 = 254 then coordinate env len st
      else if len < 5 then (Panic, st)
      else
        and_then (slice (pr_buf st) 1 5, st) (\<lambda>b st.
        and_then (unwrap_opt (bytes_to_u32 b), st) (\<lambda>n st.
          let remote_peer_id = id_text n in
          and_then (peer_message env len key remote_peer_id st) (\<lambda>_ st.
            greet env my_peer_id remote_peer_id st))))"

fun receive_loop ::
    "nat \<Rightarrow> u32 \<Rightarrow> peer_env list \<Rightarrow> peer_state \<Rightarrow> (loop_end \<times> peer_state) option" where
  "receive_loop fuel my_peer_id [] st = Some (Waiting, st)"
| "receive_loop fuel my_peer_id (env # es) st =
     (case recv_from fuel (pe_recv env) 0 0 (pr_channel st) (pr_shared st) of
        None \<Rightarrow> None
      | Some (Err _, _, ch, sh) \<Rightarrow> Some (Stopped, st\<lparr>pr_channel := ch, pr_shared := sh\<rparr>)
      | Some (Panic, _, ch, sh) \<Rightarrow> Some (Panicked, st\<lparr>pr_channel := ch, pr_shared := sh\<rparr>)
      | Some (Ok (data, key), _, ch, sh) \<Rightarrow>
          let (len, buf) = receive_into (pr_buf st) data in
          (case peer_datagram env my_peer_id len key
                  (st\<lparr>pr_channel := ch, pr_shared := sh, pr_buf := buf\<rparr>) of
             (Ok _, st') \<Rightarrow> receive_loop fuel my_peer_id es st'
           | (_, st') \<Rightarrow> Some (Panicked, st')))"

subsection \<open>The trigger threads\<close>

text \<open>One round asks for a cone and for a symmetric peer; the first refusal ends the thread.\<close>

definition trigger_info :: "nat_type \<Rightarrow> ip_addr \<Rightarrow> u16 \<Rightarrow> nat_info" where
  "trigger_info nt ip port =
     nat_info_new [ip] port 0 ip port nt"

definition trigger_round ::
    "('q \<Rightarrow> peer_id \<times> nat_info \<Rightarrow> try_send_error + 'q) \<Rightarrow> ip_addr \<times> u16 \<times> u32
     \<Rightarrow> 'q punch_queues \<Rightarrow> unit outcome \<times> 'q punch_queues" where
  "trigger_round try_send = (\<lambda>(ip, port, peer_id) qs.
     and_then (channel_punch try_send (id_text peer_id) (trigger_info NatCone ip port) qs) (\<lambda>_ qs.
       channel_punch try_send (id_text peer_id) (trigger_info NatSymmetric ip port) qs))"

fun trigger_loop ::
    "('q \<Rightarrow> peer_id \<times> nat_info \<Rightarrow> try_send_error + 'q) \<Rightarrow> ip_addr \<times> u16 \<times> u32
     \<Rightarrow> ('q punch_queues \<Rightarrow> 'q punch_queues) list \<Rightarrow> 'q punch_queues \<Rightarrow> loop_end \<times> 'q punch_queues" where
  "trigger_loop try_send req [] qs = (Waiting, qs)"
| "trigger_loop try_send req (others # es) qs =
     (case trigger_round try_send req qs of
        (Ok _, qs') \<Rightarrow> trigger_loop try_send req es (others qs')
      | (Err _, qs') \<Rightarrow> (Stopped, qs')
      | (Panic, qs') \<Rightarrow> (Panicked, qs'))"

text \<open>
  The thread that starts them: each request gets a trigger thread with a clone of the channel; a clone
  that fails panics, and the receiving end of the requests is gone.
\<close>

fun spawn_triggers ::
    "os_sockets list \<Rightarrow> channel \<Rightarrow> (ip_addr \<times> u16 \<times> u32) list \<Rightarrow> peer_id shared
     \<Rightarrow> loop_end \<times> (channel \<times> ip_addr \<times> u16 \<times> u32) list \<times> peer_id shared" where
  "spawn_triggers (os # oss) ch (req # reqs) sh =
     (case channel_try_clone os ch sh of
        (Ok c, sh1) \<Rightarrow>
          (let (e, started, sh2) = spawn_triggers oss ch reqs sh1 in (e, (c, req) # started, sh2))
      | (_, sh1) \<Rightarrow> (Panicked, [], sh1))"
| "spawn_triggers _ ch _ sh = (Waiting, [], sh)"

subsection \<open>The punch threads\<close>

text \<open>
  Both threads are this loop, one with \<^verbatim>\<open>next_cone\<close>, one with \<^verbatim>\<open>next_symmetric\<close> (\<open>next_req\<close>); \<open>others\<close>
  is what happens to the queues and the shared state between two rounds.
\<close>

fun punch_loop ::
    "('q punch_queues \<Rightarrow> (peer_id \<times> nat_info) outcome \<times> 'q punch_queues) \<Rightarrow> bool \<Rightarrow> os_send \<Rightarrow> shuffle \<Rightarrow> u32
     \<Rightarrow> ('q punch_queues \<times> peer_id shared \<Rightarrow> 'q punch_queues \<times> peer_id shared) list
     \<Rightarrow> peer_id punch \<Rightarrow> 'q punch_queues \<times> peer_id shared
     \<Rightarrow> loop_end \<times> peer_id punch \<times> 'q punch_queues \<times> peer_id shared" where
  "punch_loop next_req chk os shuf my_peer_id [] p w = (Waiting, p, w)"
| "punch_loop next_req chk os shuf my_peer_id (others # es) p (qs, sh) =
     (case next_req qs of
        (Ok (i, info), qs') \<Rightarrow>
          (case punch chk os shuf (punch_message my_peer_id) i info p sh of
             (Ok _, (p', sh')) \<Rightarrow> punch_loop next_req chk os shuf my_peer_id es p' (others (qs', sh'))
           | (Err _, (p', sh')) \<Rightarrow> (Stopped, p', qs', sh')
           | (Panic, (p', sh')) \<Rightarrow> (Panicked, p', qs', sh'))
      | (Err _, qs') \<Rightarrow> (Stopped, p, qs', sh)
      | (Panic, qs') \<Rightarrow> (Panicked, p, qs', sh))"

subsection \<open>The idle thread\<close>

text \<open>It takes out the first of the reported ids; the model has the panic of \<^verbatim>\<open>id[0]\<close> on an empty list.\<close>

fun idle_loop ::
    "nat \<Rightarrow> bool \<Rightarrow> idle \<Rightarrow> (peer_id idle_env \<times> (peer_id shared \<Rightarrow> peer_id shared)) list \<Rightarrow> peer_id shared
     \<Rightarrow> (loop_end \<times> peer_id shared) option" where
  "idle_loop fuel chk idl [] sh = Some (Waiting, sh)"
| "idle_loop fuel chk idl ((env, others) # es) sh =
     (case next_idle fuel chk env idl 0 sh of
        None \<Rightarrow> None
      | Some (Ok (_, ids, _), sh1) \<Rightarrow>
          (case vec_get ids 0 of
             Some i \<Rightarrow> idle_loop fuel chk idl es (others (channel_remove_route i sh1))
           | None \<Rightarrow> Some (Panicked, sh1))
      | Some (Err _, sh1) \<Rightarrow> Some (Stopped, sh1)
      | Some (Panic, sh1) \<Rightarrow> Some (Panicked, sh1))"

end
