(* ===== verification/Peer_Props.thy ===== *)
theory Peer_Props
  imports Peer Server_Props
begin

section \<open>Properties of the peer program\<close>

text \<open>
  What a received datagram does to the receive thread and when it kills it, how the coordination
  messages of the server become punch requests, and how a punch datagram opens a route back.
\<close>

subsection \<open>One datagram\<close>

definition undisturbed :: "peer_env \<Rightarrow> bool" where
  "undisturbed env \<longleftrightarrow> (\<forall>n sh. pe_other env n sh = sh)"

definition first_byte :: "peer_state \<Rightarrow> u8" where
  "first_byte st = pr_buf st ! 0"

definition remote_id :: "peer_state \<Rightarrow> u32" where
  "remote_id st = u32_from_be (take 4 (drop 1 (pr_buf st)))"

definition addr_text :: "nat \<Rightarrow> peer_state \<Rightarrow> bytes" where
  "addr_text len st = take (len - 5) (drop 5 (pr_buf st))"

text \<open>The shared state after the route was learned; a greeting is tried in it.\<close>

definition after_learning :: "peer_env \<Rightarrow> route_key \<Rightarrow> peer_state \<Rightarrow> peer_id shared" where
  "after_learning env key st =
     (if first_byte st = 0 \<or> first_byte st = 1
      then learn_route env key (id_text (remote_id st)) (pr_shared st) else pr_shared st)"

definition greeting_sent :: "peer_env \<Rightarrow> u32 \<Rightarrow> u32 \<Rightarrow> channel \<Rightarrow> peer_id shared \<Rightarrow> nat outcome \<times> peer_id shared" where
  "greeting_sent env my n ch sh =
     channel_send_to_id (pe_send env) (pe_clock env) ch (greeting my) (id_text n) (pe_other env 2 sh)"

named_theorems peer_simps \<comment> \<open>the handlers on a buffer of full length\<close>

lemma buf_slices [peer_simps]:
  assumes "length (pr_buf st) = 1500"
  shows "slice (pr_buf st) (Suc 0) 5 = Ok (take 4 (drop (Suc 0) (pr_buf st)))"
    and "bytes_to_u32 (take 4 (drop (Suc 0) (pr_buf st))) = Some (remote_id st)"
  using assms by (simp_all add: slice_def bytes_to_u32_def remote_id_def)

lemma coordinate_eq [peer_simps]:
  assumes "length (pr_buf st) = 1500"
  shows "coordinate env len st =
    (if len < 5 \<or> 1500 < len then (Panic, st)
     else case parse_addr_v4 (addr_text len st) of
       None \<Rightarrow> (Panic, st)
     | Some a \<Rightarrow> if pe_rx_alive env
         then (Ok (), st\<lparr>pr_requests := pr_requests st @ [(IpV4 (v4_ip a), v4_port a, remote_id st)]\<rparr>)
         else (Panic, st))"
  using assms by (auto simp: coordinate_def buf_slices unwrap_opt_def slice_def addr_text_def split: option.split)

lemma greet_eq:
  "greet env my i st =
     (if pr_greeted st then (Ok (), st)
      else case channel_send_to_id (pe_send env) (pe_clock env) (pr_channel st) (greeting my) i
                  (pe_other env 2 (pr_shared st)) of
             (Ok _, sh) \<Rightarrow> (Ok (), st\<lparr>pr_shared := sh, pr_greeted := True\<rparr>)
           | (_, sh) \<Rightarrow> (Panic, st\<lparr>pr_shared := sh\<rparr>))"
  by (auto simp: greet_def split: prod.split outcome.split)

lemma peer_message_eq:
  assumes "length (pr_buf st) = 1500" and "5 \<le> len" and "len \<le> 1500"
  shows "peer_message env len key (id_text (remote_id st)) st =
    (Ok (), st\<lparr>pr_shared := after_learning env key st,
              pr_texts := (if first_byte st = 1 then pr_texts st @ [take (len - 4) (drop 4 (pr_buf st))]
                           else pr_texts st)\<rparr>)"
  using assms by (auto simp: peer_message_def after_learning_def first_byte_def slice_ok)

lemma peer_datagram_eq [peer_simps]:
  assumes "length (pr_buf st) = 1500" and "len \<le> 1500"
  shows "peer_datagram env my len key st =
    (if 0 < len \<and> (first_byte st = 255 \<or> first_byte st = 252) then (Ok (), st)
     else if 0 < len \<and> first_byte st = 254 then coordinate env len st
     else if len < 5 then (Panic, st)
     else greet env my (id_text (remote_id st))
       (st\<lparr>pr_shared := after_learning env key st,
           pr_texts := (if first_byte st = 1 then pr_texts st @ [take (len - 4) (drop 4 (pr_buf st))]
                        else pr_texts st)\<rparr>))"
  using assms
  by (simp add: peer_datagram_def buf_slices unwrap_opt_def Let_def first_byte_def [symmetric] peer_message_eq)

text \<open>For the witnesses.\<close>

definition sample_peer :: peer_state where
  "sample_peer = \<lparr>pr_channel = \<lparr>ch_flag = 0, ch_src_default_udp = 5, ch_default_udp = 6, udp_list = [],
       ch_poll = 0, poll_reg = [], ch_size = 0\<rparr>,
     pr_shared = shared_new StCone, pr_buf = replicate 1500 0, pr_greeted = False, pr_requests = [],
     pr_texts = []\<rparr>"

definition sample_peer_env :: peer_env where
  "sample_peer_env = \<lparr>pe_recv = sample_env 0 0 [] [], pe_send = (\<lambda>h s b a. Inr 1), pe_clock = 40,
     pe_other = (\<lambda>_ sh. sh), pe_rx_alive = True\<rparr>"

lemma sample_peer_simps [simp]:
  "length (pr_buf sample_peer) = 1500" "pe_rx_alive sample_peer_env" "undisturbed sample_peer_env"
  "tables (pr_shared sample_peer) = tables_new" "\<not> pr_greeted sample_peer" "pr_requests sample_peer = []"
  "udp_list (pr_channel sample_peer) = []" "ch_src_default_udp (pr_channel sample_peer) = 5"
  "calls (pr_shared sample_peer) = []"
  by (simp_all add: sample_peer_def sample_peer_env_def undisturbed_def shared_new_def)

text \<open>
  C16: Exactly when a received datagram kills the receive thread of a peer, whoever sent it: a coordination
  message that is too short, whose text is not an IPv4 address with a port, or that comes when the
  trigger thread is gone; any other datagram but a heartbeat or confirmation that is shorter than five
  bytes, the empty one included; and, until the first greeting has been sent, one from a peer to which
  the greeting cannot be sent.
\<close>

theorem peer_panics_iff:
  assumes "length (pr_buf st) = 1500" and "len \<le> 1500"
  shows "fst (peer_datagram env my len key st) = Panic \<longleftrightarrow>
    (if 0 < len \<and> (first_byte st = 252 \<or> first_byte st = 255) then False
     else if 0 < len \<and> first_byte st = 254
     then len < 5 \<or> parse_addr_v4 (addr_text len st) = None \<or> \<not> pe_rx_alive env
     else len < 5 \<or> \<not> pr_greeted st \<and>
       \<not> is_ok (fst (greeting_sent env my (remote_id st) (pr_channel st) (after_learning env key st))))"
  using assms
  by (auto simp: peer_simps greet_eq greeting_sent_def is_ok_iff split: option.split prod.split outcome.split)

theorem peer_panics_iff_witness:
  "fst (peer_datagram sample_peer_env 7 0 (RouteKey 0 (SockV4 9 9)) sample_peer) = Panic"
  by (subst peer_panics_iff) simp_all

subsection \<open>From the server to the trigger thread\<close>

lemma receive_coordination:
  fixes st :: peer_state
  assumes "length (pr_buf st) = 1500" and "receive_into (pr_buf st) (coordination_message i a) = (len, buf)"
  shows "length buf = 1500" and "5 \<le> len" and "len \<le> 1500" and "buf ! 0 = 254"
    and "u32_from_be (take 4 (drop 1 buf)) = i" and "take (len - 5) (drop 5 buf) = show_addr_v4 a"
proof -
  have l: "length (coordination_message i a) = 5 + length (show_addr_v4 a)" "length (show_addr_v4 a) \<le> 21"
    by (simp_all add: coordination_message_def length_show_addr_v4)
  then have "len = 5 + length (show_addr_v4 a)"
    and buf: "buf = coordination_message i a @ drop len (pr_buf st)"
    using assms by (auto simp: receive_into_def)
  with l assms(1) show "length buf = 1500" "5 \<le> len" "len \<le> 1500" "buf ! 0 = 254"
    "u32_from_be (take 4 (drop 1 buf)) = i" "take (len - 5) (drop 5 buf) = show_addr_v4 a"
    by (simp_all add: coordination_message_def u32_from_to_be)
qed

lemma peer_reads_coordination:
  assumes "length (pr_buf st) = 1500" and "pe_rx_alive env"
    and "receive_into (pr_buf st) (coordination_message i a) = (len, buf)"
  shows "peer_datagram env my len key (st\<lparr>pr_buf := buf\<rparr>) =
    (Ok (), st\<lparr>pr_buf := buf, pr_requests := pr_requests st @ [(IpV4 (v4_ip a), v4_port a, i)]\<rparr>)"
  using receive_coordination [OF assms(1,3)] assms(2)
  by (simp add: peer_simps first_byte_def remote_id_def addr_text_def parse_show_addr_v4)

text \<open>
  C22: What the server writes the peer reads: a coordination message for any id and address, received into
  any buffer, makes the receive thread ask the trigger thread for exactly that address and id, and
  nothing else changes. It may come from any sender: the peer does not look at where it came from.
\<close>

theorem coordination_roundtrip:
  assumes "length (pr_buf st) = 1500" and "pe_rx_alive env"
    and "receive_into (pr_buf st) (coordination_message i a) = (len, buf)"
  shows "peer_datagram env my len key (st\<lparr>pr_buf := buf\<rparr>) =
    (Ok (), st\<lparr>pr_buf := buf, pr_requests := pr_requests st @ [(IpV4 (v4_ip a), v4_port a, i)]\<rparr>)"
  using assms by (rule peer_reads_coordination)

theorem coordination_roundtrip_witness:
  "\<exists>len buf. receive_into (pr_buf sample_peer) (coordination_message 3 (SocketAddrV4 7 70)) = (len, buf) \<and>
     pr_requests (snd (peer_datagram sample_peer_env 1 len (RouteKey 0 (SockV4 9 9))
       (sample_peer\<lparr>pr_buf := buf\<rparr>))) = [(IpV4 7, 70, 3)]"
proof -
  obtain len buf where rb: "receive_into (pr_buf sample_peer) (coordination_message 3 (SocketAddrV4 7 70)) = (len, buf)"
    by fastforce
  from coordination_roundtrip [OF sample_peer_simps(1,2) rb] rb show ?thesis by auto
qed

subsection \<open>A punch datagram opens a route\<close>

definition route_socket :: "channel \<Rightarrow> route_key \<Rightarrow> sock option" where
  "route_socket ch k =
     (if rk_index k = DEFAULT_TOKEN_INDEX then Some (ch_src_default_udp ch)
      else vec_get (udp_list ch) (rk_index k))"

lemma channel_send_to_id_spec:
  assumes "route_of i (tables sh) = Some q" and "route_socket ch (route_key q) = Some u"
    and "channel_send_to_id os now ch buf i sh = (r, sh')"
  shows "tables sh' = touch_write (route_key q) now (tables sh) \<and>
    (\<exists>n. n \<le> 10 \<and> sends (calls sh') = sends (calls sh) @ replicate (Suc n) (u, buf, rk_addr (route_key q)))"
proof -
  obtain r1 h where std: "send_all_std os u buf (rk_addr (route_key q)) (calls sh) = (r1, h)"
    by fastforce
  with assms have "sh' = sh\<lparr>tables := touch_write (route_key q) now (tables sh), calls := h\<rparr>"
    by (auto simp: channel_send_to_id_def channel_send_to_route_def route_of_def route_socket_def send_all_agree
        split: if_splits)
  moreover have "\<exists>n. n \<le> 10 \<and> sends h = sends (calls sh) @ replicate (Suc n) (u, buf, rk_addr (route_key q))"
    using std_socket.sends_after [of os u buf "rk_addr (route_key q)" "calls sh"] std by simp
  ultimately show ?thesis by simp
qed

lemma route_to_id_add_new:
  assumes "tables_ok t" and "route_to_id (route_key r) t = None"
  shows "route_to_id (route_key r) (add_route i r now t) = Some i"
proof -
  have "direct_route_table_time t (route_key r) = None"
    using assms tables_ok_wf [OF assms(1)]
    by (cases "direct_route_table_time t (route_key r)")
      (auto simp: route_to_id_def tables_wf_def vec_get_def split: if_splits)
  then show ?thesis
    by (auto simp: route_to_id_def add_route_def Let_def clock_of_remove_id split: option.split)
qed

lemma touch_write_lookup [simp]:
  "route_of i (touch_write k now t) = route_of i t" "route_to_id k' (touch_write k now t) = route_to_id k' t"
  by (auto simp: touch_write_def route_of_def route_to_id_def split: option.split)

lemma unpark_simps [simp]: "tables (unpark sh) = tables sh" "calls (unpark sh) = calls sh"
  by (simp_all add: unpark_def)

lemma learn_route_new:
  assumes "undisturbed env" and "route_to_id key (tables sh) = None"
  shows "learn_route env key i sh = channel_add_route i (route_from key 10 64) (pe_clock env) sh"
  using assms by (simp add: learn_route_def undisturbed_def channel_route_to_id_def)

lemma hello_handled:
  assumes "length (pr_buf st) = 1500" and "undisturbed env" and "tables_ok (tables (pr_shared st))"
    and "b = 0 \<or> b = 1" and "length payload \<le> 1495"
    and "route_to_id key (tables (pr_shared st)) = None" and "route_socket (pr_channel st) key = Some u"
    and "receive_into (pr_buf st) (b # u32_to_be n @ payload) = (len, buf)"
    and "peer_datagram env my len key (st\<lparr>pr_buf := buf\<rparr>) = (r, st')"
  shows "route_of (id_text n) (tables (pr_shared st')) = Some (route_from key 10 64) \<and>
    route_to_id key (tables (pr_shared st')) = Some (id_text n) \<and>
    (if pr_greeted st then r = Ok () \<and> calls (pr_shared st') = calls (pr_shared st)
     else (\<exists>k. k \<le> 10 \<and> sends (calls (pr_shared st')) =
             sends (calls (pr_shared st)) @ replicate (Suc k) (u, greeting my, rk_addr key)) \<and>
          (r = Ok () \<longleftrightarrow> pr_greeted st')) \<and>
    pr_texts st' = pr_texts st @ (if b = 1 then [ucast n # payload] else []) \<and> pr_channel st' = pr_channel st"
proof -
  let ?st = "st\<lparr>pr_buf := buf\<rparr>" and ?i = "id_text n"
  have len: "len = 5 + length payload" and buf: "buf = b # u32_to_be n @ payload @ drop len (pr_buf st)"
    using assms(1,5,8) by (auto simp: receive_into_def)
  have ids: "length buf = 1500" "len \<le> 1500" "5 \<le> len" "first_byte ?st = b" "remote_id ?st = n"
    "take (len - 4) (drop 4 buf) = ucast n # payload"
    using assms(1,5) len
    by (simp_all add: buf first_byte_def remote_id_def u32_from_to_be)
      (simp add: u32_to_be_def)
  let ?sh = "channel_add_route ?i (route_from key 10 64) (pe_clock env) (pr_shared st)"
  have learned: "after_learning env key ?st = ?sh"
    using assms(4,6) ids by (simp add: after_learning_def learn_route_new [OF assms(2)])
  have sh: "route_of ?i (tables ?sh) = Some (route_from key 10 64)" "route_to_id key (tables ?sh) = Some ?i"
    "calls ?sh = calls (pr_shared st)"
    using route_to_id_add_new [OF assms(3), of "route_from key 10 64" ?i "pe_clock env"] assms(6)
    by (simp_all add: channel_add_route_def rs.lookup_add)
  obtain r1 sh1 where sent: "channel_send_to_id (pe_send env) (pe_clock env) (pr_channel st) (greeting my) ?i ?sh = (r1, sh1)"
    by fastforce
  from channel_send_to_id_spec [OF sh(1) _ this] assms(7)
  have sh1: "tables sh1 = touch_write key (pe_clock env) (tables ?sh)"
    "\<exists>k. k \<le> 10 \<and> sends (calls sh1) = sends (calls (pr_shared st)) @ replicate (Suc k) (u, greeting my, rk_addr key)"
    by (simp_all add: sh)
  have eq: "(r, st') = greet env my ?i (?st\<lparr>pr_shared := ?sh,
      pr_texts := pr_texts st @ (if b = 1 then [ucast n # payload] else [])\<rparr>)"
    using assms(4) ids by (auto simp: assms(9) [symmetric] peer_datagram_eq learned)
  show ?thesis
  proof (cases "pr_greeted st")
    case True
    with eq sh show ?thesis by (simp add: greet_eq)
  next
    case False
    with eq sent sh sh1 assms(2) show ?thesis
      by (cases r1) (simp_all add: greet_eq undisturbed_def)
  qed
qed

text \<open>
  C17: A punch or data message of peer \<open>n\<close> on a route key that no peer is behind opens the route back:
  afterwards \<open>n\<close> has a route with that key, and the key leads to \<open>n\<close>. If nothing has been sent to any
  peer so far, the greeting (and nothing else) goes out to the address the datagram came from, from
  the socket it came in on, one to eleven times. The logged text of a data message starts with the
  last byte of the id.
\<close>

theorem hello_opens_route:
  assumes "length (pr_buf st) = 1500" and "undisturbed env" and "tables_ok (tables (pr_shared st))"
    and "b = 0 \<or> b = 1" and "length payload \<le> 1495"
    and "route_to_id key (tables (pr_shared st)) = None" and "route_socket (pr_channel st) key = Some u"
    and "receive_into (pr_buf st) (b # u32_to_be n @ payload) = (len, buf)"
    and "peer_datagram env my len key (st\<lparr>pr_buf := buf\<rparr>) = (r, st')"
  shows "route_of (id_text n) (tables (pr_shared st')) = Some (route_from key 10 64) \<and>
    route_to_id key (tables (pr_shared st')) = Some (id_text n) \<and>
    (if pr_greeted st then r = Ok () \<and> calls (pr_shared st') = calls (pr_shared st)
     else (\<exists>k. k \<le> 10 \<and> sends (calls (pr_shared st')) =
             sends (calls (pr_shared st)) @ replicate (Suc k) (u, greeting my, rk_addr key)) \<and>
          (r = Ok () \<longleftrightarrow> pr_greeted st')) \<and>
    pr_texts st' = pr_texts st @ (if b = 1 then [ucast n # payload] else [])"
  using hello_handled [OF assms] by (elim conjE) (intro conjI)

theorem hello_opens_route_witness:
  "\<exists>len buf st'. receive_into (pr_buf sample_peer) (punch_message 3) = (len, buf) \<and>
     snd (peer_datagram sample_peer_env 1 len (RouteKey 100000 (SockV4 9 9)) (sample_peer\<lparr>pr_buf := buf\<rparr>)) = st' \<and>
     route_to_id (RouteKey 100000 (SockV4 9 9)) (tables (pr_shared st')) = Some (id_text 3)"
proof -
  let ?k = "RouteKey 100000 (SockV4 9 9)"
  obtain len buf where rb: "receive_into (pr_buf sample_peer) (0 # u32_to_be 3 @ []) = (len, buf)"
    by fastforce
  obtain r st' where d: "peer_datagram sample_peer_env 1 len ?k (sample_peer\<lparr>pr_buf := buf\<rparr>) = (r, st')"
    by fastforce
  have "route_to_id ?k (tables (pr_shared sample_peer)) = None" "route_socket (pr_channel sample_peer) ?k = Some 5"
    "tables_ok (tables (pr_shared sample_peer))" "length ([] :: bytes) \<le> 1495" "(0 :: u8) = 0 \<or> (0 :: u8) = 1"
    by (simp_all add: route_to_id_def tables_new_def [symmetric] route_socket_def DEFAULT_TOKEN_INDEX_def tables_ok_new)
      (simp add: tables_new_def)
  from hello_opens_route [OF sample_peer_simps(1,3) this(3,5,4,1,2) rb d] rb d show ?thesis
    by (auto simp: punch_message_def)
qed

end
