(* ===== verification/Peer_Punch.thy ===== *)
theory Peer_Punch
  imports Peer_Props
begin

section \<open>From a coordination message to punch datagrams\<close>

text \<open>
  The trigger thread, the punch threads and the server together: two peers that report each other
  are told to punch each other's address, a request makes punch datagrams to that address, and how
  the threads end.
\<close>

subsection \<open>Two peers and the server\<close>

text \<open>
  C11: The rendezvous end to end: after two peers have reported each other from the addresses \<open>a\<close> and \<open>b\<close>
  (whatever else the server received in between), the server has sent to each of the two one message
  that, received into any buffer by a peer whose trigger thread lives, makes that peer ask for punches
  to the other one's address under the other one's id.
\<close>

theorem peers_are_introduced:
  assumes "reliable send" and "server_ok st" and "i \<noteq> p" and "sv_map st p = None"
    and "\<forall>(d, c) \<in> set mid. well_formed_request d \<and> names (request_of d) \<inter> {i, p} = {}"
    and "pe_rx_alive env" and "length (pr_buf ps) = 1500"
  shows "\<exists>st' to_a to_b. server_loop send it
      (map Inr ((report_message i p, a) # mid @ [(report_message p i, b)])) st = (Waiting, st') \<and>
    (to_a, a) \<in> set (sv_sent st') \<and> (to_b, b) \<in> set (sv_sent st') \<and>
    (case receive_into (pr_buf ps) to_a of (len, buf) \<Rightarrow>
       peer_datagram env i len key (ps\<lparr>pr_buf := buf\<rparr>) =
         (Ok (), ps\<lparr>pr_buf := buf, pr_requests := pr_requests ps @ [(IpV4 (v4_ip b), v4_port b, p)]\<rparr>)) \<and>
    (case receive_into (pr_buf ps) to_b of (len, buf) \<Rightarrow>
       peer_datagram env p len key (ps\<lparr>pr_buf := buf\<rparr>) =
         (Ok (), ps\<lparr>pr_buf := buf, pr_requests := pr_requests ps @ [(IpV4 (v4_ip a), v4_port a, i)]\<rparr>))"
proof -
  obtain st' log where st': "server_loop send it
      (map Inr ((report_message i p, a) # mid @ [(report_message p i, b)])) st = (Waiting, st')"
    "sv_sent st' = log @ [([252], b), (coordination_message i a, b), (coordination_message p b, a)]"
    using server_meets [OF assms(1-5), where a = a and b = b and it = it] by blast
  have "case receive_into (pr_buf ps) (coordination_message j c) of (len, buf) \<Rightarrow>
      peer_datagram env my len key (ps\<lparr>pr_buf := buf\<rparr>) =
        (Ok (), ps\<lparr>pr_buf := buf, pr_requests := pr_requests ps @ [(IpV4 (v4_ip c), v4_port c, j)]\<rparr>)" for j c my
    using peer_reads_coordination [OF assms(7,6)] by (auto split: prod.split)
  with st' show ?thesis
    by (intro exI [of _ st'] exI [of _ "coordination_message p b"] exI [of _ "coordination_message i a"]) auto
qed

theorem peers_are_introduced_witness:
  "\<exists>st' to_a. server_loop (\<lambda>_ _ _. None) sorted_iter
      (map Inr ((report_message 1 2, SocketAddrV4 7 70) # [([255], SocketAddrV4 9 90)] @
        [(report_message 2 1, SocketAddrV4 8 80)])) server_new = (Waiting, st') \<and>
    (to_a, SocketAddrV4 7 70) \<in> set (sv_sent st') \<and>
    pr_requests (snd (peer_datagram sample_peer_env 1 (fst (receive_into (pr_buf sample_peer) to_a)) (RouteKey 0 (SockV4 9 9))
      (sample_peer\<lparr>pr_buf := snd (receive_into (pr_buf sample_peer) to_a)\<rparr>))) = [(IpV4 8, 80, 2)]"
proof -
  have mid: "\<forall>(d, c) \<in> set [([255], SocketAddrV4 9 90)]. well_formed_request d \<and> names (request_of d) \<inter> {1, 2} = {}"
    by simp
  have "(1 :: u32) \<noteq> 2" "sv_map server_new 2 = None" by simp_all
  from peers_are_introduced [OF reliable_none server_ok_new this mid sample_peer_simps(2,1),
      where a = "SocketAddrV4 7 70" and b = "SocketAddrV4 8 80" and it = sorted_iter and key = "RouteKey 0 (SockV4 9 9)"]
  obtain st' to_a where "server_loop (\<lambda>_ _ _. None) sorted_iter
      (map Inr ((report_message 1 2, SocketAddrV4 7 70) # [([255], SocketAddrV4 9 90)] @
        [(report_message 2 1, SocketAddrV4 8 80)])) server_new = (Waiting, st')"
    "(to_a, SocketAddrV4 7 70) \<in> set (sv_sent st')"
    "case receive_into (pr_buf sample_peer) to_a of (len, buf) \<Rightarrow>
       peer_datagram sample_peer_env 1 len (RouteKey 0 (SockV4 9 9)) (sample_peer\<lparr>pr_buf := buf\<rparr>) =
         (Ok (), sample_peer\<lparr>pr_buf := buf, pr_requests := pr_requests sample_peer @ [(IpV4 8, 80, 2)]\<rparr>)"
    by auto
  then show ?thesis
    by (intro exI [of _ st'] exI [of _ to_a]) (simp del: server_loop.simps split: prod.splits)
qed

subsection \<open>The trigger threads\<close>

text \<open>
  What the crossbeam queues of the program promise of \<open>try_send\<close>: they are bounded by one (\<^verbatim>\<open>Boot::new\<close>), so sending succeeds exactly on an empty queue that is not disconnected, and it is
  refused with \<open>Full\<close> on a queue that holds a request.
\<close>

definition bounded_one :: "('q \<Rightarrow> 'm list) \<Rightarrow> ('q \<Rightarrow> bool) \<Rightarrow> ('q \<Rightarrow> 'm \<Rightarrow> try_send_error + 'q) \<Rightarrow> bool" where
  "bounded_one content connected try_send \<longleftrightarrow>
     (\<forall>q x. if \<not> connected q then try_send q x = Inl Disconnected
            else if content q \<noteq> [] then try_send q x = Inl Full
            else (\<exists>q'. try_send q x = Inr q' \<and> content q' = [x] \<and> connected q'))"

definition queues_free :: "('q \<Rightarrow> 'm list) \<Rightarrow> ('q \<Rightarrow> bool) \<Rightarrow> 'q punch_queues \<Rightarrow> bool" where
  "queues_free content connected qs \<longleftrightarrow>
     content (cone_queue qs) = [] \<and> content (symmetric_queue qs) = [] \<and>
     connected (cone_queue qs) \<and> connected (symmetric_queue qs)"

lemma bounded_one_free:
  assumes "bounded_one content connected try_send" and "connected q" and "content q = []"
  shows "\<exists>q'. try_send q x = Inr q' \<and> content q' = [x] \<and> connected q'"
  using assms unfolding bounded_one_def by meson

lemma bounded_one_busy:
  assumes "bounded_one content connected try_send" and "content q \<noteq> []"
  shows "\<exists>e. try_send q x = Inl e"
  using assms unfolding bounded_one_def by meson

lemma trigger_info_type [simp]: "nat_type (trigger_info nt ip port) = nt"
  by (simp add: trigger_info_def nat_info_new_def)

lemma trigger_round_free:
  assumes "bounded_one content connected try_send" and "queues_free content connected qs"
  shows "\<exists>qs'. trigger_round try_send (ip, port, n) qs = (Ok (), qs') \<and>
    content (cone_queue qs') = [(id_text n, trigger_info NatCone ip port)] \<and>
    content (symmetric_queue qs') = [(id_text n, trigger_info NatSymmetric ip port)] \<and>
    connected (cone_queue qs') \<and> connected (symmetric_queue qs')"
proof -
  let ?x = "(id_text n, trigger_info NatCone ip port)" and ?y = "(id_text n, trigger_info NatSymmetric ip port)"
  obtain q1 where q1: "try_send (cone_queue qs) ?x = Inr q1" "content q1 = [?x]" "connected q1"
    using assms bounded_one_free [of content connected try_send "cone_queue qs" ?x] by (auto simp: queues_free_def)
  obtain q2 where q2: "try_send (symmetric_queue qs) ?y = Inr q2" "content q2 = [?y]" "connected q2"
    using assms bounded_one_free [of content connected try_send "symmetric_queue qs" ?y] by (auto simp: queues_free_def)
  from q1 q2 show ?thesis
    by (simp add: trigger_round_def channel_punch_def)
qed

lemma trigger_round_busy:
  assumes "bounded_one content connected try_send" and "content (cone_queue qs) \<noteq> []"
  shows "\<exists>e. trigger_round try_send (ip, port, n) qs = (Err e, qs)"
  using bounded_one_busy [OF assms, of "(id_text n, trigger_info NatCone ip port)"]
  by (auto simp: trigger_round_def channel_punch_def split: try_send_error.split)

text \<open>
  A trigger thread goes on as long as the punch threads keep up: it goes on through any number of rounds
  that find both queues empty, and each puts in one request for a cone and one for a symmetric peer.
\<close>

theorem trigger_keeps_going:
  assumes "bounded_one content connected try_send" and "queues_free content connected qs"
    and "\<forall>o1 \<in> set others. \<forall>q. queues_free content connected (o1 q)"
  shows "\<exists>qs'. trigger_loop try_send (ip, port, n) others qs = (Waiting, qs') \<and> queues_free content connected qs'"
  using assms(2,3)
proof (induction others arbitrary: qs)
  case Nil
  then show ?case by simp
next
  case (Cons o1 os)
  obtain qs1 where "trigger_round try_send (ip, port, n) qs = (Ok (), qs1)"
    using trigger_round_free [OF assms(1) Cons.prems(1)] by blast
  with Cons.IH [of "o1 qs1"] Cons.prems show ?case by simp
qed

text \<open>
  A trigger thread ends for good at the first round that finds the cone queue still full, and nothing
  is put in any more: two peers whose coordination messages come close together share the queues, so
  when the first request of one is still waiting, the thread of the other ends before it asked for
  anything.
\<close>

theorem busy_trigger_ends:
  assumes "bounded_one content connected try_send" and "queues_free content connected qs"
    and "trigger_round try_send r1 qs = (r, qs1)"
  shows "r = Ok () \<and> trigger_loop try_send r2 (others # es) qs1 = (Stopped, qs1)"
proof -
  obtain ip port n where r1: "r1 = (ip, port, n)" by (cases r1)
  obtain ip2 port2 n2 where r2: "r2 = (ip2, port2, n2)" by (cases r2)
  from trigger_round_free [OF assms(1,2), of ip port n] assms(3) have "r = Ok ()" and "content (cone_queue qs1) \<noteq> []"
    by (auto simp: r1)
  with trigger_round_busy [OF assms(1) this(2), of ip2 port2 n2] show ?thesis
    by (auto simp: r2)
qed

lemma one_send_bounded: "bounded_one (\<lambda>q. q) (\<lambda>_. True) one_send"
  by (simp add: bounded_one_def one_send_def)

definition empty_queues :: "(peer_id \<times> nat_info) list punch_queues" where
  "empty_queues = \<lparr>cone_queue = [], symmetric_queue = []\<rparr>"

lemma empty_queues_free: "queues_free (\<lambda>q. q) (\<lambda>_. True) empty_queues"
  by (simp add: queues_free_def empty_queues_def)

theorem trigger_keeps_going_witness:
  "\<exists>qs'. trigger_loop one_send (IpV4 7, 70, 3) [\<lambda>_. empty_queues, \<lambda>_. empty_queues] empty_queues = (Waiting, qs')"
  using trigger_keeps_going [OF one_send_bounded empty_queues_free, of "[\<lambda>_. empty_queues, \<lambda>_. empty_queues]" "IpV4 7" 70 3]
    empty_queues_free by auto

theorem busy_trigger_ends_witness:
  "fst (trigger_loop one_send (IpV4 8, 80, 4) [\<lambda>qs. qs]
     (snd (trigger_round one_send (IpV4 7, 70, 3) empty_queues))) = Stopped"
proof -
  obtain r qs1 where t: "trigger_round one_send (IpV4 7, 70, 3) empty_queues = (r, qs1)" by fastforce
  from busy_trigger_ends [OF one_send_bounded empty_queues_free t, of "(IpV4 8, 80, 4)" "\<lambda>qs. qs" "[]"] t
  show ?thesis by simp
qed

lemma try_clone_after_close: "status sh = StClose \<Longrightarrow> \<not> is_ok (fst (channel_try_clone os ch sh))"
  by (simp add: is_ok_iff try_clone_closed)

text \<open>
  A request that comes after the channel was closed ends the thread that starts the trigger threads;
  the next coordination message then ends the receive thread (\<^const>\<open>pe_rx_alive\<close>).
\<close>

theorem closed_channel_starts_no_trigger:
  assumes "status sh = StClose"
  shows "fst (spawn_triggers (os # oss) ch (req # reqs) sh) = Panicked \<and>
    fst (snd (spawn_triggers (os # oss) ch (req # reqs) sh)) = []"
  using try_clone_after_close [OF assms, of os ch]
  by (cases "channel_try_clone os ch sh"; cases "fst (channel_try_clone os ch sh)") auto

subsection \<open>The punch threads\<close>

lemma punch_round_reaches:
  assumes "queue_laws content try_send recv_timeout recv" and "status sh \<noteq> StClose"
    and "content (cone_queue qs) = (i, trigger_info NatCone (IpV4 ip) port) # rest"
    and "punch_loop (next_cone recv_timeout recv None) chk os shuf my [\<lambda>w. w] p (qs, sh) = (e, p', qs', sh')"
  shows "content (cone_queue qs') = rest \<and> p' = p \<and> (\<exists>m. sends (calls sh') =
      sends (calls sh) @ replicate m (sd_default_udp (pn_sender p), punch_message my, SockV4 ip port) \<and>
    (e = Waiting \<longrightarrow> 0 < m))"
proof -
  let ?info = "trigger_info NatCone (IpV4 ip) port"
  obtain q1 where q1: "next_request recv_timeout recv None (cone_queue qs) = (Ok (i, ?info), q1)" "content q1 = rest"
    using next_request_first [OF assms(1,3)] by blast
  obtain r p1 sh1 where pu: "punch chk os shuf (punch_message my) i ?info p sh = (r, (p1, sh1))"
    by (cases "punch chk os shuf (punch_message my) i ?info p sh") auto
  from assms(4) q1 pu have e: "p' = p1" "sh' = sh1" "qs' = qs\<lparr>cone_queue := q1\<rparr>" "e = Waiting \<longleftrightarrow> r = Ok ()"
    by (cases r; auto simp: next_cone_def)+
  obtain ext where ext: "sends (calls sh1) = sends (calls sh) @ map (\<lambda>a. (sd_default_udp (pn_sender p), punch_message my, a)) ext"
    "set ext \<subseteq> {SockV4 ip port}" "r = Ok () \<longrightarrow> ext \<noteq> []" and p1: "p1 = p"
    using cone_request_sends [OF assms(2) trigger_info_type pu]
    by (fastforce simp: local_target_def trigger_info_def nat_info_new_def split: if_splits)
  have "ext = replicate (length ext) (SockV4 ip port)"
    using ext(2) by (intro replicate_eqI) auto
  then have "map (\<lambda>a. (sd_default_udp (pn_sender p), punch_message my, a)) ext =
      replicate (length ext) (sd_default_udp (pn_sender p), punch_message my, SockV4 ip port)"
    by (metis map_replicate)
  with ext(1,3) e p1 q1(2) show ?thesis
    by (intro conjI exI [of _ "length ext"]) auto
qed

text \<open>
  A request made from a coordination message punches the right address: the round of the cone thread
  that takes it out sends, from the default socket, nothing but this peer's punch message to the
  address the message told, and on success at least once.
\<close>

theorem coordinated_punch_reaches:
  assumes "queue_laws content try_send recv_timeout recv" and "status sh \<noteq> StClose"
    and "content (cone_queue qs) = (i, trigger_info NatCone (IpV4 ip) port) # rest"
    and "punch_loop (next_cone recv_timeout recv None) chk os shuf my [\<lambda>w. w] p (qs, sh) = (e, p', qs', sh')"
  shows "content (cone_queue qs') = rest \<and> p' = p \<and> (\<exists>m. sends (calls sh') =
      sends (calls sh) @ replicate m (sd_default_udp (pn_sender p), punch_message my, SockV4 ip port) \<and>
    (e = Waiting \<longrightarrow> 0 < m))"
  using assms by (rule punch_round_reaches)

definition waiting_request :: "nat_type \<Rightarrow> u16 \<Rightarrow> (peer_id \<times> nat_info) list punch_queues" where
  "waiting_request nt port = \<lparr>cone_queue = [(id_text 3, trigger_info nt (IpV4 7) port)],
     symmetric_queue = [(id_text 3, trigger_info nt (IpV4 7) port)]\<rparr>"

definition peer_punch :: "peer_id punch" where
  "peer_punch = punch_new (\<lambda>xs. xs) \<lparr>sd_default_udp = 5\<rparr>"

lemma peer_punch_reach: "punch_reach peer_punch"
  unfolding peer_punch_def by (rule punch_reach.fresh) (rule permutes_id)

lemma one_queue_laws: "queue_laws (\<lambda>q. q) one_send (\<lambda>_. one_recv RecvTimeout) (one_recv ())"
  by (auto simp: queue_laws_def one_send_def one_recv_def split: if_splits)

theorem coordinated_punch_reaches_witness:
  "\<exists>m. sends (calls (snd (snd (snd (punch_loop (next_cone (\<lambda>_. one_recv RecvTimeout) (one_recv ()) None) True
      (\<lambda>h s b a. Inr 1) (\<lambda>xs. xs) 1 [\<lambda>w. w] peer_punch (waiting_request NatCone 70, shared_new StCone)))))) =
    replicate m (5, punch_message 1, SockV4 7 70)"
proof -
  obtain e p' qs' sh' where run: "punch_loop (next_cone (\<lambda>_. one_recv RecvTimeout) (one_recv ()) None) True
      (\<lambda>h s b a. Inr 1) (\<lambda>xs. xs) 1 [\<lambda>w. w] peer_punch (waiting_request NatCone 70, shared_new StCone) = (e, p', qs', sh')"
    by (rule prod_cases4)
  have "cone_queue (waiting_request NatCone 70) = (id_text 3, trigger_info NatCone (IpV4 7) 70) # []"
    by (simp add: waiting_request_def)
  from coordinated_punch_reaches [OF one_queue_laws _ this run] run show ?thesis
    by (auto simp: shared_new_def peer_punch_def punch_new_def)
qed

text \<open>
  A port 0 in a coordination message, which the peer accepts, ends the symmetric punch thread of a
  build with overflow checks: the round that takes such a request out panics exactly when overflow
  is checked and the port is 0; otherwise the thread goes on or ends with an error.
\<close>

theorem zero_port_kills_punch_thread:
  assumes "queue_laws content try_send recv_timeout recv" and "status sh \<noteq> StClose"
    and "content (symmetric_queue qs) = (i, trigger_info NatSymmetric ip port) # rest"
    and "punch_reach p" and "permutes shuf"
  shows "fst (punch_loop (next_symmetric recv_timeout recv None) chk os shuf my [others] p (qs, sh)) = Panicked
    \<longleftrightarrow> chk \<and> port = 0"
proof -
  let ?info = "trigger_info NatSymmetric ip port"
  obtain q1 where q1: "next_request recv_timeout recv None (symmetric_queue qs) = (Ok (i, ?info), q1)"
    using next_request_first [OF assms(1,3)] by blast
  obtain r p1 sh1 where pu: "punch chk os shuf (punch_message my) i ?info p sh = (r, (p1, sh1))"
    by (cases "punch chk os shuf (punch_message my) i ?info p sh") auto
  have "r = Panic \<longleftrightarrow> chk \<and> port = 0"
    using punch_panics [OF assms(4,5), of chk os "punch_message my" i ?info sh] assms(2) pu
    by (simp add: trigger_info_def nat_info_new_def)
  moreover obtain qs1 shx where "others (qs\<lparr>symmetric_queue := q1\<rparr>, sh1) = (qs1, shx)"
    by fastforce
  ultimately show ?thesis
    using q1 pu by (cases r) (auto simp: next_symmetric_def)
qed

theorem zero_port_kills_punch_thread_witness:
  "fst (punch_loop (next_symmetric (\<lambda>_. one_recv RecvTimeout) (one_recv ()) None) True
     (\<lambda>h s b a. Inr 1) (\<lambda>xs. xs) 1 [\<lambda>w. w] peer_punch (waiting_request NatSymmetric 0, shared_new StCone)) = Panicked"
  by (subst zero_port_kills_punch_thread [OF one_queue_laws _ _ peer_punch_reach permutes_id, where rest = "[]"
        and i = "id_text 3" and ip = "IpV4 7" and port = 0])
    (simp_all add: waiting_request_def shared_new_def)

end
