(* ===== verification/Peer_Connect.thy ===== *)
theory Peer_Connect
  imports Peer_Punch
begin

section \<open>Two peers and the server, from the reports to the route\<close>

text \<open>
  The programs of \<^verbatim>\<open>examples/\<close> together: what the server sends is received by a peer, what the peer makes of it
  goes through its trigger thread and its punch thread, and the punch datagram is received by the other peer.
  Between the programs is the network: a message is received as it was sent.
\<close>

text \<open>A datagram is received into the buffer and handled.\<close>

definition take_in :: "peer_env \<Rightarrow> u32 \<Rightarrow> route_key \<Rightarrow> bytes \<Rightarrow> peer_state \<Rightarrow> unit outcome \<times> peer_state" where
  "take_in env my key d st =
     (let (len, buf) = receive_into (pr_buf st) d in peer_datagram env my len key (st\<lparr>pr_buf := buf\<rparr>))"

lemma take_in_coordination:
  assumes "length (pr_buf st) = 1500" and "pe_rx_alive env"
  shows "fst (take_in env my key (coordination_message i a) st) = Ok ()"
    and "pr_requests (snd (take_in env my key (coordination_message i a) st)) =
      pr_requests st @ [(IpV4 (v4_ip a), v4_port a, i)]"
  using peer_reads_coordination [OF assms]
  by (simp_all add: take_in_def split: prod.split)

lemma take_in_punch:
  assumes "length (pr_buf st) = 1500" and "undisturbed env" and "tables_ok (tables (pr_shared st))"
    and "route_to_id key (tables (pr_shared st)) = None" and "route_socket (pr_channel st) key = Some u"
    and "take_in env my key (punch_message n) st = (r, st')"
  shows "route_of (id_text n) (tables (pr_shared st')) = Some (route_from key 10 64)"
    and "route_to_id key (tables (pr_shared st')) = Some (id_text n)" and "pr_channel st' = pr_channel st"
proof -
  obtain len buf where rb: "receive_into (pr_buf st) (0 # u32_to_be n @ []) = (len, buf)" by fastforce
  with assms(6) have "peer_datagram env my len key (st\<lparr>pr_buf := buf\<rparr>) = (r, st')"
    by (simp add: take_in_def punch_message_def)
  from hello_handled [OF assms(1-3) _ _ assms(4,5) rb this]
  show "route_of (id_text n) (tables (pr_shared st')) = Some (route_from key 10 64)"
    and "route_to_id key (tables (pr_shared st')) = Some (id_text n)" and "pr_channel st' = pr_channel st"
    by simp_all
qed

text \<open>
  C13: The whole way. Two peers report each other's ids to a fresh server from the addresses \<open>a\<close> and \<open>b\<close>,
  whatever else the server receives in between. Then the server sends to \<open>a\<close> a message by which the peer there asks
  for a punch; its trigger thread puts the request into the empty queues; the round of its punch thread that
  takes it out sends nothing but its punch message, to \<open>b\<close>, and on success at least once; and when that
  message is received at \<open>b\<close> on a new route key of the address \<open>a\<close>, the peer there has a route to the first
  one, and all it sends to that id goes to \<open>a\<close> from the socket the message came in on.
\<close>

theorem introduction_connects:
  fixes content :: "'q \<Rightarrow> (peer_id \<times> nat_info) list"
  assumes server: "reliable send" "bind (SocketAddrV4 0 3000) = None" "i \<noteq> p"
      "\<forall>(d, c) \<in> set mid. well_formed_request d \<and> names (request_of d) \<inter> {i, p} = {}"
    and queues: "bounded_one content connected try_send" "queue_laws content try_send recv_timeout recv"
      "queues_free content connected qs" and open_status: "status sh \<noteq> StClose"
    and here: "length (pr_buf A) = 1500" "pe_rx_alive env_a" "pr_requests A = []"
    and there: "length (pr_buf B) = 1500" "undisturbed env_b" "tables_ok (tables (pr_shared B))"
      "rk_addr key = sock_of_v4 a" "route_to_id key (tables (pr_shared B)) = None"
      "route_socket (pr_channel B) key = Some u"
  shows "\<exists>st' to_a req qs1.
    server_main bind send it (map Inr ((report_message i p, a) # mid @ [(report_message p i, b)])) = (Waiting, st') \<and>
    (to_a, a) \<in> set (sv_sent st') \<and>
    fst (take_in env_a i key_a to_a A) = Ok () \<and> pr_requests (snd (take_in env_a i key_a to_a A)) = [req] \<and>
    trigger_round try_send req qs = (Ok (), qs1) \<and>
    (case punch_loop (next_cone recv_timeout recv None) chk os shuf i [\<lambda>w. w] pn (qs1, sh) of (e, pn', qs', sh') \<Rightarrow>
       \<exists>m. sends (calls sh') = sends (calls sh) @
           replicate m (sd_default_udp (pn_sender pn), punch_message i, sock_of_v4 b) \<and> (e = Waiting \<longrightarrow> 0 < m)) \<and>
    (case snd (take_in env_b p key (punch_message i) B) of B' \<Rightarrow>
       route_of (id_text i) (tables (pr_shared B')) = Some (route_from key 10 64) \<and>
       (\<exists>k \<le> 10. sends (calls (snd (channel_send_to_id os2 now (pr_channel B') msg (id_text i) (pr_shared B')))) =
          sends (calls (pr_shared B')) @ replicate (Suc k) (u, msg, sock_of_v4 a)))"
proof -
  let ?req = "(IpV4 (v4_ip b), v4_port b, p)" and ?to_a = "coordination_message p b"
  have "sv_map server_new p = None" by simp
  from server_meets [OF server(1) server_ok_new server(3) this server(4)]
  obtain st' log where loop: "server_loop send it (map Inr ((report_message i p, a) # mid @ [(report_message p i, b)]))
      server_new = (Waiting, st')"
    and sent: "sv_sent st' = log @ [([252], b), (coordination_message i a, b), (?to_a, a)]"
    by blast
  obtain qs1 where round: "trigger_round try_send ?req qs = (Ok (), qs1)"
    and queued: "content (cone_queue qs1) = [(id_text p, trigger_info NatCone (IpV4 (v4_ip b)) (v4_port b))]"
    using trigger_round_free [OF queues(1,3)] by blast
  have punched: "case punch_loop (next_cone recv_timeout recv None) chk os shuf i [\<lambda>w. w] pn (qs1, sh) of (e, pn', qs', sh') \<Rightarrow>
      \<exists>m. sends (calls sh') = sends (calls sh) @
        replicate m (sd_default_udp (pn_sender pn), punch_message i, sock_of_v4 b) \<and> (e = Waiting \<longrightarrow> 0 < m)"
    using punch_round_reaches [OF queues(2) open_status queued] by (simp add: sock_of_v4_def split: prod.split)
  let ?B' = "snd (take_in env_b p key (punch_message i) B)"
  have "take_in env_b p key (punch_message i) B = (fst (take_in env_b p key (punch_message i) B), ?B')" by simp
  note route = take_in_punch [OF there(1-3,5,6) this]
  have "channel_send_to_id os2 now (pr_channel ?B') msg (id_text i) (pr_shared ?B') =
      (fst (channel_send_to_id os2 now (pr_channel ?B') msg (id_text i) (pr_shared ?B')),
       snd (channel_send_to_id os2 now (pr_channel ?B') msg (id_text i) (pr_shared ?B')))" by simp
  from channel_send_to_id_spec [OF route(1) _ this] there(4,6) route(3)
  have answered: "\<exists>k \<le> 10. sends (calls (snd (channel_send_to_id os2 now (pr_channel ?B') msg (id_text i) (pr_shared ?B')))) =
      sends (calls (pr_shared ?B')) @ replicate (Suc k) (u, msg, sock_of_v4 a)"
    by simp
  have "server_main bind send it (map Inr ((report_message i p, a) # mid @ [(report_message p i, b)])) = (Waiting, st')"
    using loop server(2) by (simp add: server_main_def)
  moreover have "(?to_a, a) \<in> set (sv_sent st')" by (simp add: sent)
  moreover have "fst (take_in env_a i key_a ?to_a A) = Ok ()" "pr_requests (snd (take_in env_a i key_a ?to_a A)) = [?req]"
    using take_in_coordination [OF here(1,2)] here(3) by simp_all
  moreover note round punched route(1) answered
  ultimately show ?thesis
    by (intro exI [of _ st'] exI [of _ ?to_a] exI [of _ ?req] exI [of _ qs1] conjI)
qed

text \<open>Peer 1 at \<open>7:70\<close> and peer 2 at \<open>8:80\<close>, with a heartbeat in between.\<close>

theorem introduction_connects_witness:
  "\<exists>st' to_a. server_main (\<lambda>_. None) (\<lambda>_ _ _. None) sorted_iter
      (map Inr ((report_message 1 2, SocketAddrV4 7 70) # [([255], SocketAddrV4 9 90)] @
        [(report_message 2 1, SocketAddrV4 8 80)])) = (Waiting, st') \<and>
    (to_a, SocketAddrV4 7 70) \<in> set (sv_sent st') \<and>
    fst (take_in sample_peer_env 1 (RouteKey 0 (SockV4 9 9)) to_a sample_peer) = Ok () \<and>
    route_of (id_text 1) (tables (pr_shared (snd (take_in sample_peer_env 2 (RouteKey 100000 (SockV4 7 70))
      (punch_message 1) sample_peer)))) = Some (route_from (RouteKey 100000 (SockV4 7 70)) 10 64)"
proof -
  have mid: "\<forall>(d, c) \<in> set [([255], SocketAddrV4 9 90)]. well_formed_request d \<and> names (request_of d) \<inter> {1, 2} = {}"
    by simp
  have st: "status (shared_new StCone) \<noteq> StClose" by (simp add: shared_new_def)
  have there: "tables_ok (tables (pr_shared sample_peer))"
    "rk_addr (RouteKey 100000 (SockV4 7 70)) = sock_of_v4 (SocketAddrV4 7 70)"
    "route_to_id (RouteKey 100000 (SockV4 7 70)) (tables (pr_shared sample_peer)) = None"
    "route_socket (pr_channel sample_peer) (RouteKey 100000 (SockV4 7 70)) = Some 5"
    by (simp_all add: tables_ok_new sock_of_v4_def route_socket_def DEFAULT_TOKEN_INDEX_def)
      (simp add: route_to_id_def tables_new_def)
  have "(1 :: u32) \<noteq> 2" by simp
  from introduction_connects [OF reliable_none refl this mid one_send_bounded one_queue_laws empty_queues_free st
      sample_peer_simps(1,2) _ sample_peer_simps(1,3) there, where b = "SocketAddrV4 8 80" and it = sorted_iter]
  show ?thesis by (simp del: server_loop.simps) blast
qed

end
