(* ===== verification/Boot.thy ===== *)
theory Boot
  imports Channel_Props Punch_Props Idle
begin

section \<open>Starting up\<close>

text \<open>
  \<^verbatim>\<open>Boot::new\<close> of \<^verbatim>\<open>src/boot/mod.rs\<close>: it makes the channel, the punch object and the idle object
  over one shared state. The two bounded channels are values of the crate (\<open>bounded\<close>).
\<close>

definition boot_new ::
    "os_sockets \<Rightarrow> shuffle \<Rightarrow> (nat \<Rightarrow> 'q) \<Rightarrow> nat \<Rightarrow> i64 \<Rightarrow> i64
     \<Rightarrow> (channel \<times> 'id punch \<times> idle \<times> 'q punch_queues \<times> 'id shared) outcome" where
  "boot_new os shuf bounded n read_limit write_limit =
     (let queues = \<lparr>cone_queue = bounded 1, symmetric_queue = bounded 1\<rparr> in
      bind_outcome (channel_new os n StCone) (\<lambda>(channel, shared).
      bind_outcome (channel_sender os channel) (\<lambda>sender.
        Ok (channel, punch_new shuf sender, idle_new read_limit write_limit, queues, shared))))"

text \<open>
  Starting up ends in a state from which everything proved here applies: the channel alone is an
  initial state of the system of channels, the punch object is one of the objects whose invariant
  was shown, both tables are empty and consistent, the NAT type is cone, the limits are the given
  ones, and the punch object sends from the channel's own default socket (the system duplicates a
  handle of the same socket).
\<close>

theorem boot_establishes:
  assumes "boot_new os shuf bounded n rl wl = Ok (ch, p, idl, qs, sh)" and "permutes shuf"
    and "\<And>s. os_dup os s = Inr s" and "P os"
  shows "sys_init P n \<lparr>sys = sh, chans = [ch_poll ch \<mapsto> ch], taken = {}, loaded = Map.empty, missed = {}\<rparr> \<and>
    punch_reach p \<and> pn_sender p = \<lparr>sd_default_udp = ch_src_default_udp ch\<rparr> \<and>
    tables_ok (tables sh) \<and> (\<forall>i. route_of i (tables sh) = None) \<and>
    channel_nat_type sh = Ok NatCone \<and>
    read_idle idl = rl \<and> write_idle idl = wl \<and>
    change_waker_list sh = [(ch_flag ch, ch_poll ch)] \<and> udp_list ch = share_info sh"
proof -
  have new: "channel_new os n StCone = Ok (ch, sh)" and p: "p = punch_new shuf \<lparr>sd_default_udp = ch_src_default_udp ch\<rparr>"
    and idl: "idl = idle_new rl wl"
    using assms(1,3) by (auto simp: boot_new_def bind_outcome_Ok_iff channel_sender_def Let_def split: prod.splits)
  have sh: "sh = (shared_new StCone)\<lparr>change_waker_list := [(ch_flag ch, ch_poll ch)]\<rparr>" and "udp_list ch = []"
    using new by (auto simp: channel_new_def bind_outcome_Ok_iff)
  have "punch_reach p"
    unfolding p by (rule punch_reach.fresh) (rule assms(2))
  moreover have "sys_init P n \<lparr>sys = sh, chans = [ch_poll ch \<mapsto> ch], taken = {}, loaded = Map.empty, missed = {}\<rparr>"
    unfolding sys_init_def using assms(4) new by blast
  ultimately show ?thesis
    using \<open>udp_list ch = []\<close>
    by (simp add: sh p idl shared_new_def tables_ok_new route_of_def tables_new_def [symmetric]
        channel_nat_type_def idle_new_def punch_new_def) (simp add: tables_new_def)
qed

theorem boot_establishes_witness:
  "\<exists>ch p idl qs sh. boot_new (sample_os 5 0) (\<lambda>xs. xs) (\<lambda>_. []) 3 9000 0 =
     Ok (ch, p :: nat punch, idl, qs :: nat list punch_queues, sh) \<and> punch_reach p \<and> channel_nat_type sh = Ok NatCone"
proof -
  obtain ch p idl qs sh where e: "boot_new (sample_os 5 0) (\<lambda>xs. xs) (\<lambda>_. []) 3 9000 0 =
      Ok (ch, p :: nat punch, idl, qs :: nat list punch_queues, sh)"
    by (simp add: boot_new_def channel_new_def channel_sender_def)
  have "\<And>s. os_dup (sample_os 5 0) s = Inr s" by simp
  from boot_establishes [OF e permutes_id this, of "\<lambda>_. True"] e show ?thesis
    by blast
qed

end
