(* ===== verification/Stun_Socket.thy ===== *)
theory Stun_Socket
  imports Net_Types
begin

unbundle bit_operations_syntax

section \<open>Making sockets on a chosen network interface\<close>

text \<open>
  \<^verbatim>\<open>src/stun/socket/\<close>: a socket is made by a sequence of system calls, each of which may fail. The
  calls are recorded; the system's answer to a call is an argument, an arbitrary function of the
  calls made before. The three \<^verbatim>\<open>cfg\<close> variants are the values of a platform argument. The context
  strings that \<^verbatim>\<open>anyhow\<close> adds to an error are not kept.
\<close>

subsection \<open>System calls\<close>

datatype platform = Linux | Macos | Windows

datatype net_target = ByName string | ByAddr socket_addr

datatype net_call =
    NewSocket (is_v4: bool) (is_stream: bool)
  | BindDevice string
  | BindDeviceByIndex u32
  | SetUnicastIf u32
  | SetOnlyV6 bool
  | SetNonblocking bool
  | SetNodelay bool
  | SetReadTimeout nat
  | BindTo socket_addr
  | ConnectTo net_target
  | SendBytes bytes
  | RecvBytes

type_synonym net_history = "net_call list"

record net_os =
  net_answer :: "net_history \<Rightarrow> net_call \<Rightarrow> io_error option"
  net_recv :: "net_history \<Rightarrow> io_error + bytes"

definition call :: "net_os \<Rightarrow> net_call \<Rightarrow> net_history \<Rightarrow> unit outcome \<times> net_history" where
  "call os c h = (case net_answer os h c of None \<Rightarrow> (Ok (), h @ [c]) | Some e \<Rightarrow> (Err e, h @ [c]))"

subsection \<open>Interfaces\<close>

record local_interface =
  li_index :: u32
  li_name :: "string option"

definition local_interface_default :: local_interface where
  "local_interface_default = \<lparr>li_index = 0, li_name = None\<rparr>"

text \<open>An interface as the crate \<^verbatim>\<open>network_interface\<close> lists it.\<close>

record network_interface =
  ni_name :: string
  ni_index :: u32
  ni_addr :: "ip_addr list"

fun iface_with :: "u32 \<Rightarrow> network_interface list \<Rightarrow> local_interface option" where
  "iface_with dest [] = None"
| "iface_with dest (i # is) =
     (if \<exists>a \<in> set (ni_addr i). a = IpV4 dest
      then Some \<lparr>li_index = ni_index i, li_name = Some (ni_name i)\<rparr>
      else iface_with dest is)"

definition no_card :: io_error where
  "no_card = IoError Other ''No network card with IP found''"

definition get_interface ::
    "io_error + network_interface list \<Rightarrow> u32 \<Rightarrow> local_interface outcome" where
  "get_interface listed dest =
     (case listed of
        Inl e \<Rightarrow> Err e
      | Inr is \<Rightarrow> (case iface_with dest is of Some l \<Rightarrow> Ok l | None \<Rightarrow> Err no_card))"

text \<open>On Unix a failed search gives the default; Windows asks the system (\<open>best\<close>).\<close>

definition get_best_interface_unix ::
    "io_error + network_interface list \<Rightarrow> u32 \<Rightarrow> local_interface outcome" where
  "get_best_interface_unix listed dest =
     (case get_interface listed dest of
        Ok iface \<Rightarrow> Ok iface
      | _ \<Rightarrow> Ok local_interface_default)"

definition get_best_interface_windows :: "(u32 \<Rightarrow> io_error + u32) \<Rightarrow> u32 \<Rightarrow> local_interface outcome" where
  "get_best_interface_windows best dest =
     (case best dest of
        Inl e \<Rightarrow> Err e
      | Inr index \<Rightarrow> Ok \<lparr>li_index = index, li_name = None\<rparr>)"

definition get_best_interface ::
    "platform \<Rightarrow> io_error + network_interface list \<Rightarrow> (u32 \<Rightarrow> io_error + u32) \<Rightarrow> u32
     \<Rightarrow> local_interface outcome" where
  "get_best_interface pf listed best dest =
     (if pf = Windows then get_best_interface_windows best dest else get_best_interface_unix listed dest)"

definition set_ip_unicast_if_linux ::
    "net_os \<Rightarrow> local_interface \<Rightarrow> net_history \<Rightarrow> unit outcome \<times> net_history" where
  "set_ip_unicast_if_linux os iface h =
     (case li_name iface of Some name \<Rightarrow> call os (BindDevice name) h | None \<Rightarrow> (Ok (), h))"

definition set_ip_unicast_if_macos ::
    "net_os \<Rightarrow> local_interface \<Rightarrow> net_history \<Rightarrow> unit outcome \<times> net_history" where
  "set_ip_unicast_if_macos os iface h =
     (if li_index iface \<noteq> 0 then call os (BindDeviceByIndex (li_index iface)) h else (Ok (), h))"

text \<open>\<^verbatim>\<open>htonl\<close> on a little-endian machine.\<close>

definition htonl :: "u32 \<Rightarrow> u32" where
  "htonl x = push_bit 24 (x AND 255) OR push_bit 8 (x AND 65280) OR
             (drop_bit 8 x AND 65280) OR (drop_bit 24 x AND 255)"

definition set_ip_unicast_if_windows ::
    "net_os \<Rightarrow> local_interface \<Rightarrow> net_history \<Rightarrow> unit outcome \<times> net_history" where
  "set_ip_unicast_if_windows os iface h =
     (let index = li_index iface in
      if index = 0 then (Ok (), h) else call os (SetUnicastIf (htonl index)) h)"

definition set_ip_unicast_if ::
    "platform \<Rightarrow> net_os \<Rightarrow> local_interface \<Rightarrow> net_history \<Rightarrow> unit outcome \<times> net_history" where
  "set_ip_unicast_if pf os iface h =
     (case pf of
        Linux \<Rightarrow> set_ip_unicast_if_linux os iface h
      | Macos \<Rightarrow> set_ip_unicast_if_macos os iface h
      | Windows \<Rightarrow> set_ip_unicast_if_windows os iface h)"

lemmas unicast_defs = set_ip_unicast_if_def set_ip_unicast_if_linux_def set_ip_unicast_if_macos_def
  set_ip_unicast_if_windows_def Let_def

subsection \<open>Sockets\<close>

definition create_tcp ::
    "platform \<Rightarrow> net_os \<Rightarrow> bool \<Rightarrow> local_interface option \<Rightarrow> net_history \<Rightarrow> unit outcome \<times> net_history" where
  "create_tcp pf os v4 default_interface h =
     and_then (if v4 then call os (NewSocket True True) h else call os (NewSocket False True) h) (\<lambda>_ h.
     and_then (if v4 \<and> default_interface \<noteq> None
               then set_ip_unicast_if pf os (the default_interface) h else (Ok (), h)) (\<lambda>_ h.
       call os (SetNodelay True) h))"

definition connect_tcp ::
    "platform \<Rightarrow> net_os \<Rightarrow> socket_addr \<Rightarrow> local_interface option \<Rightarrow> net_history \<Rightarrow> unit outcome \<times> net_history" where
  "connect_tcp pf os addr default_interface h =
     and_then (create_tcp pf os (is_ipv4 addr) default_interface h) (\<lambda>_ h.
       call os (ConnectTo (ByAddr addr)) h)"

definition bind_udp_ops ::
    "platform \<Rightarrow> net_os \<Rightarrow> socket_addr \<Rightarrow> bool \<Rightarrow> local_interface option \<Rightarrow> net_history
     \<Rightarrow> unit outcome \<times> net_history" where
  "bind_udp_ops pf os addr only_v6 default_interface h =
     and_then
       (if is_ipv4 addr then
          and_then (call os (NewSocket True False) h) (\<lambda>_ h.
            case default_interface of
              Some iface \<Rightarrow> set_ip_unicast_if pf os iface h
            | None \<Rightarrow> (Ok (), h))
        else
          and_then (call os (NewSocket False False) h) (\<lambda>_ h.
            call os (SetOnlyV6 only_v6) h)) (\<lambda>_ h.
     and_then (call os (SetNonblocking False) h) (\<lambda>_ h.
       call os (BindTo addr) h))"

definition bind_udp ::
    "platform \<Rightarrow> net_os \<Rightarrow> socket_addr \<Rightarrow> local_interface option \<Rightarrow> net_history \<Rightarrow> unit outcome \<times> net_history" where
  "bind_udp pf os addr default_interface h = bind_udp_ops pf os addr True default_interface h"

subsection \<open>A script of calls\<close>

text \<open>
  The specification: make the calls of a list in order and stop at the first that fails. Every
  function above is the script that its arguments determine.
\<close>

fun script :: "net_os \<Rightarrow> net_call list \<Rightarrow> net_history \<Rightarrow> unit outcome \<times> net_history" where
  "script os [] h = (Ok (), h)"
| "script os (c # cs) h = and_then (call os c h) (\<lambda>_ h. script os cs h)"

lemma script_Nil: "script os [] = (\<lambda>h. (Ok (), h))"
  by (rule ext) simp

lemma script_one [simp]: "script os [c] = call os c"
  by (rule ext) (simp add: script_Nil and_then_Ok_unit)

lemma script_two: "script os [c, d] = (\<lambda>h. and_then (call os c h) (\<lambda>_. call os d))"
  by (rule ext) simp

lemma script_append: "script os (cs @ ds) = (\<lambda>h. and_then (script os cs h) (\<lambda>_. script os ds))"
proof (induction cs)
  case Nil
  then show ?case by simp
next
  case (Cons c cs)
  show ?case
    by (rule ext) (simp add: Cons.IH and_then_assoc)
qed

lemma script_cases:
  "(fst (script os cs h) = Ok () \<and> snd (script os cs h) = h @ cs) \<or>
   (\<exists>ds c es e. cs = ds @ c # es \<and> net_answer os (h @ ds) c = Some e \<and>
      script os cs h = (Err e, h @ ds @ [c]))"
proof (induction cs arbitrary: h)
  case Nil
  then show ?case by simp
next
  case (Cons c cs)
  show ?case
  proof (cases "net_answer os h c")
    case None
    then have s: "script os (c # cs) h = script os cs (h @ [c])"
      by (simp add: call_def)
    from Cons.IH [of "h @ [c]"] show ?thesis
    proof
      assume "fst (script os cs (h @ [c])) = Ok () \<and> snd (script os cs (h @ [c])) = (h @ [c]) @ cs"
      then show ?thesis unfolding s by simp
    next
      assume "\<exists>ds d es e. cs = ds @ d # es \<and> net_answer os ((h @ [c]) @ ds) d = Some e \<and>
          script os cs (h @ [c]) = (Err e, (h @ [c]) @ ds @ [d])"
      then obtain ds d es e where "cs = ds @ d # es" "net_answer os ((h @ [c]) @ ds) d = Some e"
        "script os cs (h @ [c]) = (Err e, (h @ [c]) @ ds @ [d])" by blast
      then show ?thesis
        unfolding s by (intro disjI2 exI [of _ "c # ds"] exI [of _ d] exI [of _ es] exI [of _ e]) simp
    qed
  next
    case (Some e)
    then show ?thesis
      by (intro disjI2 exI [of _ "[]"] exI [of _ c] exI [of _ cs] exI [of _ e]) (simp add: call_def)
  qed
qed

definition iface_calls :: "platform \<Rightarrow> local_interface option \<Rightarrow> net_call list" where
  "iface_calls pf iface =
     (case iface of
        None \<Rightarrow> []
      | Some l \<Rightarrow>
          (case pf of
             Linux \<Rightarrow> (case li_name l of Some name \<Rightarrow> [BindDevice name] | None \<Rightarrow> [])
           | Macos \<Rightarrow> if li_index l = 0 then [] else [BindDeviceByIndex (li_index l)]
           | Windows \<Rightarrow> if li_index l = 0 then [] else [SetUnicastIf (htonl (li_index l))]))"

lemma set_ip_unicast_if_script: "set_ip_unicast_if pf os l h = script os (iface_calls pf (Some l)) h"
  by (cases pf) (simp_all add: unicast_defs iface_calls_def and_then_Ok_unit split: option.split)

definition udp_script :: "platform \<Rightarrow> socket_addr \<Rightarrow> bool \<Rightarrow> local_interface option \<Rightarrow> net_call list" where
  "udp_script pf addr only_v6 iface =
     (if is_ipv4 addr then NewSocket True False # iface_calls pf iface
      else [NewSocket False False, SetOnlyV6 only_v6]) @ [SetNonblocking False, BindTo addr]"

lemma bind_udp_ops_script: "bind_udp_ops pf os addr only_v6 iface h = script os (udp_script pf addr only_v6 iface) h"
proof -
  have 1: "(case iface of Some l \<Rightarrow> set_ip_unicast_if pf os l h | None \<Rightarrow> (Ok (), h)) =
      script os (iface_calls pf iface) h" for h
    by (cases iface) (simp_all add: set_ip_unicast_if_script, simp add: iface_calls_def)
  show ?thesis
    by (simp add: bind_udp_ops_def udp_script_def 1 script_append script_two and_then_assoc and_then_Ok_unit)
qed

definition tcp_script :: "platform \<Rightarrow> socket_addr \<Rightarrow> local_interface option \<Rightarrow> net_call list" where
  "tcp_script pf addr iface =
     (NewSocket (is_ipv4 addr) True # (if is_ipv4 addr then iface_calls pf iface else [])) @
     [SetNodelay True, ConnectTo (ByAddr addr)]"

lemma connect_tcp_script: "connect_tcp pf os addr iface h = script os (tcp_script pf addr iface) h"
proof -
  have 1: "(if v4 \<and> iface \<noteq> None then set_ip_unicast_if pf os (the iface) h else (Ok (), h)) =
      script os (if v4 then iface_calls pf iface else []) h" for v4 h
    by (cases iface) (simp_all add: set_ip_unicast_if_script, simp add: iface_calls_def)
  have 2: "(if v4 then call os (NewSocket True True) h else call os (NewSocket False True) h) =
      call os (NewSocket v4 True) h" for v4 h
    by simp
  show ?thesis
    unfolding connect_tcp_def create_tcp_def 1 2 tcp_script_def
    by (simp add: script_append script_two and_then_assoc and_then_Ok_unit)
qed

subsection \<open>Properties\<close>

text \<open>
  A UDP socket is made by exactly the calls of its script, in order, stopping at the first that
  fails with that error. An IPv4 socket is tied to the interface before it is bound to the address;
  an IPv6 socket never is, whatever interface was asked for.
\<close>

theorem bind_udp_calls:
  "(fst (bind_udp_ops pf os addr only_v6 iface h) = Ok () \<and>
    snd (bind_udp_ops pf os addr only_v6 iface h) = h @ udp_script pf addr only_v6 iface) \<or>
   (\<exists>ds c es e. udp_script pf addr only_v6 iface = ds @ c # es \<and>
      net_answer os (h @ ds) c = Some e \<and>
      bind_udp_ops pf os addr only_v6 iface h = (Err e, h @ ds @ [c]))"
  unfolding bind_udp_ops_script by (rule script_cases)

text \<open>
  A TCP connection is made by exactly the calls of its script: the socket is tied to the
  interface (IPv4 only), delayed sending is switched off, and only then it is connected to the
  address; nothing is called after the first failure.
\<close>

theorem connect_tcp_calls:
  "(fst (connect_tcp pf os addr iface h) = Ok () \<and>
    snd (connect_tcp pf os addr iface h) = h @ tcp_script pf addr iface) \<or>
   (\<exists>ds c es e. tcp_script pf addr iface = ds @ c # es \<and>
      net_answer os (h @ ds) c = Some e \<and>
      connect_tcp pf os addr iface h = (Err e, h @ ds @ [c]))"
  unfolding connect_tcp_script by (rule script_cases)

lemma iface_with_Some:
  "iface_with dest is = Some l \<Longrightarrow>
   \<exists>xs i ys. is = xs @ i # ys \<and> (\<forall>x \<in> set xs. IpV4 dest \<notin> set (ni_addr x)) \<and>
      IpV4 dest \<in> set (ni_addr i) \<and> l = \<lparr>li_index = ni_index i, li_name = Some (ni_name i)\<rparr>"
proof (induction "is")
  case Nil
  then show ?case by simp
next
  case (Cons i "is")
  show ?case
  proof (cases "IpV4 dest \<in> set (ni_addr i)")
    case True
    with Cons.prems show ?thesis
      by (intro exI [of _ "[]"] exI [of _ i] exI [of _ "is"]) simp
  next
    case False
    with Cons.prems have "iface_with dest is = Some l" by simp
    then obtain xs j ys where "is = xs @ j # ys" "\<forall>x \<in> set xs. IpV4 dest \<notin> set (ni_addr x)"
      "IpV4 dest \<in> set (ni_addr j)" "l = \<lparr>li_index = ni_index j, li_name = Some (ni_name j)\<rparr>"
      using Cons.IH by blast
    with False show ?thesis
      by (intro exI [of _ "i # xs"] exI [of _ j] exI [of _ ys]) simp
  qed
qed

lemma iface_with_None:
  "iface_with dest is = None \<longleftrightarrow> (\<forall>i \<in> set is. IpV4 dest \<notin> set (ni_addr i))"
  by (induction "is") auto

text \<open>
  On Unix \<^verbatim>\<open>get_best_interface\<close> never fails. It gives the first listed interface that has the
  IPv4 address; if the listing fails or no interface has the address it gives the default, which
  ties a socket to no interface: \<^verbatim>\<open>set_ip_unicast_if\<close> then makes no call at all.
\<close>

theorem best_interface_unix:
  assumes "pf \<noteq> Windows"
  shows "\<exists>l. get_best_interface pf listed best dest = Ok l \<and>
    (case listed of
       Inl e \<Rightarrow> l = local_interface_default
     | Inr is \<Rightarrow>
         (l = local_interface_default \<and> (\<forall>i \<in> set is. IpV4 dest \<notin> set (ni_addr i))) \<or>
         (\<exists>xs i ys. is = xs @ i # ys \<and> (\<forall>x \<in> set xs. IpV4 dest \<notin> set (ni_addr x)) \<and>
            IpV4 dest \<in> set (ni_addr i) \<and> l = \<lparr>li_index = ni_index i, li_name = Some (ni_name i)\<rparr>)) \<and>
    set_ip_unicast_if pf os local_interface_default h = (Ok (), h)"
proof -
  have default: "set_ip_unicast_if pf os local_interface_default h = (Ok (), h)"
    by (cases pf) (simp_all add: unicast_defs local_interface_default_def)
  have unix: "get_best_interface pf listed best dest =
      (case get_interface listed dest of Ok iface \<Rightarrow> Ok iface | _ \<Rightarrow> Ok local_interface_default)"
    using assms by (simp add: get_best_interface_def get_best_interface_unix_def)
  show ?thesis
  proof (cases listed)
    case (Inl e)
    with unix default show ?thesis by (simp add: get_interface_def)
  next
    case (Inr ifs)
    show ?thesis
    proof (cases "iface_with dest ifs")
      case None
      with Inr unix default show ?thesis
        by (simp add: get_interface_def iface_with_None)
    next
      case (Some l)
      then have "get_best_interface pf listed best dest = Ok l"
        using unix Inr by (simp add: get_interface_def)
      with iface_with_Some [OF Some] Inr default show ?thesis by auto
    qed
  qed
qed

theorem best_interface_unix_witness:
  "\<exists>l. get_best_interface Linux (Inr [\<lparr>ni_name = ''eth0'', ni_index = 2, ni_addr = [IpV4 7]\<rparr>])
     (\<lambda>_. Inr 0) 9 = Ok l"
  using best_interface_unix [of Linux "Inr [\<lparr>ni_name = ''eth0'', ni_index = 2, ni_addr = [IpV4 7]\<rparr>]"
      "\<lambda>_. Inr 0" 9]
  by blast

end
