(* ===== verification/Stun.thy ===== *)
theory Stun
  imports Stun_Socket Nat_Info
begin

section \<open>NAT detection with STUN\<close>

text \<open>
  \<^verbatim>\<open>src/stun/mod.rs\<close>: asking STUN servers for our public address, and the two public functions that
  build a request and read a response. The crate \<^verbatim>\<open>stun_format\<close> (building a message, reading its
  transaction id and its attributes) and the random generator are arguments; so are the orders in
  which the hash sets are iterated. The system calls are those of \<^theory_text>\<open>Stun_Socket\<close>. Log
  messages are not modelled.
\<close>

subsection \<open>Messages\<close>

datatype stun_sock_addr = StunV4 u32 u16 | StunV6 u128 u16

datatype stun_attr =
    MappedAddress stun_sock_addr
  | ChangedAddress stun_sock_addr
  | XorMappedAddress stun_sock_addr
  | OtherAttr

text \<open>
  \<open>sl_build tid change_ip change_port\<close> is the binding request with that transaction id and one
  \<^verbatim>\<open>ChangeRequest\<close> attribute; \<open>sl_rng\<close> gives the next random number.
\<close>

record stun_lib =
  sl_build :: "u128 \<Rightarrow> bool \<Rightarrow> bool \<Rightarrow> bytes"
  sl_tid :: "bytes \<Rightarrow> u128 option"
  sl_attrs :: "bytes \<Rightarrow> stun_attr list"
  sl_rng :: "net_history \<Rightarrow> u64"

fun stun_addr :: "stun_sock_addr \<Rightarrow> socket_addr" where
  "stun_addr (StunV4 ip port) = SockV4 ip port"
| "stun_addr (StunV6 ip port) = SockV6 ip port 0 0"

definition TAG :: u128 where
  "TAG = push_bit 64 1827549368"

definition send_stun_request :: "stun_lib \<Rightarrow> net_history \<Rightarrow> bytes" where
  "send_stun_request lib h =
     (let i = ucast (sl_rng lib h) :: u128 in sl_build lib (i OR TAG) False False)"

fun first_mapped :: "stun_attr list \<Rightarrow> socket_addr option" where
  "first_mapped [] = None"
| "first_mapped (x # xs) =
     (case x of
        MappedAddress addr \<Rightarrow> Some (stun_addr addr)
      | XorMappedAddress addr \<Rightarrow> Some (stun_addr addr)
      | _ \<Rightarrow> first_mapped xs)"

definition recv_stun_response :: "stun_lib \<Rightarrow> bytes \<Rightarrow> socket_addr option" where
  "recv_stun_response lib buf =
     (case sl_tid lib buf of
        Some tid \<Rightarrow> if tid AND TAG \<noteq> TAG then None else first_mapped (sl_attrs lib buf)
      | None \<Rightarrow> first_mapped (sl_attrs lib buf))"

subsection \<open>One test against a server\<close>

text \<open>
  The loop over the attributes of a response, with the addresses found so far; it ends early when
  both are there.
\<close>

fun read_attrs ::
    "stun_attr list \<Rightarrow> socket_addr option \<Rightarrow> socket_addr option
     \<Rightarrow> (socket_addr \<times> socket_addr option) option" where
  "read_attrs [] mapped changed = map_option (\<lambda>addr. (addr, changed)) mapped"
| "read_attrs (x # xs) mapped changed =
     (let mapped' = (case x of
            MappedAddress addr \<Rightarrow> if mapped = None then Some (stun_addr addr) else mapped
          | XorMappedAddress addr \<Rightarrow> if mapped = None then Some (stun_addr addr) else mapped
          | _ \<Rightarrow> mapped);
          changed' = (case x of
            ChangedAddress addr \<Rightarrow> if changed = None then Some (stun_addr addr) else changed
          | _ \<Rightarrow> changed)
      in if changed' \<noteq> None \<and> mapped' \<noteq> None then Some (the mapped', changed')
         else read_attrs xs mapped' changed')"

text \<open>\<^verbatim>\<open>test_nat_\<close>: \<open>n\<close> attempts are left.\<close>

fun test_attempts ::
    "stun_lib \<Rightarrow> net_os \<Rightarrow> bool \<Rightarrow> bool \<Rightarrow> u128 \<Rightarrow> nat \<Rightarrow> net_history
     \<Rightarrow> (socket_addr \<times> socket_addr option) outcome \<times> net_history" where
  "test_attempts lib os change_ip change_port tid 0 h =
     (Err (IoError Other ''stun response err''), h)"
| "test_attempts lib os change_ip change_port tid (Suc n) h =
     and_then (call os (SendBytes (sl_build lib tid change_ip change_port)) h) (\<lambda>_ h1.
       let h2 = h1 @ [RecvBytes] in
       case net_recv os h1 of
         Inl e \<Rightarrow> test_attempts lib os change_ip change_port tid n h2
       | Inr data \<Rightarrow>
           (case read_attrs (sl_attrs lib data) None None of
              Some r \<Rightarrow> (Ok r, h2)
            | None \<Rightarrow> test_attempts lib os change_ip change_port tid n h2))"

definition test_nat_once ::
    "stun_lib \<Rightarrow> net_os \<Rightarrow> bool \<Rightarrow> bool \<Rightarrow> u128 \<Rightarrow> net_history
     \<Rightarrow> (socket_addr \<times> socket_addr option) outcome \<times> net_history" where
  "test_nat_once lib os change_ip change_port tid h = test_attempts lib os change_ip change_port tid 2 h"

text \<open>The second insertion is of \<open>mapped_addr1\<close>, as in the code.\<close>

definition test_nat ::
    "stun_lib \<Rightarrow> net_os \<Rightarrow> string \<Rightarrow> net_history \<Rightarrow> socket_addr set outcome \<times> net_history" where
  "test_nat lib os stun_server h =
     and_then (call os (ConnectTo (ByName stun_server)) h) (\<lambda>_ h.
     let tid = ucast (sl_rng lib h) :: u128 in
     and_then (test_nat_once lib os True True tid h) (\<lambda>(mapped_addr1, changed_addr1) h.
       let addr = (if is_ipv4 mapped_addr1 then {mapped_addr1} else {}) in
       case changed_addr1 of
         None \<Rightarrow> (Ok addr, h)
       | Some changed \<Rightarrow>
           (case call os (ConnectTo (ByAddr changed)) h of
              (Ok _, h) \<Rightarrow>
                (case test_nat_once lib os False False (tid + 1) h of
                   (Ok (mapped_addr2, _), h) \<Rightarrow>
                     (Ok (if is_ipv4 mapped_addr2 then insert mapped_addr1 addr else addr), h)
                 | (_, h) \<Rightarrow> (Ok addr, h))
            | (_, h) \<Rightarrow> (Ok addr, h))))"

subsection \<open>One round over all servers\<close>

text \<open>A server that fails is passed over.\<close>

fun test_servers ::
    "stun_lib \<Rightarrow> net_os \<Rightarrow> string list \<Rightarrow> socket_addr set \<Rightarrow> net_history
     \<Rightarrow> socket_addr set \<times> net_history" where
  "test_servers lib os [] pub_addrs h = (pub_addrs, h)"
| "test_servers lib os (x # xs) pub_addrs h =
     (case test_nat lib os x h of
        (Ok addr, h') \<Rightarrow> test_servers lib os xs (pub_addrs \<union> addr) h'
      | (_, h') \<Rightarrow> test_servers lib os xs pub_addrs h')"

text \<open>The loop that collects the IPv4 addresses, the smallest and the largest port.\<close>

fun collect_ports :: "socket_addr list \<Rightarrow> u32 set \<Rightarrow> u16 \<Rightarrow> u16 \<Rightarrow> u32 set \<times> u16 \<times> u16" where
  "collect_ports [] ips min_port max_port = (ips, min_port, max_port)"
| "collect_ports (SockV4 ip port # xs) ips min_port max_port =
     collect_ports xs (insert ip ips) (if port < min_port then port else min_port)
       (if max_port < port then port else max_port)"
| "collect_ports (SockV6 ip port f s # xs) ips min_port max_port = collect_ports xs ips min_port max_port"

record hash_order =
  addr_order :: "socket_addr set \<Rightarrow> socket_addr list"
  ip_order :: "u32 set \<Rightarrow> u32 list"

type_synonym nat_report = "nat_type \<times> u32 list \<times> u16"

definition summarize :: "bool \<Rightarrow> hash_order \<Rightarrow> socket_addr set \<Rightarrow> nat_report outcome" where
  "summarize chk ord pub_addrs =
     (let nt = (if 1 < card pub_addrs then NatSymmetric else NatCone);
          (ips, min_port, max_port) = collect_ports (addr_order ord pub_addrs) {} 65535 0
      in if ips = {} then Ok (nt, [], 0)
         else bind_outcome (u16_sub chk max_port min_port) (\<lambda>range.
                Ok (nt, ip_order ord ips, range)))"

definition stun_test_nat0 ::
    "bool \<Rightarrow> platform \<Rightarrow> hash_order \<Rightarrow> stun_lib \<Rightarrow> net_os \<Rightarrow> string list \<Rightarrow> local_interface option
     \<Rightarrow> net_history \<Rightarrow> nat_report outcome \<times> net_history" where
  "stun_test_nat0 chk pf ord lib os stun_servers default_interface h =
     and_then (bind_udp pf os (SockV4 0 0) default_interface h) (\<lambda>_ h.
     and_then (call os (SetNonblocking False) h) (\<lambda>_ h.
     and_then (call os (SetReadTimeout 500) h) (\<lambda>_ h.
     let (pub_addrs, h) = test_servers lib os stun_servers {} h
     in (summarize chk ord pub_addrs, h))))"

subsection \<open>Two rounds\<close>

fun nat_rounds ::
    "nat \<Rightarrow> (net_history \<Rightarrow> nat_report outcome \<times> net_history) \<Rightarrow> nat_type \<Rightarrow> u16 \<Rightarrow> u32 set
     \<Rightarrow> net_history \<Rightarrow> (nat_type \<times> u16 \<times> u32 set) outcome \<times> net_history" where
  "nat_rounds 0 once nt port_range ips h = (Ok (nt, port_range, ips), h)"
| "nat_rounds (Suc n) once nt port_range ips h =
     (case once h of
        (Ok (nat_type_t, ip_list_t, port_range_t), h') \<Rightarrow>
          nat_rounds n once (if nat_type_t = NatSymmetric then NatSymmetric else nt)
            (if port_range < port_range_t then port_range_t else port_range) (ips \<union> set ip_list_t) h'
      | (Err e, h') \<Rightarrow> nat_rounds n once nt port_range ips h'
      | (Panic, h') \<Rightarrow> (Panic, h'))"

definition stun_test_nat ::
    "bool \<Rightarrow> platform \<Rightarrow> hash_order \<Rightarrow> stun_lib \<Rightarrow> net_os \<Rightarrow> string list \<Rightarrow> local_interface option
     \<Rightarrow> net_history \<Rightarrow> nat_report outcome \<times> net_history" where
  "stun_test_nat chk pf ord lib os stun_servers default_interface h =
     and_then (nat_rounds 2 (stun_test_nat0 chk pf ord lib os stun_servers default_interface)
                 NatCone 0 {} h) (\<lambda>(nt, port_range, ips) h.
       (Ok (nt, ip_order ord ips, port_range), h))"

end
