(* ===== verification/Stun_Props.thy ===== *)
theory Stun_Props
  imports Stun
begin

section \<open>Properties of the NAT detection\<close>

text \<open>
  What a response is read as, what a round over the servers reports, how many datagrams are sent,
  that the detection always ends with a report, and two things it cannot see.
\<close>

subsection \<open>Reading a response\<close>

fun first_changed :: "stun_attr list \<Rightarrow> socket_addr option" where
  "first_changed [] = None"
| "first_changed (x # xs) =
     (case x of ChangedAddress addr \<Rightarrow> Some (stun_addr addr) | _ \<Rightarrow> first_changed xs)"

definition or_else :: "'a option \<Rightarrow> 'a option \<Rightarrow> 'a option" where
  "or_else a b = (case a of Some x \<Rightarrow> Some x | None \<Rightarrow> b)"

lemma or_else_simps [simp]: "or_else None b = b" "or_else (Some x) b = Some x" "or_else a None = a"
  by (simp_all add: or_else_def split: option.split)

lemma read_attrs_first:
  "\<not> (m \<noteq> None \<and> c \<noteq> None) \<Longrightarrow>
   read_attrs xs m c = map_option (\<lambda>a. (a, or_else c (first_changed xs))) (or_else m (first_mapped xs))"
proof (induction xs arbitrary: m c)
  case Nil
  then show ?case by simp
next
  case (Cons x xs)
  then show ?case
    by (cases x; cases m; cases c) (simp_all add: Let_def)
qed

text \<open>
  A response is read as the first mapped address in it, plain or xor-ed, and the first changed
  address, if there is one, in whatever order the attributes come; without a mapped address it is
  not an answer.
\<close>

theorem response_reading:
  "read_attrs xs None None = map_option (\<lambda>a. (a, first_changed xs)) (first_mapped xs)"
  by (simp add: read_attrs_first)

lemma test_once_first_reply:
  assumes "net_answer os h (SendBytes (sl_build lib tid ci cp)) = None"
    and "net_recv os (h @ [SendBytes (sl_build lib tid ci cp)]) = Inr data"
    and "first_mapped (sl_attrs lib data) = Some m"
  shows "test_nat_once lib os ci cp tid h =
    (Ok (m, first_changed (sl_attrs lib data)), h @ [SendBytes (sl_build lib tid ci cp), RecvBytes])"
  using assms by (simp add: test_nat_once_def numeral_2_eq_2 call_def read_attrs_first Let_def)

text \<open>
  A test of the detection takes the first datagram that carries a mapped address as its answer,
  whatever transaction id that datagram has: two libraries that agree on building and on the
  attributes, but not on the ids, give the same answer. (Only \<^verbatim>\<open>recv_stun_response\<close> looks at the id.)
\<close>

theorem reply_id_not_checked:
  assumes "sl_build lib' = sl_build lib" and "sl_attrs lib' = sl_attrs lib" and "sl_rng lib' = sl_rng lib"
  shows "stun_test_nat chk pf ord lib' os servers iface h = stun_test_nat chk pf ord lib os servers iface h"
proof -
  have attempts: "test_attempts lib' os ci cp tid n h = test_attempts lib os ci cp tid n h" for ci cp tid n h
  proof (induction n arbitrary: h)
    case (Suc n)
    then show ?case by (simp add: assms(1,2) cong: option.case_cong sum.case_cong)
  qed simp
  then have once: "test_nat_once lib' os = test_nat_once lib os"
    by (intro ext) (simp add: test_nat_once_def)
  have nat: "test_nat lib' os s h = test_nat lib os s h" for s h
    unfolding test_nat_def once assms(3) by (rule refl)
  have servers: "test_servers lib' os xs A h = test_servers lib os xs A h" for xs A h
    by (induction xs arbitrary: A h) (simp_all add: nat split: prod.split outcome.split)
  have "stun_test_nat0 chk pf ord lib' os servers iface = stun_test_nat0 chk pf ord lib os servers iface"
    by (rule ext) (simp add: stun_test_nat0_def servers)
  then show ?thesis
    by (simp add: stun_test_nat_def)
qed

text \<open>
  For the witnesses: a library whose messages are their transaction id (low 64 bits) and whose
  responses all carry the attributes \<open>xs\<close>, and a network on which every call succeeds.
\<close>

definition sample_lib :: "stun_attr list \<Rightarrow> stun_lib" where
  "sample_lib xs = \<lparr>sl_build = (\<lambda>tid ci cp. []), sl_tid = (\<lambda>b. None), sl_attrs = (\<lambda>b. xs), sl_rng = (\<lambda>h. 0)\<rparr>"

definition sample_net :: net_os where
  "sample_net = \<lparr>net_answer = (\<lambda>h c. None), net_recv = (\<lambda>h. Inr [])\<rparr>"

theorem reply_id_not_checked_witness:
  "stun_test_nat True Linux ord ((sample_lib [])\<lparr>sl_tid := \<lambda>b. Some 7\<rparr>) sample_net [''a''] None [] =
   stun_test_nat True Linux ord (sample_lib []) sample_net [''a''] None []"
  by (rule reply_id_not_checked) simp_all

subsection \<open>Tagged requests\<close>

lemma TAG_value: "TAG = 33712335473565636471384178688"
  by (simp add: TAG_def push_bit_eq_mult)

lemma tag_or: "(x OR TAG) AND TAG = (TAG :: u128)"
  by (rule bit_word_eqI) (auto simp: bit_simps)

lemma untagged:
  assumes "x \<le> 18446744073709551616" shows "x AND TAG \<noteq> (TAG :: u128)"
proof
  assume "x AND TAG = TAG"
  then have "TAG \<le> x"
    using word_and_le2 [of x TAG] by simp
  with assms have "TAG \<le> 18446744073709551616" by (rule order_trans [rotated])
  then show False by (simp add: TAG_value)
qed

lemma unat_random_tid: "unat (ucast (r :: u64) :: u128) = unat r"
  using unsigned_less [of r, where ?'a = nat] by (simp add: unsigned_ucast_eq take_bit_nat_eq_self)

lemma random_tid_bound: "(ucast (r :: u64) :: u128) \<le> 18446744073709551616"
  "(ucast (r :: u64) :: u128) + 1 \<le> 18446744073709551616"
proof -
  have r: "unat r < 2 ^ 64"
    using unsigned_less [of r, where ?'a = nat] by simp
  then show "(ucast r :: u128) \<le> 18446744073709551616"
    by (simp add: word_le_nat_alt unat_random_tid)
  have "unat ((ucast r :: u128) + 1) = unat r + 1"
    using r by (subst unat_add_lem [THEN iffD1]) (simp_all add: unat_random_tid)
  then show "(ucast r :: u128) + 1 \<le> 18446744073709551616"
    using r by (simp add: word_le_nat_alt)
qed

lemma tagged_tid_bound: "(ucast (r :: u64) :: u128) OR TAG < 79228162514264337593543950336"
proof -
  have "TAG AND 79228162514264337593543950335 = TAG"
    by (simp add: TAG_value)
  moreover have "(ucast r :: u128) AND 79228162514264337593543950335 = ucast r"
  proof -
    have "(79228162514264337593543950335 :: u128) = mask 96"
      by (simp add: mask_eq_exp_minus_1)
    moreover have "(ucast r :: u128) AND mask 96 = ucast r"
      by (rule bit_word_eqI) (auto simp: bit_simps dest: bit_imp_le_length)
    ultimately show ?thesis by simp
  qed
  ultimately have "(ucast r OR TAG) AND 79228162514264337593543950335 = (ucast r OR TAG :: u128)"
    by (simp add: word_ao_dist)
  then have "(ucast r OR TAG :: u128) \<le> 79228162514264337593543950335"
    by (metis word_and_le1)
  then show ?thesis
    by (rule order_le_less_trans) simp
qed

text \<open>
  A response is tied to a request made by \<^verbatim>\<open>send_stun_request\<close>: with a crate that gives back the
  96-bit transaction id it was given, every response with the id of such a request is read for its
  first mapped address, and every response to a request of the NAT detection (whose ids are one
  64-bit random number or its successor) is refused.
\<close>

theorem tagged_request_roundtrip:
  assumes "\<And>tid ci cp. tid < 79228162514264337593543950336 \<Longrightarrow> sl_tid lib (sl_build lib tid ci cp) = Some tid"
  shows "(\<forall>reply. sl_tid lib reply = sl_tid lib (send_stun_request lib h) \<longrightarrow>
      recv_stun_response lib reply = first_mapped (sl_attrs lib reply)) \<and>
    (\<forall>reply r. sl_tid lib reply = Some (ucast (r :: u64)) \<or> sl_tid lib reply = Some (ucast r + 1) \<longrightarrow>
      recv_stun_response lib reply = None)"
proof -
  have "sl_tid lib (send_stun_request lib h) = Some (ucast (sl_rng lib h) OR TAG)"
    by (simp add: send_stun_request_def assms [OF tagged_tid_bound])
  then show ?thesis
    by (auto simp: recv_stun_response_def tag_or untagged random_tid_bound)
qed

text \<open>A crate that writes the id bit by bit and nothing else.\<close>

definition id_lib :: stun_lib where
  "id_lib = \<lparr>sl_build = (\<lambda>tid ci cp. map (\<lambda>i. if bit tid i then 1 else 0) [0..<128]),
     sl_tid = (\<lambda>b. Some (horner_sum of_bool 2 (map (\<lambda>x. x = 1) b))),
     sl_attrs = (\<lambda>b. [MappedAddress (StunV4 7 8)]), sl_rng = (\<lambda>h. 5)\<rparr>"

theorem tagged_request_roundtrip_witness:
  "recv_stun_response id_lib (send_stun_request id_lib []) = Some (SockV4 7 8)"
proof -
  have "sl_tid id_lib (sl_build id_lib tid ci cp) = Some tid"
    if "tid < 79228162514264337593543950336" for tid ci cp
  proof -
    have "(\<lambda>i. (if bit tid i then 1 else 0 :: u8) = 1) = bit tid"
      by (rule ext) simp
    then show ?thesis
      by (simp add: id_lib_def comp_def horner_sum_bit_eq_take_bit take_bit_word_eq_self del: upt.simps)
  qed
  from tagged_request_roundtrip [of id_lib "[]", OF this] show ?thesis
    by (simp add: id_lib_def)
qed

subsection \<open>The report of one round\<close>

definition lists_set :: "('a set \<Rightarrow> 'a list) \<Rightarrow> bool" where
  "lists_set it \<longleftrightarrow> (\<forall>S. finite S \<longrightarrow> set (it S) = S \<and> distinct (it S))"

definition order_ok :: "hash_order \<Rightarrow> bool" where
  "order_ok ord \<longleftrightarrow> lists_set (addr_order ord) \<and> lists_set (ip_order ord)"

definition v4_ips :: "socket_addr set \<Rightarrow> u32 set" where
  "v4_ips A = {ip. \<exists>port. SockV4 ip port \<in> A}"

definition v4_ports :: "socket_addr set \<Rightarrow> u16 set" where
  "v4_ports A = {port. \<exists>ip. SockV4 ip port \<in> A}"

lemma v4_insert:
  "v4_ips (insert (SockV4 ip port) A) = insert ip (v4_ips A)"
  "v4_ports (insert (SockV4 ip port) A) = insert port (v4_ports A)"
  "v4_ips (insert (SockV6 a p f s) A) = v4_ips A"
  "v4_ports (insert (SockV6 a p f s) A) = v4_ports A"
  by (auto simp: v4_ips_def v4_ports_def)

lemma v4_empty_iff: "v4_ips A = {} \<longleftrightarrow> v4_ports A = {}"
  by (auto simp: v4_ips_def v4_ports_def)

lemma collect_ports_bounds:
  assumes "collect_ports xs ips lo hi = (I, a, b)"
  shows "I = ips \<union> v4_ips (set xs)"
    "a \<le> lo" "\<forall>q \<in> v4_ports (set xs). a \<le> q" "a = lo \<or> a \<in> v4_ports (set xs)"
    "hi \<le> b" "\<forall>q \<in> v4_ports (set xs). q \<le> b" "b = hi \<or> b \<in> v4_ports (set xs)"
proof -
  have "I = ips \<union> v4_ips (set xs) \<and> a \<le> lo \<and> (\<forall>q \<in> v4_ports (set xs). a \<le> q) \<and>
      (a = lo \<or> a \<in> v4_ports (set xs)) \<and> hi \<le> b \<and> (\<forall>q \<in> v4_ports (set xs). q \<le> b) \<and>
      (b = hi \<or> b \<in> v4_ports (set xs))"
    using assms
  proof (induction xs ips lo hi rule: collect_ports.induct)
    case (1 ips lo hi)
    then show ?case by (simp add: v4_ips_def v4_ports_def)
  next
    case (2 ip port xs ips lo hi)
    then show ?case by (auto simp: v4_insert split: if_splits)
  next
    case (3 ip port f s xs ips lo hi)
    then show ?case by (simp add: v4_insert)
  qed
  then show "I = ips \<union> v4_ips (set xs)"
    "a \<le> lo" "\<forall>q \<in> v4_ports (set xs). a \<le> q" "a = lo \<or> a \<in> v4_ports (set xs)"
    "hi \<le> b" "\<forall>q \<in> v4_ports (set xs). q \<le> b" "b = hi \<or> b \<in> v4_ports (set xs)"
    by blast+
qed

lemma u16_top: "(a :: u16) \<le> 65535"
  using unat_u16_bound [of a] by (simp add: word_le_nat_alt)

lemma finite_v4_ips: "finite A \<Longrightarrow> finite (v4_ips A)"
proof -
  assume "finite A"
  moreover have "v4_ips A \<subseteq> sa4_ip ` A"
    by (force simp: v4_ips_def)
  ultimately show ?thesis by (rule finite_surj)
qed

text \<open>
  C27: The report of a round depends on the set of public addresses that were seen, not on the order
  in which the hash set gives them. It says symmetric exactly when more than one was seen; it lists
  every public IPv4 address once; its port range is the distance between the smallest and the
  largest port seen, or 0 when there is none. The subtraction never underflows.
\<close>

theorem round_report_exact:
  assumes "order_ok ord" and "finite A"
  shows "\<exists>ips range. summarize chk ord A = Ok (if 1 < card A then NatSymmetric else NatCone, ips, range) \<and>
    set ips = v4_ips A \<and> distinct ips \<and>
    (if v4_ports A = {} then range = 0
     else \<exists>lo \<in> v4_ports A. \<exists>hi \<in> v4_ports A.
            (\<forall>q \<in> v4_ports A. lo \<le> q \<and> q \<le> hi) \<and> unat range = unat hi - unat lo)"
proof -
  let ?xs = "addr_order ord A"
  have xs: "set ?xs = A"
    using assms by (simp add: order_ok_def lists_set_def)
  obtain I a b where c: "collect_ports ?xs {} 65535 0 = (I, a, b)"
    by (cases "collect_ports ?xs {} 65535 0") auto
  note bounds = collect_ports_bounds [OF c, unfolded xs]
  have ips: "set (ip_order ord I) = v4_ips A \<and> distinct (ip_order ord I)"
    using assms bounds(1) finite_v4_ips [OF assms(2)] by (simp add: order_ok_def lists_set_def)
  show ?thesis
  proof (cases "v4_ports A = {}")
    case True
    then have "I = {}" "v4_ips A = {}"
      using bounds(1) v4_empty_iff [of A] by simp_all
    with True c show ?thesis
      by (simp add: summarize_def)
  next
    case False
    then have "I \<noteq> {}"
      using bounds(1) v4_empty_iff [of A] by simp
    obtain q where q: "q \<in> v4_ports A" using False by blast
    have "a \<in> v4_ports A"
    proof (cases "a = 65535")
      case True
      with bounds(3) q have "65535 \<le> q" by blast
      with u16_top [of q] have "q = 65535" by (rule antisym)
      with True q show ?thesis by simp
    qed (use bounds(4) in blast)
    moreover have "b \<in> v4_ports A"
    proof (cases "b = 0")
      case True
      with bounds(6) q have "q \<le> 0" by blast
      then have "q = 0" by simp
      with True q show ?thesis by simp
    qed (use bounds(7) in blast)
    moreover have "a \<le> b"
      using bounds(3,6) q by (blast intro: order_trans)
    then have "u16_sub chk b a = Ok (b - a)" "unat (b - a) = unat b - unat a"
      by (simp_all add: u16_sub_ok unat_sub_u16)
    ultimately have "\<exists>lo \<in> v4_ports A. \<exists>hi \<in> v4_ports A.
        (\<forall>q \<in> v4_ports A. lo \<le> q \<and> q \<le> hi) \<and> unat (b - a) = unat hi - unat lo"
      using bounds(3,6) by blast
    moreover have "summarize chk ord A =
        Ok (if 1 < card A then NatSymmetric else NatCone, ip_order ord I, b - a)"
      using \<open>I \<noteq> {}\<close> c \<open>u16_sub chk b a = Ok (b - a)\<close> by (simp add: summarize_def)
    ultimately show ?thesis
      using ips False by simp
  qed
qed

definition sample_order :: hash_order where
  "sample_order = \<lparr>addr_order = sorted_list_of_set, ip_order = sorted_list_of_set\<rparr>"

lemma sample_order_ok: "order_ok sample_order"
  by (simp add: order_ok_def lists_set_def sample_order_def)

theorem round_report_exact_witness:
  "\<exists>ips range. summarize True sample_order {SockV4 7 100, SockV4 7 130} = Ok (NatSymmetric, ips, range) \<and>
     set ips = {7}"
proof -
  have "finite {SockV4 7 100, SockV4 7 130}" by simp
  from round_report_exact [OF sample_order_ok this, of True] show ?thesis
    by (auto simp: v4_ips_def)
qed

subsection \<open>The whole detection\<close>

text \<open>Every set of public addresses that a round collects is finite.\<close>

lemma test_nat_one_address:
  assumes "test_nat lib os srv h = (Ok A, h')"
  shows "\<exists>m. A \<subseteq> {m}"
proof -
  obtain m c h1 tid where "(case c of
         None \<Rightarrow> (Ok (if is_ipv4 m then {m} else {}), h1)
       | Some changed \<Rightarrow>
           (case call os (ConnectTo (ByAddr changed)) h1 of
              (Ok _, h) \<Rightarrow>
                (case test_nat_once lib os False False (tid + 1) h of
                   (Ok (mapped_addr2, _), h) \<Rightarrow>
                     (Ok (if is_ipv4 mapped_addr2 then insert m (if is_ipv4 m then {m} else {})
                          else if is_ipv4 m then {m} else {}), h)
                 | (_, h) \<Rightarrow> (Ok (if is_ipv4 m then {m} else {}), h))
            | (_, h) \<Rightarrow> (Ok (if is_ipv4 m then {m} else {}), h))) = (Ok A, h')"
    using assms by (auto simp: test_nat_def Let_def outcome_iff)
  then have "A \<subseteq> {m}"
    by (auto split: prod.splits option.splits outcome.splits if_splits)
  then show ?thesis ..
qed

lemma test_servers_finite:
  "finite A \<Longrightarrow> finite (fst (test_servers lib os xs A h))"
proof (induction xs arbitrary: A h)
  case Nil
  then show ?case by simp
next
  case (Cons x xs)
  obtain r h' where t: "test_nat lib os x h = (r, h')" by (cases "test_nat lib os x h")
  show ?case
  proof (cases r)
    case (Ok B)
    then have "finite B"
      using test_nat_one_address [of lib os x h B h'] t finite_subset by auto
    with Ok t Cons show ?thesis by simp
  qed (use t Cons in simp_all)
qed

lemma call_no_panic: "fst (call os c h) \<noteq> Panic"
  by (simp add: call_def split: option.split)

lemma nat0_no_panic:
  assumes "order_ok ord"
  shows "fst (stun_test_nat0 chk pf ord lib os servers iface h) \<noteq> Panic"
proof -
  have bind: "fst (bind_udp pf os a i h) \<noteq> Panic" for a i h
    unfolding bind_udp_def bind_udp_ops_script
    using script_cases [of os "udp_script pf a True i" h] by auto
  have "summarize chk ord A \<noteq> Panic" if "finite A" for A
    using round_report_exact [OF assms that, of chk] by auto
  with bind call_no_panic show ?thesis
    by (simp add: stun_test_nat0_def and_then_Panic_iff Let_def case_prod_beta test_servers_finite)
qed

text \<open>What a round adds to the report: nothing when it failed.\<close>

definition seen_ips :: "nat_report outcome \<Rightarrow> u32 set" where
  "seen_ips r = (case r of Ok (_, ips, _) \<Rightarrow> set ips | _ \<Rightarrow> {})"

definition seen_range :: "nat_report outcome \<Rightarrow> u16" where
  "seen_range r = (case r of Ok (_, _, width) \<Rightarrow> width | _ \<Rightarrow> 0)"

definition seen_symmetric :: "nat_report outcome \<Rightarrow> bool" where
  "seen_symmetric r = (case r of Ok (nt, _, _) \<Rightarrow> nt = NatSymmetric | _ \<Rightarrow> False)"

lemma nat_rounds_step:
  assumes "fst (once h) \<noteq> Panic"
  shows "nat_rounds (Suc n) once nt width ips h =
    nat_rounds n once (if seen_symmetric (fst (once h)) then NatSymmetric else nt)
      (max width (seen_range (fst (once h)))) (ips \<union> seen_ips (fst (once h))) (snd (once h))"
proof -
  obtain r h' where o: "once h = (r, h')" by (cases "once h")
  have m: "(if a < b then b else a) = max a b" for a b :: u16
    by (auto simp: max_def not_less)
  show ?thesis
    using assms o by (cases r) (auto simp: seen_ips_def seen_range_def seen_symmetric_def m word_le_def)
qed

text \<open>
  C31: The detection always ends with a report, whatever the network answers: a round that fails adds
  nothing, so with no answer at all the report is "cone, no address, range 0". Otherwise the NAT is
  symmetric if one of the two rounds said so, the addresses are those of both rounds, each once, and
  the range is the larger of the two.
\<close>

theorem detection_report:
  fixes chk pf lib os servers iface h
  assumes "order_ok ord"
  defines "once \<equiv> stun_test_nat0 chk pf ord lib os servers iface"
  defines "r1 \<equiv> fst (once h)" and "h1 \<equiv> snd (once h)"
  defines "r2 \<equiv> fst (once h1)"
  shows "\<exists>ips h'. stun_test_nat chk pf ord lib os servers iface h =
      (Ok (if seen_symmetric r1 \<or> seen_symmetric r2 then NatSymmetric else NatCone, ips,
           max (seen_range r1) (seen_range r2)), h') \<and>
    set ips = seen_ips r1 \<union> seen_ips r2 \<and> distinct ips"
proof -
  have no: "fst (once h) \<noteq> Panic" for h
    unfolding once_def by (rule nat0_no_panic [OF assms(1)])
  have rounds: "nat_rounds 2 once NatCone 0 {} h =
      (Ok (if seen_symmetric r2 then NatSymmetric else if seen_symmetric r1 then NatSymmetric else NatCone,
           max (max 0 (seen_range r1)) (seen_range r2), {} \<union> seen_ips r1 \<union> seen_ips r2), snd (once h1))"
    by (simp only: numeral_2_eq_2 nat_rounds_step [OF no] nat_rounds.simps r1_def r2_def h1_def)
  have "finite (seen_ips r)" for r
    by (simp add: seen_ips_def split: outcome.split prod.split)
  then have ips: "set (ip_order ord (seen_ips r1 \<union> seen_ips r2)) = seen_ips r1 \<union> seen_ips r2"
    "distinct (ip_order ord (seen_ips r1 \<union> seen_ips r2))"
    using assms(1) by (simp_all add: order_ok_def lists_set_def)
  have m0: "max 0 a = a" for a :: u16
    by (simp add: max_def)
  show ?thesis
    unfolding stun_test_nat_def once_def [symmetric] rounds
    using ips by (auto simp: m0)
qed

theorem detection_report_witness:
  "\<exists>ips h'. stun_test_nat True Linux sample_order (sample_lib []) \<lparr>net_answer = \<lambda>h c. Some (IoError Other []),
       net_recv = \<lambda>h. Inr []\<rparr> [''a''] None [] = (Ok (NatCone, ips, 0), h') \<and> set ips = {}"
proof -
  let ?os = "\<lparr>net_answer = \<lambda>h c. Some (IoError Other []), net_recv = \<lambda>h. Inr []\<rparr>"
  have fails: "\<exists>e. fst (stun_test_nat0 True Linux sample_order (sample_lib []) ?os [''a''] None h) = Err e" for h
    by (simp add: stun_test_nat0_def bind_udp_def bind_udp_ops_def call_def)
  obtain e1 where e1: "fst (stun_test_nat0 True Linux sample_order (sample_lib []) ?os [''a''] None []) = Err e1"
    using fails by blast
  obtain e2 where e2: "fst (stun_test_nat0 True Linux sample_order (sample_lib []) ?os [''a''] None
      (snd (stun_test_nat0 True Linux sample_order (sample_lib []) ?os [''a''] None []))) = Err e2"
    using fails by blast
  show ?thesis
    using detection_report [OF sample_order_ok, of True Linux "sample_lib []" ?os "[''a'']" None "[]"]
    by (simp add: e1 e2 seen_ips_def seen_range_def seen_symmetric_def)
qed

subsection \<open>What one server cannot show\<close>

lemma one_server_round:
  assumes "order_ok ord"
  shows "seen_symmetric (fst (stun_test_nat0 chk pf ord lib os [srv] iface h)) = False \<and>
    seen_range (fst (stun_test_nat0 chk pf ord lib os [srv] iface h)) = 0"
proof -
  have one: "\<exists>m. fst (test_servers lib os [srv] {} h) \<subseteq> {m}" for h
  proof -
    obtain r h' where t: "test_nat lib os srv h = (r, h')" by (cases "test_nat lib os srv h")
    show ?thesis
      using test_nat_one_address [of lib os srv h _ h'] t by (cases r) auto
  qed
  have single: "\<exists>ips. summarize chk ord A = Ok (NatCone, ips, 0)" if "A \<subseteq> {m}" for A m
  proof -
    have "finite A" and card: "\<not> 1 < card A"
      using that finite_subset [OF that] card_mono [of "{m}" A] by auto
    obtain ips w where s: "summarize chk ord A = Ok (NatCone, ips, w)"
      "if v4_ports A = {} then w = 0
       else \<exists>lo \<in> v4_ports A. \<exists>hi \<in> v4_ports A.
              (\<forall>q \<in> v4_ports A. lo \<le> q \<and> q \<le> hi) \<and> unat w = unat hi - unat lo"
      using round_report_exact [OF assms \<open>finite A\<close>, of chk] card by auto
    have "lo = hi" if "lo \<in> v4_ports A" "hi \<in> v4_ports A" for lo hi
      using that \<open>A \<subseteq> {m}\<close> by (auto simp: v4_ports_def)
    with s(2) have "unat w = 0"
      by (metis diff_self_eq_0 unat_0)
    with s(1) show ?thesis by (auto simp: unat_eq_0)
  qed
  obtain r h1 where b: "(and_then (bind_udp pf os (SockV4 0 0) iface h) (\<lambda>_ h.
      and_then (call os (SetNonblocking False) h) (\<lambda>_ h.
        call os (SetReadTimeout 500) h))) = (r, h1)" (is "?b = _") by (cases ?b)
  obtain m where m: "fst (test_servers lib os [srv] {} h1) \<subseteq> {m}" using one by blast
  obtain ips where s: "summarize chk ord (fst (test_servers lib os [srv] {} h1)) = Ok (NatCone, ips, 0)"
    using single [OF m] by blast
  have "stun_test_nat0 chk pf ord lib os [srv] iface h =
      and_then (r, h1) (\<lambda>_ h. (summarize chk ord (fst (test_servers lib os [srv] {} h)),
        snd (test_servers lib os [srv] {} h)))"
    unfolding b [symmetric] stun_test_nat0_def by (simp add: and_then_assoc case_prod_beta Let_def del: test_servers.simps)
  then show ?thesis
    by (cases r) (simp_all add: seen_symmetric_def seen_range_def s del: test_servers.simps)
qed

text \<open>
  C37: With a single server the detection always says cone with port range 0, whatever NAT there is:
  the test of a server sends a second request to the changed address to see whether the mapping
  differs, but then inserts the first address again instead of the second one, so one server can
  never show more than one address.
\<close>

theorem single_server_never_symmetric:
  assumes "order_ok ord"
  shows "\<exists>ips h'. stun_test_nat chk pf ord lib os [srv] iface h = (Ok (NatCone, ips, 0), h')"
  using detection_report [OF assms, of chk pf lib os "[srv]" iface h] one_server_round [OF assms]
  by auto

theorem single_server_never_symmetric_witness:
  "\<exists>ips h'. stun_test_nat True Linux sample_order
      (sample_lib [MappedAddress (StunV4 1 100), ChangedAddress (StunV4 2 200)]) sample_net [''a''] None [] =
    (Ok (NatCone, ips, 0), h')"
  by (rule single_server_never_symmetric [OF sample_order_ok])

subsection \<open>How much is sent\<close>

definition datagrams :: "net_history \<Rightarrow> nat" where
  "datagrams h = length (filter (\<lambda>c. \<exists>b. c = SendBytes b) h)"

lemma datagrams_simps [simp]:
  "datagrams [] = 0" "datagrams (h @ h') = datagrams h + datagrams h'"
  "datagrams [SendBytes buf] = 1" "datagrams [RecvBytes] = 0" "datagrams [ConnectTo t] = 0"
  "datagrams [SetNonblocking b] = 0" "datagrams [SetReadTimeout d] = 0"
  "datagrams (c # c' # h) = datagrams [c] + datagrams (c' # h)"
  by (simp_all add: datagrams_def)

lemma call_history: "snd (call os c h) = h @ [c]"
  by (simp add: call_def split: option.split)

lemma call_cases:
  obtains "call os c h = (Ok (), h @ [c])" | e where "call os c h = (Err e, h @ [c])"
  by (cases "net_answer os h c") (auto simp: call_def)

lemma attempts_datagrams: "datagrams (snd (test_attempts lib os ci cp tid n h)) \<le> datagrams h + n"
proof (induction n arbitrary: h)
  case 0
  then show ?case by simp
next
  case (Suc n)
  let ?b = "sl_build lib tid ci cp"
  show ?case
  proof (cases rule: call_cases [of os "SendBytes ?b" h])
    case 1
    have "datagrams (snd (test_attempts lib os ci cp tid n (h @ [SendBytes ?b] @ [RecvBytes]))) \<le>
        datagrams h + Suc n"
      using Suc.IH [of "h @ [SendBytes ?b] @ [RecvBytes]"] by simp
    with 1 show ?thesis
      by (simp add: Let_def split: sum.split option.split)
  next
    case 2
    then show ?thesis by simp
  qed
qed

lemma once_datagrams: "datagrams (snd (test_nat_once lib os ci cp tid h)) \<le> datagrams h + 2"
  unfolding test_nat_once_def by (rule attempts_datagrams)

lemma test_nat_datagrams: "datagrams (snd (test_nat lib os srv h)) \<le> datagrams h + 4"
proof -
  define h0 where "h0 = h @ [ConnectTo (ByName srv)]"
  define tid :: u128 where "tid = ucast (sl_rng lib h0)"
  have h0: "datagrams h0 = datagrams h" by (simp add: h0_def)
  show ?thesis
  proof (cases rule: call_cases [of os "ConnectTo (ByName srv)" h])
    case 2
    then show ?thesis by (simp add: test_nat_def)
  next
    case 1
    obtain r1 h1 where o1: "test_nat_once lib os True True tid h0 = (r1, h1)"
      by (cases "test_nat_once lib os True True tid h0")
    have d1: "datagrams h1 \<le> datagrams h + 2"
      using once_datagrams [of lib os True True tid h0] by (simp add: o1 h0)
    have second: "datagrams (snd (test_nat_once lib os False False (tid + 1) (h1 @ [ConnectTo t]))) \<le>
        datagrams h + 4" for t
      using once_datagrams [of lib os False False "tid + 1" "h1 @ [ConnectTo t]"] d1 by simp
    show ?thesis
    proof (cases "\<exists>m t. r1 = Ok (m, Some t)")
      case False
      with d1 1 o1 show ?thesis
        by (cases r1) (auto simp: test_nat_def h0_def [symmetric] tid_def [symmetric] Let_def split: option.split)
    next
      case True
      then obtain m t where r1: "r1 = Ok (m, Some t)" by blast
      obtain r2 h2 where o2: "test_nat_once lib os False False (tid + 1) (h1 @ [ConnectTo (ByAddr t)]) = (r2, h2)"
        by (cases "test_nat_once lib os False False (tid + 1) (h1 @ [ConnectTo (ByAddr t)])")
      have d2: "datagrams h2 \<le> datagrams h + 4"
        using second [of "ByAddr t"] by (simp add: o2)
      show ?thesis
        by (cases rule: call_cases [of os "ConnectTo (ByAddr t)" h1]; cases r2)
          (use d1 d2 1 o1 o2 r1 in \<open>auto simp: test_nat_def h0_def [symmetric] tid_def [symmetric] Let_def\<close>)
    qed
  qed
qed

lemma test_servers_datagrams:
  "datagrams (snd (test_servers lib os xs A h)) \<le> datagrams h + 4 * length xs"
proof (induction xs arbitrary: A h)
  case Nil
  then show ?case by simp
next
  case (Cons x xs)
  obtain r h' where t: "test_nat lib os x h = (r, h')" by (cases "test_nat lib os x h")
  have d: "datagrams h' \<le> datagrams h + 4"
    using test_nat_datagrams [of lib os x h] by (simp add: t)
  have rest: "datagrams (snd (test_servers lib os xs B h')) \<le> datagrams h + 4 * length (x # xs)" for B
    using Cons.IH [of B h'] d by simp
  show ?case
    using rest t by (cases r) simp_all
qed

lemma script_datagrams:
  assumes "\<And>c. c \<in> set cs \<Longrightarrow> datagrams [c] = 0"
  shows "datagrams (snd (script os cs h)) = datagrams h"
proof -
  have zero: "datagrams ds = 0" if "set ds \<subseteq> set cs" for ds
    using that
  proof (induction ds)
    case (Cons d ds)
    then have "datagrams ([d] @ ds) = 0"
      using assms by (subst datagrams_simps(2)) simp
    then show ?case by simp
  qed simp
  from script_cases [of os cs h] show ?thesis
  proof
    assume "fst (script os cs h) = Ok () \<and> snd (script os cs h) = h @ cs"
    then show ?thesis using zero [of cs] by simp
  next
    assume "\<exists>ds c es e. cs = ds @ c # es \<and> net_answer os (h @ ds) c = Some e \<and>
        script os cs h = (Err e, h @ ds @ [c])"
    then obtain ds c es e where "cs = ds @ c # es" "script os cs h = (Err e, h @ ds @ [c])" by blast
    then show ?thesis using zero [of "ds @ [c]"] by auto
  qed
qed

lemma bind_datagrams: "datagrams (snd (bind_udp pf os a iface h)) = datagrams h"
  unfolding bind_udp_def bind_udp_ops_script
  by (rule script_datagrams)
    (auto simp: udp_script_def iface_calls_def datagrams_def
      split: if_splits option.splits platform.splits)

lemma and_then_datagrams:
  assumes "datagrams (snd m) \<le> d" and "\<And>x h. datagrams h \<le> d \<Longrightarrow> datagrams (snd (f x h)) \<le> d + e"
  shows "datagrams (snd (and_then m f)) \<le> d + e"
  using assms by (cases "(m, f)" rule: and_then.cases) auto

lemma nat0_datagrams:
  "datagrams (snd (stun_test_nat0 chk pf ord lib os servers iface h)) \<le> datagrams h + 4 * length servers"
  unfolding stun_test_nat0_def
proof (intro and_then_datagrams, goal_cases)
  case 1
  then show ?case by (simp add: bind_datagrams)
next
  case (2 x h)
  then show ?case by (simp add: call_history)
next
  case (3 x h' xa h)
  then show ?case by (simp add: call_history)
next
  case (4 x h' xa h'' xb h)
  then show ?case
    using test_servers_datagrams [of lib os servers "{}" h] by (simp add: case_prod_beta Let_def)
qed

text \<open>
  The detection sends at most eight datagrams for each server, whatever is answered: two rounds,
  in each at most two tests of a server, each with at most two attempts.
\<close>

theorem detection_traffic:
  "datagrams (snd (stun_test_nat chk pf ord lib os servers iface h)) \<le> datagrams h + 8 * length servers"
proof -
  let ?once = "stun_test_nat0 chk pf ord lib os servers iface"
  have rounds: "datagrams (snd (nat_rounds n ?once nt w ips h)) \<le> datagrams h + n * (4 * length servers)"
    for n nt w ips h
  proof (induction n arbitrary: nt w ips h)
    case 0
    then show ?case by simp
  next
    case (Suc n)
    obtain r h1 where o: "?once h = (r, h1)" by (cases "?once h")
    have "datagrams h1 \<le> datagrams h + 4 * length servers"
      using nat0_datagrams [of chk pf ord lib os servers iface h] by (simp add: o)
    then have "datagrams (snd (nat_rounds n ?once nt' w' ips' h1)) \<le> datagrams h + Suc n * (4 * length servers)"
      for nt' w' ips'
      using Suc.IH [of nt' w' ips' h1] by simp
    moreover from \<open>datagrams h1 \<le> _\<close> have "datagrams h1 \<le> datagrams h + Suc n * (4 * length servers)" by simp
    ultimately show ?case
      using o by (cases r) auto
  qed
  have "datagrams (snd (stun_test_nat chk pf ord lib os servers iface h)) \<le>
      (datagrams h + 2 * (4 * length servers)) + 0"
    unfolding stun_test_nat_def
    by (rule and_then_datagrams) (use rounds [of 2] in \<open>auto simp: case_prod_beta\<close>)
  then show ?thesis by simp
qed

end
