(* ===== verification/Peer_Start.thy ===== *)
theory Peer_Start
  imports Boot Stun_Props Peer
begin

section \<open>The programs that detect the NAT: \<^verbatim>\<open>check_nat\<close> and the start of the peer\<close>

text \<open>
  \<^verbatim>\<open>examples/check_nat.rs\<close> and the first part of \<^verbatim>\<open>main\<close> of \<^verbatim>\<open>examples/peer.rs\<close>, up to the clones that
  the threads take over: \<^verbatim>\<open>Boot::new\<close>, the detection of the NAT with a fixed list of servers, and the
  clones of the channel and of the punch object. Every \<^verbatim>\<open>unwrap\<close> is a panic of the model.
\<close>

definition STUN_SERVERS :: "string list" where
  "STUN_SERVERS =
     [''stun.miwifi.com:3478'', ''stun.chat.bilibili.com:3478'', ''stun.hitv.com:3478'',
      ''stun.cdnbye.com:3478'', ''stun.tel.lu:3478'', ''stun.smartvoip.com:3478'']"

definition check_nat ::
    "bool \<Rightarrow> platform \<Rightarrow> hash_order \<Rightarrow> stun_lib \<Rightarrow> net_os \<Rightarrow> net_history \<Rightarrow> nat_report outcome \<times> net_history" where
  "check_nat chk pf ord lib net h = unwrap (stun_test_nat chk pf ord lib net STUN_SERVERS None h)"

text \<open>\<open>os n\<close> answers the system calls of the \<open>n\<close>-th of the calls below.\<close>

record 'q peer_parts =
  pp_nat :: nat_report
  pp_channel :: channel
  pp_clones :: "channel list"
  pp_punch :: "peer_id punch"
  pp_punch2 :: "peer_id punch"
  pp_idle :: idle
  pp_queues :: "'q punch_queues"

definition peer_start ::
    "(nat \<Rightarrow> os_sockets) \<Rightarrow> shuffle \<Rightarrow> (nat \<Rightarrow> 'q) \<Rightarrow> nat_report outcome
     \<Rightarrow> 'q peer_parts outcome \<times> peer_id shared" where
  "peer_start os shuf bounded stun =
     (case boot_new (os 0) shuf bounded 20 9000 0 of
        Ok (channel, punch1, idle, queues, sh) \<Rightarrow>
          and_then (unwrap (set_nat_type_with_stun (os 1) stun sh)) (\<lambda>nat_found sh.
          and_then (unwrap (channel_try_clone (os 2) channel sh)) (\<lambda>channel_route sh.
          and_then (unwrap (punch_try_clone shuf (os_dup (os 3)) punch1, sh)) (\<lambda>punch2 sh.
          and_then (unwrap (channel_try_clone (os 4) channel sh)) (\<lambda>chanel2 sh.
          and_then (unwrap (channel_try_clone (os 5) channel sh)) (\<lambda>chanel3 sh.
            (Ok \<lparr>pp_nat = nat_found, pp_channel = channel, pp_clones = [channel_route, chanel2, chanel3],
                 pp_punch = punch1, pp_punch2 = punch2, pp_idle = idle, pp_queues = queues\<rparr>, sh))))))
      | _ \<Rightarrow> (Panic, shared_new StCone))"

subsection \<open>Lemmas\<close>

lemma detection_ok:
  assumes "order_ok ord"
  shows "\<exists>rep h'. stun_test_nat chk pf ord lib net servers iface h = (Ok rep, h')"
proof -
  have rounds: "\<exists>x h'. nat_rounds n (stun_test_nat0 chk pf ord lib net servers iface) nt w ips h = (Ok x, h')" for n nt w ips h
  proof (induction n arbitrary: nt w ips h)
    case 0
    then show ?case by simp
  next
    case (Suc n)
    obtain r h1 where o: "stun_test_nat0 chk pf ord lib net servers iface h = (r, h1)" by fastforce
    with nat0_no_panic [OF assms, of chk pf lib net servers iface h] have "r \<noteq> Panic" by simp
    with o Suc.IH show ?case by (cases r) (auto split: prod.split)
  qed
  from rounds [of 2 NatCone 0 "{}" h] show ?thesis
    by (auto simp: stun_test_nat_def)
qed

text \<open>What a clone on a reliable system does to the shared state, field by field.\<close>

definition cloned :: "os_sockets \<Rightarrow> channel \<Rightarrow> channel \<Rightarrow> 'id shared \<Rightarrow> 'id shared \<Rightarrow> bool" where
  "cloned os c c' sh sh' \<longleftrightarrow>
     status sh' = status sh \<and> woken sh' = woken sh \<and> channel_flag_gen sh' = channel_flag_gen sh + 1 \<and>
     map fst (change_waker_list sh') = map fst (change_waker_list sh) @ [channel_flag_gen sh] \<and>
     share_info sh' = target_list os (ch_size c) sh \<and> udp_list c' = share_info sh'"

lemma try_clone_ok:
  assumes "os_reliable os" and "status sh \<noteq> StClose"
  shows "\<exists>c' sh'. channel_try_clone os c sh = (Ok c', sh') \<and> cloned os c c' sh sh'"
proof -
  from assms(1) obtain q where os: "\<And>s. os_dup os s = Inr s" "os_poll_new os = Inr q"
    "\<And>p. os_waker_new os p = None" "\<And>p s t. os_register os p s t = None"
    unfolding os_reliable_def by blast
  let ?src = "ch_src_default_udp c"
  let ?sh = "sh\<lparr>channel_flag_gen := channel_flag_gen sh + 1,
      change_waker_list := change_waker_list sh @ [(channel_flag_gen sh, q)]\<rparr>"
  let ?fresh = "\<lparr>ch_flag = channel_flag_gen sh, ch_src_default_udp = ?src, ch_default_udp = ?src,
      udp_list = [], ch_poll = q, poll_reg = [(DEFAULT_TOKEN, ?src)], ch_size = ch_size c\<rparr>"
  have tl: "target_list os n ?sh = target_list os n sh" for n
    by (cases "status sh") (simp_all add: target_list_def)
  have "status ?sh \<noteq> StClose" using assms(2) by simp
  from change_ok [OF assms(1) this, of ?fresh] obtain c0 where
    "change os ?fresh ?sh = (Ok (), (c0, ?sh\<lparr>share_info := target_list os (ch_size c) sh\<rparr>))"
    "udp_list c0 = target_list os (ch_size c) sh" "ch_flag c0 = channel_flag_gen sh"
    unfolding tl by auto
  with os show ?thesis
    by (intro exI [of _ c0] exI [of _ "?sh\<lparr>share_info := target_list os (ch_size c) sh\<rparr>"])
      (simp add: channel_try_clone_def cloned_def Let_def)
qed

lemma target_list_again:
  assumes "share_info sh' = target_list os n sh" and "status sh' = status sh"
    and "status sh = StSymmetric \<longrightarrow> 0 < n"
  shows "target_list os2 n sh' = target_list os n sh"
proof -
  have "bound os 0 n \<noteq> []" if "0 < n"
    using that length_bound [of os 0 n] by (metis length_0_conv less_nat_zero_code)
  with assms show ?thesis by (cases "status sh") (auto simp: target_list_def)
qed

text \<open>The three clones one after the other.\<close>

lemma three_clones:
  assumes "\<And>n. os_reliable (os n)" and "status sh1 \<noteq> StClose" and "0 < ch_size c"
  shows "\<exists>c1 sh2 c2 sh3 c3 sh4. channel_try_clone (os 2) c sh1 = (Ok c1, sh2) \<and>
    channel_try_clone (os 4) c sh2 = (Ok c2, sh3) \<and> channel_try_clone (os 5) c sh3 = (Ok c3, sh4) \<and>
    status sh4 = status sh1 \<and> woken sh4 = woken sh1 \<and>
    share_info sh4 = target_list (os 2) (ch_size c) sh1 \<and>
    udp_list c1 = share_info sh4 \<and> udp_list c2 = share_info sh4 \<and> udp_list c3 = share_info sh4 \<and>
    map fst (change_waker_list sh4) = map fst (change_waker_list sh1) @
      [channel_flag_gen sh1, channel_flag_gen sh1 + 1, channel_flag_gen sh1 + 2] \<and>
    channel_flag_gen sh4 = channel_flag_gen sh1 + 3"
proof -
  obtain c1 sh2 where c1: "channel_try_clone (os 2) c sh1 = (Ok c1, sh2)" "cloned (os 2) c c1 sh1 sh2"
    using try_clone_ok [OF assms(1,2)] by blast
  with assms(2) have "status sh2 \<noteq> StClose" by (simp add: cloned_def)
  then obtain c2 sh3 where c2: "channel_try_clone (os 4) c sh2 = (Ok c2, sh3)" "cloned (os 4) c c2 sh2 sh3"
    using try_clone_ok [OF assms(1)] by blast
  with \<open>status sh2 \<noteq> StClose\<close> have "status sh3 \<noteq> StClose" by (simp add: cloned_def)
  then obtain c3 sh4 where c3: "channel_try_clone (os 5) c sh3 = (Ok c3, sh4)" "cloned (os 5) c c3 sh3 sh4"
    using try_clone_ok [OF assms(1)] by blast
  have "share_info sh3 = share_info sh2" "share_info sh4 = share_info sh2"
    using c1(2) c2(2) c3(2) assms(3) target_list_again [of sh2 "os 2" "ch_size c" sh1 "os 4"]
      target_list_again [of sh3 "os 2" "ch_size c" sh1 "os 5"]
    by (auto simp: cloned_def)
  with c1 c2 c3 show ?thesis
    by (simp add: cloned_def)
qed

subsection \<open>Properties\<close>

text \<open>
  \<^verbatim>\<open>check_nat\<close> always prints a report: whatever the servers and the system answer, the detection gives
  a report and its \<^verbatim>\<open>unwrap\<close> never panics.
\<close>

theorem check_nat_always_reports:
  assumes "order_ok ord"
  shows "\<exists>rep h'. check_nat chk pf ord lib net h = (Ok rep, h')"
  using detection_ok [OF assms, of chk pf lib net STUN_SERVERS None h] by (auto simp: check_nat_def)

theorem check_nat_always_reports_witness:
  "\<exists>rep h'. check_nat True Linux sample_order (sample_lib []) sample_net [] = (Ok rep, h')"
  by (rule check_nat_always_reports) (rule sample_order_ok)

text \<open>
  The start of the peer on a system that answers its calls, with any report of the detection: nothing
  panics; the channel has the NAT type of the report and four wakers with the flags 0 to 3, and the next flag is 4; both punch
  objects satisfy the invariant. The clones have the sockets of that NAT type at once, twenty on a
  symmetric one and none on a cone one, the same for all three; the first channel still has none and
  was woken if it has to follow.
\<close>

theorem peer_start_ready:
  assumes "\<forall>n. os_reliable (os n)" and "permutes shuf"
  shows "\<exists>parts sh. peer_start os shuf bounded (Ok (nt, ips, width)) = (Ok parts, sh) \<and>
    pp_nat parts = (nt, ips, width) \<and> channel_nat_type sh = Ok nt \<and>
    map fst (change_waker_list sh) = [0, 1, 2, 3] \<and> channel_flag_gen sh = 4 \<and>
    punch_reach (pp_punch parts) \<and> punch_reach (pp_punch2 parts) \<and>
    (\<forall>c \<in> set (pp_clones parts). udp_list c = share_info sh) \<and>
    length (share_info sh) = (if nt = NatSymmetric then 20 else 0) \<and>
    udp_list (pp_channel parts) = [] \<and>
    (nt = NatSymmetric \<longleftrightarrow> ch_poll (pp_channel parts) \<in> woken sh)"
proof -
  have rel: "os_reliable (os n)" for n using assms(1) by blast
  obtain s q where os0: "os_bind (os 0) 0 = Inr s" "\<And>s. os_nonblocking (os 0) s = None" "\<And>s. os_dup (os 0) s = Inr s"
    "os_poll_new (os 0) = Inr q" "\<And>p. os_waker_new (os 0) p = None" "\<And>p s t. os_register (os 0) p s t = None"
    using rel [of 0] unfolding os_reliable_def by blast
  let ?ch = "\<lparr>ch_flag = 0, ch_src_default_udp = s, ch_default_udp = s, udp_list = [], ch_poll = q,
      poll_reg = [(DEFAULT_TOKEN, s)], ch_size = 20\<rparr>"
  let ?p = "punch_new shuf \<lparr>sd_default_udp = s\<rparr> :: peer_id punch"
  let ?sh0 = "(shared_new StCone)\<lparr>change_waker_list := [(0, q)]\<rparr> :: peer_id shared"
  let ?qs = "\<lparr>cone_queue = bounded 1, symmetric_queue = bounded 1\<rparr>"
  have boot: "boot_new (os 0) shuf bounded 20 9000 0 = Ok (?ch, ?p, idle_new 9000 0, ?qs, ?sh0)"
    using os0 by (simp add: boot_new_def channel_new_def channel_sender_def Let_def)
  have "\<And>p. os_wake (os 1) p = None" using rel [of 1] unfolding os_reliable_def by blast
  then obtain sh1 where nat: "set_nat_type_with_stun (os 1) (Ok (nt, ips, width)) ?sh0 = (Ok (nt, ips, width), sh1)"
    and sh1: "status sh1 = (if nt = NatSymmetric then StSymmetric else StCone)" "share_info sh1 = []"
      "woken sh1 = (if nt = NatSymmetric then {q} else {})" "channel_flag_gen sh1 = 1" "change_waker_list sh1 = [(0, q)]"
    by (cases nt) (simp_all add: set_nat_type_with_stun_def set_nat_type_def shared_new_def)
  then have "status sh1 \<noteq> StClose" "0 < ch_size ?ch" by simp_all
  from three_clones [of os, OF rel this] obtain c1 sh2 c2 sh3 c3 sh4 where
    clones: "channel_try_clone (os 2) ?ch sh1 = (Ok c1, sh2)" "channel_try_clone (os 4) ?ch sh2 = (Ok c2, sh3)"
      "channel_try_clone (os 5) ?ch sh3 = (Ok c3, sh4)"
    and sh4: "status sh4 = status sh1" "woken sh4 = woken sh1" "share_info sh4 = target_list (os 2) 20 sh1"
      "udp_list c1 = share_info sh4" "udp_list c2 = share_info sh4" "udp_list c3 = share_info sh4"
      "map fst (change_waker_list sh4) = [0, 1, 2, 3]" "channel_flag_gen sh4 = 4"
    using sh1 by auto
  obtain p2 where p2: "punch_try_clone shuf (os_dup (os 3)) ?p = Ok p2"
    using rel [of 3] by (auto simp: punch_try_clone_def sender_try_clone_def os_reliable_def punch_new_def split: sum.split)
  have r1: "punch_reach ?p" by (rule punch_reach.fresh) (rule assms(2))
  then have r2: "punch_reach p2" using assms(2) p2 by (rule punch_reach.clone)
  have run: "peer_start os shuf bounded (Ok (nt, ips, width)) =
      (Ok \<lparr>pp_nat = (nt, ips, width), pp_channel = ?ch, pp_clones = [c1, c2, c3], pp_punch = ?p,
           pp_punch2 = p2, pp_idle = idle_new 9000 0, pp_queues = ?qs\<rparr>, sh4)"
    unfolding peer_start_def boot by (simp add: nat clones p2 del: One_nat_def)
  show ?thesis
    unfolding run using r1 r2 sh1 sh4
    by (cases nt) (auto simp: channel_nat_type_def target_list_def)
qed

theorem peer_start_ready_witness:
  "\<exists>parts sh. peer_start (\<lambda>n. sample_os 5 n) (\<lambda>xs. xs) (\<lambda>_. []) (Ok (NatSymmetric, [7], 3)) = (Ok parts, sh) \<and>
    channel_nat_type sh = Ok NatSymmetric \<and> length (share_info sh) = 20"
proof -
  have "\<forall>n. os_reliable (sample_os 5 n)" by simp
  from peer_start_ready [OF this permutes_id, of "\<lambda>_. []" NatSymmetric "[7]" 3] show ?thesis by auto
qed

end
