(* ===== verification/Peer_Threads.thy ===== *)
theory Peer_Threads
  imports Peer_Props
begin

section \<open>Reporting and heartbeats\<close>

text \<open>
  The report that the peer makes to the server when it starts, and its heartbeat thread.
\<close>

subsection \<open>Heartbeats\<close>

lemma heartbeat_addr_eq: "sock_of_v4 heartbeat_addr = SockV4 2526961419 3000"
proof -
  have "ascii ''150.158.95.11:3000'' = show_addr_v4 (SocketAddrV4 2526961419 3000)"
    by (simp add: ascii_def show_addr_v4_def show_ipv4_def u32_to_be_def show_nat.simps)
  then show ?thesis
    by (simp add: heartbeat_addr_def parse_show_addr_v4 sock_of_v4_def)
qed

lemma send_to_addr_cases:
  obtains "status sh = StClose" and "channel_send_to_addr os ch buf a sh = (Err (IoError Other ''closed''), sh)"
  | r h n where "status sh \<noteq> StClose" and "n \<le> 10"
    and "channel_send_to_addr os ch buf a sh = (r, sh\<lparr>calls := h\<rparr>)" and "r \<noteq> Panic"
    and "sends h = sends (calls sh) @ replicate (Suc n) (ch_src_default_udp ch, buf, a)"
proof (cases "status sh = StClose")
  case True
  then show ?thesis
    by (intro that(1)) (simp_all add: channel_send_to_addr_def channel_is_close_def)
next
  case False
  obtain r h where rh: "send_all_std os (ch_src_default_udp ch) buf a (calls sh) = (r, h)"
    by fastforce
  obtain n where "n \<le> 10" "sends h = sends (calls sh) @ replicate (Suc n) (ch_src_default_udp ch, buf, a)"
    using std_socket.sends_after [of os "ch_src_default_udp ch" buf a "calls sh"] rh by auto
  moreover have "r \<noteq> Panic"
    using std_socket.outcome_cases [of os "ch_src_default_udp ch" buf a "calls sh"] rh by auto
  ultimately show ?thesis
    using False rh by (intro that(2)) (simp_all add: channel_send_to_addr_def channel_is_close_def)
qed

text \<open>
  The heartbeats do not go to the server the peer was started with: whatever that was, in \<open>k\<close> rounds
  the heartbeat thread sends nothing but the byte 255 to 150.158.95.11:3000, one to eleven times each
  round; it ends without sending in the first round after the channel was closed, and never panics.
\<close>

theorem heartbeats_ignore_the_server:
  assumes "heartbeat_loop os ch (replicate k (\<lambda>sh. sh)) sh = (e, sh')"
  shows "e \<noteq> Panicked \<and> (\<exists>m. m \<le> 11 * k \<and> (e = Waiting \<longrightarrow> k \<le> m) \<and>
    (status sh = StClose \<longrightarrow> m = 0 \<and> (0 < k \<longrightarrow> e = Stopped)) \<and>
    sends (calls sh') = sends (calls sh) @
      replicate m (ch_src_default_udp ch, [255], SockV4 2526961419 3000))"
  using assms
proof (induction k arbitrary: sh)
  case 0
  then show ?case by simp
next
  case (Suc k)
  let ?x = "(ch_src_default_udp ch, [255 :: u8], SockV4 2526961419 3000)"
  show ?case
  proof (cases rule: send_to_addr_cases [of sh os ch "[255]" "SockV4 2526961419 3000"])
    case 1
    with Suc.prems show ?thesis by (simp add: heartbeat_addr_eq)
  next
    case (2 r h n)
    show ?thesis
    proof (cases r)
      case (Ok x)
      with 2 Suc.prems have "heartbeat_loop os ch (replicate k (\<lambda>sh. sh)) (sh\<lparr>calls := h\<rparr>) = (e, sh')"
        by (simp add: heartbeat_addr_eq)
      from Suc.IH [OF this] obtain m where m: "e \<noteq> Panicked" "m \<le> 11 * k" "e = Waiting \<longrightarrow> k \<le> m"
        "sends (calls sh') = sends h @ replicate m ?x" by auto
      with 2 have "sends (calls sh') = sends (calls sh) @ replicate (Suc n + m) ?x"
        by (simp add: replicate_add)
      with m 2 show ?thesis
        by (intro conjI exI [of _ "Suc n + m"]) auto
    next
      case (Err er)
      with 2 Suc.prems have "e = Stopped" "sh' = sh\<lparr>calls := h\<rparr>"
        by (simp_all add: heartbeat_addr_eq)
      with 2 show ?thesis
        by (intro conjI exI [of _ "Suc n"]) auto
    next
      case Panic
      with 2 show ?thesis by simp
    qed
  qed
qed

theorem heartbeats_ignore_the_server_witness:
  "\<exists>m. sends (calls (snd (heartbeat_loop (\<lambda>h s b a. Inr 1) (pr_channel sample_peer) (replicate 2 (\<lambda>sh. sh))
      (shared_new StCone)))) = replicate m (5, [255], SockV4 2526961419 3000)"
proof -
  obtain e sh' where "heartbeat_loop (\<lambda>h s b a. Inr 1) (pr_channel sample_peer) (replicate 2 (\<lambda>sh. sh))
      (shared_new StCone) = (e, sh')"
    by fastforce
  from heartbeats_ignore_the_server [OF this] this show ?thesis
    by (auto simp: shared_new_def)
qed

subsection \<open>Reporting\<close>

lemma single_byte: "length d = 1 \<and> d ! 0 = b \<longleftrightarrow> d = [b]"
  by (cases d) auto

text \<open>
  The start of a peer: the report goes to the given server only, and reading it the server finds both
  ids in it. The peer goes on exactly when the sending succeeds and the first datagram it receives
  afterwards, from whoever, is the one byte 252; every other datagram (a coordination message or a
  punch message that comes first, too), a time-out and every error panics.
\<close>

theorem report_accepted_iff:
  assumes "report_to_server os fuel env my peer (Some addr) buf ch sh = Some (r, buf', ch', sh')"
    and "length buf = 1500" and "channel_send_to_addr os ch (report_message my peer) addr sh = (r0, sh0)"
  shows "(r = Ok () \<or> r = Panic) \<and>
    (r = Ok () \<longleftrightarrow> is_ok r0 \<and>
       (\<exists>key t. recv_from fuel env 0 0 ch sh0 = Some (Ok ([252], key), t, ch', sh'))) \<and>
    (\<exists>n. n \<le> 11 \<and> sends (calls sh0) =
       sends (calls sh) @ replicate n (ch_src_default_udp ch, report_message my peer, addr)) \<and>
    request_of (report_message my peer) = Report my peer"
proof -
  have sent: "\<exists>n. n \<le> 11 \<and> sends (calls sh0) =
      sends (calls sh) @ replicate n (ch_src_default_udp ch, report_message my peer, addr)"
  proof (cases rule: send_to_addr_cases [of sh os ch "report_message my peer" addr])
    case 1
    with assms(3) show ?thesis by (intro exI [of _ 0]) simp
  next
    case (2 r h n)
    with assms(3) show ?thesis by (intro exI [of _ "Suc n"]) auto
  qed
  have "(r = Ok () \<or> r = Panic) \<and> (r = Ok () \<longleftrightarrow> is_ok r0 \<and>
      (\<exists>key t. recv_from fuel env 0 0 ch sh0 = Some (Ok ([252], key), t, ch', sh')))"
  proof (cases r0)
    case (Ok x)
    then obtain rs t ch2 sh2 where rf: "recv_from fuel env 0 0 ch sh0 = Some (rs, t, ch2, sh2)"
      using assms(1,3) by (auto simp: report_to_server_def split: option.splits)
    show ?thesis
    proof (cases rs)
      case got: (Ok dk)
      obtain d key where dk: "dk = (d, key)" by (cases dk)
      obtain n b where rb: "receive_into buf d = (n, b)" by fastforce
      then have "n = 1 \<and> b ! 0 = 252 \<longleftrightarrow> d = [252]"
        using assms(2) single_byte [of d 252] by (auto simp: receive_into_def nth_append split: if_splits)
      with assms(1,3) Ok rf got dk rb show ?thesis
        by (auto simp: report_to_server_def split: if_splits)
    qed (use assms(1,3) Ok rf in \<open>auto simp: report_to_server_def\<close>)
  qed (use assms(1,3) in \<open>auto simp: report_to_server_def\<close>)
  with sent request_of_report show ?thesis by blast
qed

theorem report_accepted_iff_witness:
  "\<exists>buf' ch' sh'. report_to_server (\<lambda>h s b a. Inr 1) 1 (sample_env 0 6 [252] []) 1 2 (Some (SockV4 7 3000))
     (replicate 1500 0) (pr_channel sample_peer) (shared_new StCone) = Some (Ok (), buf', ch', sh')"
proof -
  let ?os = "\<lambda>h s b a. Inr 1" and ?ch = "pr_channel sample_peer" and ?sh = "shared_new StCone :: peer_id shared"
  obtain r0 sh0 where s: "channel_send_to_addr ?os ?ch (report_message 1 2) (SockV4 7 3000) ?sh = (r0, sh0)"
    by fastforce
  have ok: "is_ok r0"
    using s by (auto simp: channel_send_to_addr_def channel_is_close_def shared_new_def send_all_std_def
        send_all_std_loop.simps Let_def)
  have rf: "\<exists>key t sh'. recv_from 1 (sample_env 0 6 [252] []) 0 0 ?ch sh0 = Some (Ok ([252], key), t, ?ch, sh')"
    by (simp add: recv_round_def udp_recv_def sample_env_def sample_peer_def)
  then obtain key t sh' where rf: "recv_from 1 (sample_env 0 6 [252] []) 0 0 ?ch sh0 = Some (Ok ([252], key), t, ?ch, sh')"
    by blast
  obtain n b where "receive_into (replicate 1500 0) [252] = (n, b)" by fastforce
  then obtain r buf' ch' sh2 where run: "report_to_server ?os 1 (sample_env 0 6 [252] []) 1 2 (Some (SockV4 7 3000))
      (replicate 1500 0) ?ch ?sh = Some (r, buf', ch', sh2)"
    using s ok rf by (cases r0) (simp_all add: report_to_server_def del: recv_from.simps)
  moreover from run s ok rf have "ch' = ?ch" "sh2 = sh'"
    by (cases r0; auto simp: report_to_server_def simp del: recv_from.simps split: prod.splits)+
  ultimately show ?thesis
    using report_accepted_iff [OF run _ s] ok rf by auto
qed

end
