(* ===== verification/Peer_Main.thy ===== *)
theory Peer_Main
  imports Peer_Start Peer_Threads
begin

section \<open>The peer program as a whole\<close>

text \<open>
  \<^verbatim>\<open>main\<close> of \<^verbatim>\<open>examples/peer.rs\<close> up to the point where all threads run: the start, the report to the server,
  the clone for the heartbeats, and the state the receive thread begins with.
\<close>

subsection \<open>Model\<close>

text \<open>The arguments of the command line, as \<^verbatim>\<open>clap\<close> has parsed them.\<close>

record args =
  ar_server :: string
  ar_id :: u32
  ar_peer_id :: u32

record 'q running =
  pm_parts :: "'q peer_parts"
  pm_heart :: channel
  pm_receive :: peer_state

text \<open>
  \<open>stun\<close> is the result of the detection, \<open>parse\<close> is \<^verbatim>\<open>SocketAddr::from_str\<close>, \<open>others\<close> what the threads started
  before the report do to the shared state. \<open>None\<close>: the report is still waiting for its confirmation.
\<close>

definition peer_main ::
    "(nat \<Rightarrow> os_sockets) \<Rightarrow> shuffle \<Rightarrow> (nat \<Rightarrow> 'q) \<Rightarrow> nat_report outcome \<Rightarrow> (string \<Rightarrow> socket_addr option)
     \<Rightarrow> (peer_id shared \<Rightarrow> peer_id shared) \<Rightarrow> os_send \<Rightarrow> nat \<Rightarrow> peer_id recv_env \<Rightarrow> args
     \<Rightarrow> ('q running outcome \<times> peer_id shared) option" where
  "peer_main os shuf bounded stun parse others send fuel env args =
     (case peer_start os shuf bounded stun of
        (Ok parts, sh) \<Rightarrow>
          (case report_to_server send fuel env (ar_id args) (ar_peer_id args) (parse (ar_server args))
                  (replicate 1500 0) (pp_channel parts) (others sh) of
             None \<Rightarrow> None
           | Some (Ok _, buf, channel, sh) \<Rightarrow>
               Some (and_then (unwrap (channel_try_clone (os 6) channel sh)) (\<lambda>chanel1 sh.
                 (Ok \<lparr>pm_parts = parts, pm_heart = chanel1,
                      pm_receive = \<lparr>pr_channel = channel, pr_shared = sh, pr_buf = buf, pr_greeted = False,
                        pr_requests = [], pr_texts = []\<rparr>\<rparr>, sh)))
           | Some (_, _, _, sh) \<Rightarrow> Some (Panic, sh))
      | (_, sh) \<Rightarrow> Some (Panic, sh))"

subsection \<open>What the start leaves alone\<close>

text \<open>\<open>quiet\<close>: the tables and what was sent are as before.\<close>

definition quiet :: "'id shared \<Rightarrow> 'id shared \<Rightarrow> bool" where
  "quiet sh sh' \<longleftrightarrow> tables sh' = tables sh \<and> calls sh' = calls sh"

named_theorems quiet_intros \<comment> \<open>operations on channels that are \<open>quiet\<close>\<close>

lemma quiet_fields [simp]:
  "quiet sh sh" "quiet s0 (sh\<lparr>status := st\<rparr>) = quiet s0 sh" "quiet s0 (sh\<lparr>woken := w\<rparr>) = quiet s0 sh"
  "quiet s0 (sh\<lparr>share_info := xs\<rparr>) = quiet s0 sh" "quiet s0 (sh\<lparr>change_waker_list := ws\<rparr>) = quiet s0 sh"
  "quiet s0 (sh\<lparr>channel_flag_gen := g\<rparr>) = quiet s0 sh"
  by (simp_all add: quiet_def)

lemma quiet_and_then [quiet_intros]:
  assumes "quiet s0 (snd p)" and "\<And>x sh. quiet s0 sh \<Longrightarrow> quiet s0 (snd (f x sh))"
  shows "quiet s0 (snd (and_then p f))"
  using assms by (cases p; cases "fst p") auto

lemma snd_unwrap [simp]: "snd (unwrap p) = snd p"
  by (cases p rule: unwrap.cases) simp_all

lemma quiet_wake_all [quiet_intros]: "quiet s0 sh \<Longrightarrow> quiet s0 (snd (wake_all os ws sh))"
  by (induction os ws sh rule: wake_all.induct) (auto split: option.split)

lemma quiet_set_nat_type [quiet_intros]: "quiet s0 sh \<Longrightarrow> quiet s0 (snd (set_nat_type os nt sh))"
  by (auto simp: set_nat_type_def split: status.split intro: quiet_intros)

lemma quiet_with_stun [quiet_intros]: "quiet s0 sh \<Longrightarrow> quiet s0 (snd (set_nat_type_with_stun os stun sh))"
  unfolding set_nat_type_with_stun_def by (auto split: prod.split intro!: quiet_intros)

lemma quiet_change: "quiet s0 sh \<Longrightarrow> quiet s0 (snd (snd (change os ch sh)))"
  by (auto simp: change_def change_loaded_def Let_def split: status.split prod.split outcome.split)

lemma quiet_try_clone [quiet_intros]: "quiet s0 sh \<Longrightarrow> quiet s0 (snd (channel_try_clone os ch sh))"
  unfolding channel_try_clone_def Let_def
  by (auto intro!: quiet_intros split: prod.split outcome.split) (metis quiet_change quiet_fields(5) snd_conv)+

lemma boot_quiet:
  "boot_new os shuf bounded n r w = Ok (ch, p, idl, qs, sh) \<Longrightarrow> quiet (shared_new StCone) sh"
  by (auto simp: boot_new_def channel_new_def Let_def outcome_iff)

lemma peer_start_quiet: "quiet (shared_new StCone) (snd (peer_start os shuf bounded stun))"
  unfolding peer_start_def
  by (auto split: outcome.split prod.split intro!: quiet_intros dest: boot_quiet)

text \<open>What \<^verbatim>\<open>main\<close> has done when all threads run.\<close>

lemma peer_main_OkE:
  assumes "peer_main os shuf bounded stun parse others send fuel env args = Some (Ok m, sh)"
  obtains sh0 buf channel sh1 where "peer_start os shuf bounded stun = (Ok (pm_parts m), sh0)"
    and "report_to_server send fuel env (ar_id args) (ar_peer_id args) (parse (ar_server args))
      (replicate 1500 0) (pp_channel (pm_parts m)) (others sh0) = Some (Ok (), buf, channel, sh1)"
    and "channel_try_clone (os 6) channel sh1 = (Ok (pm_heart m), sh)"
    and "pm_receive m = \<lparr>pr_channel = channel, pr_shared = sh, pr_buf = buf, pr_greeted = False,
      pr_requests = [], pr_texts = []\<rparr>"
  using assms
  by (auto simp: peer_main_def outcome_iff split: prod.splits outcome.splits option.splits)

subsection \<open>The start succeeds\<close>

text \<open>The first datagram is the confirmation of the server, on any socket; and every datagram goes out.\<close>

definition confirms :: "peer_id recv_env \<Rightarrow> bool" where
  "confirms env \<longleftrightarrow> (\<forall>s. \<exists>a. os_recv env 0 s = Inr ([252], a))"

definition sends_all :: "os_send \<Rightarrow> bool" where
  "sends_all send \<longleftrightarrow> (\<forall>h s b a. \<exists>n. send h s b a = Inr n)"

lemma recv_confirmed:
  assumes "confirms env"
  shows "\<exists>key sh'. recv_from (Suc fuel) env 0 0 ch sh = Some (Ok ([252], key), 1, ch, sh') \<and>
    status sh' = status sh \<and> calls sh' = calls sh \<and> change_waker_list sh' = change_waker_list sh \<and>
    channel_flag_gen sh' = channel_flag_gen sh"
proof -
  obtain a where "os_recv env 0 (ch_default_udp ch) = Inr ([252], a)"
    using assms by (auto simp: confirms_def)
  then show ?thesis by (simp add: recv_round_def udp_recv_def)
qed

lemma send_to_addr_accepted:
  assumes "sends_all send" and "status sh \<noteq> StClose"
  shows "\<exists>n. channel_send_to_addr send ch buf a sh =
    (Ok n, sh\<lparr>calls := calls sh @ [SendTo (ch_src_default_udp ch) buf a]\<rparr>)"
proof -
  obtain n where "send (calls sh) (ch_src_default_udp ch) buf a = Inr n"
    using assms(1) unfolding sends_all_def by blast
  with assms(2) show ?thesis
    by (simp add: channel_send_to_addr_def channel_is_close_def std_socket.accepted)
qed

lemma report_confirmed:
  assumes "confirms env" and "sends_all send" and "status sh \<noteq> StClose"
  shows "\<exists>buf' sh'. report_to_server send (Suc fuel) env my peer (Some addr) (replicate 1500 0) ch sh =
      Some (Ok (), buf', ch, sh') \<and> status sh' = status sh \<and>
    calls sh' = calls sh @ [SendTo (ch_src_default_udp ch) (report_message my peer) addr] \<and>
    change_waker_list sh' = change_waker_list sh \<and> channel_flag_gen sh' = channel_flag_gen sh"
proof -
  obtain n where sent: "channel_send_to_addr send ch (report_message my peer) addr sh =
      (Ok n, sh\<lparr>calls := calls sh @ [SendTo (ch_src_default_udp ch) (report_message my peer) addr]\<rparr>)"
    using send_to_addr_accepted [OF assms(2,3)] by blast
  let ?sh = "sh\<lparr>calls := calls sh @ [SendTo (ch_src_default_udp ch) (report_message my peer) addr]\<rparr>"
  obtain key sh' where "recv_from (Suc fuel) env 0 0 ch ?sh = Some (Ok ([252], key), 1, ch, sh')"
    "status sh' = status ?sh" "calls sh' = calls ?sh" "change_waker_list sh' = change_waker_list ?sh"
    "channel_flag_gen sh' = channel_flag_gen ?sh"
    using recv_confirmed [OF assms(1)] by blast
  with sent show ?thesis
    by (simp add: report_to_server_def receive_into_def del: recv_from.simps)
qed

lemma peer_main_runs:
  assumes "\<forall>n. os_reliable (os n)" and "permutes shuf" and "order_ok ord"
    and "parse (ar_server args) = Some addr" and "confirms env" and "sends_all send"
  shows "\<exists>m sh. peer_main os shuf bounded (fst (stun_test_nat chk pf ord lib net STUN_SERVERS None h)) parse (\<lambda>sh. sh)
      send (Suc fuel) env args = Some (Ok m, sh) \<and>
    Ok (pp_nat (pm_parts m)) = fst (stun_test_nat chk pf ord lib net STUN_SERVERS None h) \<and>
    channel_nat_type sh = Ok (fst (pp_nat (pm_parts m))) \<and>
    map fst (change_waker_list sh) = [0, 1, 2, 3, 4] \<and>
    calls sh = [SendTo (ch_src_default_udp (pp_channel (pm_parts m))) (report_message (ar_id args) (ar_peer_id args)) addr]"
proof -
  obtain nt ips width h' where det: "stun_test_nat chk pf ord lib net STUN_SERVERS None h = (Ok (nt, ips, width), h')"
    using detection_ok [OF assms(3)] by (metis prod_cases3)
  obtain parts sh0 where start: "peer_start os shuf bounded (Ok (nt, ips, width)) = (Ok parts, sh0)"
    and parts: "pp_nat parts = (nt, ips, width)" "channel_nat_type sh0 = Ok nt"
      "map fst (change_waker_list sh0) = [0, 1, 2, 3]" "channel_flag_gen sh0 = 4"
    using peer_start_ready [OF assms(1,2), of bounded nt ips width] by auto
  have "quiet (shared_new StCone) sh0"
    using peer_start_quiet [of os shuf bounded "Ok (nt, ips, width)"] start by simp
  then have calls: "calls sh0 = []" by (simp add: quiet_def shared_new_def)
  have open_status: "status sh0 \<noteq> StClose" using parts(2) by (auto simp: channel_nat_type_def)
  obtain buf sh1 where report: "report_to_server send (Suc fuel) env (ar_id args) (ar_peer_id args) (Some addr)
      (replicate 1500 0) (pp_channel parts) sh0 = Some (Ok (), buf, pp_channel parts, sh1)"
    and sh1: "status sh1 = status sh0" "change_waker_list sh1 = change_waker_list sh0" "channel_flag_gen sh1 = 4"
      "calls sh1 = [SendTo (ch_src_default_udp (pp_channel parts)) (report_message (ar_id args) (ar_peer_id args)) addr]"
    using report_confirmed [OF assms(5,6) open_status, of fuel "ar_id args" "ar_peer_id args" addr "pp_channel parts"]
      calls parts(4) by auto
  have "os_reliable (os 6)" "status sh1 \<noteq> StClose" using assms(1) open_status sh1(1) by simp_all
  then obtain c sh2 where clone: "channel_try_clone (os 6) (pp_channel parts) sh1 = (Ok c, sh2)"
    and cloned: "cloned (os 6) (pp_channel parts) c sh1 sh2"
    using try_clone_ok by blast
  have "quiet sh1 sh2" using quiet_try_clone [of sh1 sh1 "os 6" "pp_channel parts"] clone by simp
  then have "calls sh2 = calls sh1" by (simp add: quiet_def)
  moreover have "channel_nat_type sh2 = Ok nt"
    using parts(2) cloned sh1(1) by (simp add: cloned_def channel_nat_type_def)
  moreover have "map fst (change_waker_list sh2) = [0, 1, 2, 3, 4]"
    using cloned sh1(2,3) parts(3) by (simp add: cloned_def)
  ultimately show ?thesis
    using det start report clone parts(1) sh1(4) assms(4) by (simp add: peer_main_def)
qed

text \<open>
  C20: The peer gets going: on a system that answers its socket calls, with a server that confirms the report, the
  start never panics, whatever the STUN servers answered. Then the channel has the NAT type the detection found,
  the five wakers have the flags 0 to 4, and exactly one datagram has been sent: the report, from the default
  socket, to the address the argument names.
\<close>

theorem peer_main_starts:
  assumes "\<forall>n. os_reliable (os n)" and "permutes shuf" and "order_ok ord"
    and "parse (ar_server args) = Some addr" and "confirms env" and "sends_all send"
  shows "\<exists>m sh. peer_main os shuf bounded (fst (stun_test_nat chk pf ord lib net STUN_SERVERS None h)) parse (\<lambda>sh. sh)
      send (Suc fuel) env args = Some (Ok m, sh) \<and>
    Ok (pp_nat (pm_parts m)) = fst (stun_test_nat chk pf ord lib net STUN_SERVERS None h) \<and>
    channel_nat_type sh = Ok (fst (pp_nat (pm_parts m))) \<and>
    map fst (change_waker_list sh) = [0, 1, 2, 3, 4] \<and>
    calls sh = [SendTo (ch_src_default_udp (pp_channel (pm_parts m))) (report_message (ar_id args) (ar_peer_id args)) addr]"
  using assms by (rule peer_main_runs)

subsection \<open>Witnesses\<close>

definition sample_args :: args where
  "sample_args = \<lparr>ar_server = ''server'', ar_id = 1, ar_peer_id = 2\<rparr>"

definition always_receives :: "bytes \<Rightarrow> peer_id recv_env" where
  "always_receives d = (sample_env 0 0 [] [])\<lparr>os_recv := \<lambda>_ _. Inr (d, SockV4 7 8)\<rparr>"

abbreviation sample_main :: "(peer_id \<times> nat_info) list running outcome \<times> peer_id shared" where
  "sample_main \<equiv> the (peer_main (\<lambda>n. sample_os 5 n) (\<lambda>xs. xs) (\<lambda>_. [])
     (fst (stun_test_nat True Linux sample_order (sample_lib []) sample_net STUN_SERVERS None []))
     (\<lambda>_. Some (SockV4 7 3000)) (\<lambda>sh. sh) (\<lambda>h s b a. Inr 1) 1 (always_receives [252]) sample_args)"

lemma sample_main_conditions:
  "\<forall>n. os_reliable (sample_os 5 n)" "confirms (always_receives [252])" "sends_all (\<lambda>h s b a. Inr 1)"
  by (simp_all add: confirms_def always_receives_def sends_all_def)

theorem peer_main_starts_witness:
  "\<exists>m. fst sample_main = Ok m \<and> map fst (change_waker_list (snd sample_main)) = [0, 1, 2, 3, 4]"
  using peer_main_starts [OF sample_main_conditions(1) permutes_id sample_order_ok _ sample_main_conditions(2,3),
      where parse = "\<lambda>_. Some (SockV4 7 3000)" and addr = "SockV4 7 3000" and bounded = "\<lambda>_. [] :: (peer_id \<times> nat_info) list" and chk = True and
        pf = Linux and lib = "sample_lib []" and net = sample_net and h = "[]" and fuel = 0 and args = sample_args] by (auto simp: map_eq_conv simp del: map_eq_Cons_conv)

end
