(* ===== verification/Peer_Routes.thy ===== *)
theory Peer_Routes
  imports Peer_Main
begin

section \<open>Where the routes of a peer come from\<close>

text \<open>
  From the first instruction of \<^verbatim>\<open>main\<close> on, the receive thread is the only one that adds routes, and it adds one only for
  a hello or data message, under the key that \<^verbatim>\<open>recv_from\<close> returned it with, and only when no id is behind that key yet.
  So every route of a peer was claimed by a datagram, and no two ids share a key, which is what lets the idle thread
  take out \<^verbatim>\<open>id[0]\<close> only.
\<close>

subsection \<open>What the other threads do\<close>

text \<open>
  One step of another thread on the shared state, with any arguments and any answers of the system: the idle thread
  takes out a route and uses up its token, the heartbeat thread sends, the punch threads punch, the thread of the requests
  clones its channel, \<^verbatim>\<open>main\<close> closes, a thread that ends drops its channel, and the system hands out a wake-up. (The
  trigger threads only fill the punch queues.)
\<close>

inductive other_step :: "'id shared \<Rightarrow> 'id shared \<Rightarrow> bool" where
  evicts: "other_step sh (channel_remove_route i sh)"
| beats: "other_step sh (snd (channel_send_to_addr os ch buf a sh))"
| punches: "other_step sh (snd (snd (punch chk os shuf buf i info p sh)))"
| clones: "other_step sh (snd (channel_try_clone os ch sh))"
| closes: "other_step sh (snd (channel_close os sh))"
| drops: "other_step sh (channel_drop ch sh)"
| parks: "other_step sh (sh\<lparr>parked_token := b\<rparr>)"
| wakes: "other_step sh (sh\<lparr>woken := w\<rparr>)"

abbreviation others_do :: "'id shared \<Rightarrow> 'id shared \<Rightarrow> bool" where
  "others_do \<equiv> other_step\<^sup>*\<^sup>*"

text \<open>That this is all they do, by their loops.\<close>

lemma heartbeats_do:
  "\<forall>f \<in> set es. \<forall>s. others_do s (f s) \<Longrightarrow> others_do sh (snd (heartbeat_loop os ch es sh))"
proof (induction os ch es sh rule: heartbeat_loop.induct)
  case (2 os ch others es sh)
  obtain r sh1 where sent: "channel_send_to_addr os ch [255] (sock_of_v4 heartbeat_addr) sh = (r, sh1)" by fastforce
  have step: "others_do sh sh1" using beats [of sh os ch "[255]" "sock_of_v4 heartbeat_addr"] by (simp add: sent)
  show ?case
  proof (cases r)
    case (Ok n)
    have "others_do sh1 (others sh1)" using 2(2) by simp
    moreover have "others_do (others sh1) (snd (heartbeat_loop os ch es (others sh1)))"
      using 2 sent Ok by auto
    ultimately show ?thesis using step sent Ok by simp
  qed (use sent step in simp_all)
qed simp

lemma triggers_do: "others_do sh (snd (snd (spawn_triggers oss ch reqs sh)))"
proof (induction oss ch reqs sh rule: spawn_triggers.induct)
  case (1 os oss ch req reqs sh)
  obtain r sh1 where cl: "channel_try_clone os ch sh = (r, sh1)" by fastforce
  have "others_do sh sh1" using clones [of sh os ch] by (simp add: cl)
  then show ?case
    using 1 cl by (cases r) (auto split: prod.split)
qed simp_all

lemma punches_do:
  "\<forall>f \<in> set es. \<forall>w. others_do (snd w) (snd (f w)) \<Longrightarrow>
   others_do (snd w) (snd (snd (snd (punch_loop next_req chk os shuf my es p w))))"
proof (induction next_req chk os shuf my es p w rule: punch_loop.induct)
  case (2 next_req chk os shuf my others es p qs sh)
  obtain r qs' where nx: "next_req qs = (r, qs')" by fastforce
  show ?case
  proof (cases r)
    case (Ok req)
    obtain i info where req: "req = (i, info)" by (cases req)
    obtain r1 p1 sh1 where pu: "punch chk os shuf (punch_message my) i info p sh = (r1, (p1, sh1))"
      by (cases "punch chk os shuf (punch_message my) i info p sh") auto
    have step: "others_do sh sh1" using punches [of sh chk os shuf "punch_message my" i info p] by (simp add: pu)
    show ?thesis
    proof (cases r1)
      case r1: (Ok u)
      have "others_do sh1 (snd (others (qs', sh1)))" using 2(2) by (metis list.set_intros(1) snd_conv)
      moreover have "others_do (snd (others (qs', sh1)))
          (snd (snd (snd (punch_loop next_req chk os shuf my es p1 (others (qs', sh1))))))"
        using 2 nx Ok req pu r1 by auto
      ultimately show ?thesis using nx Ok req pu r1 step by simp
    qed (use nx Ok req pu step in simp_all)
  qed (use nx in simp_all)
qed simp

definition idle_rely :: "'id idle_env \<Rightarrow> bool" where
  "idle_rely env \<longleftrightarrow> (\<forall>k s. others_do s (ie_between env k s)) \<and> (\<forall>k c s. others_do s (ie_park env k c s))"

lemma next_idle_does:
  "idle_rely env \<Longrightarrow> next_idle fuel chk env idl k sh = Some (r, sh') \<Longrightarrow> others_do sh sh'"
proof (induction fuel arbitrary: k sh)
  case (Suc fuel)
  obtain q c sh1 where round: "idle_round chk env idl k sh = (q, c, sh1)" by (cases "idle_round chk env idl k sh")
  have wait: "others_do sh (snd (snd (idle_wait chk env k m sh)))" for m
    using Suc.prems(1) rtranclp_trans [of other_step sh "ie_between env k sh"]
    by (auto simp: idle_rely_def idle_wait_def Let_def split: outcome.split option.split)
  have "others_do sh sh1"
    using round wait by (auto simp: idle_round_def split: outcome.splits sum.splits) (metis snd_conv)+
  then show ?case
    using Suc round by (cases q) (auto intro: rtranclp_trans)
qed simp

lemma idle_thread_does:
  "\<forall>(env, f) \<in> set es. idle_rely env \<and> (\<forall>s. others_do s (f s)) \<Longrightarrow>
   idle_loop fuel chk idl es sh = Some (e, sh') \<Longrightarrow> others_do sh sh'"
proof (induction es arbitrary: sh)
  case (Cons x es)
  obtain env f where x: "x = (env, f)" by (cases x)
  obtain r sh1 where nx: "next_idle fuel chk env idl 0 sh = Some (r, sh1)"
    using Cons.prems(2) x by (auto split: option.splits)
  then have step: "others_do sh sh1" using next_idle_does Cons.prems(1) x by fastforce
  show ?case
  proof (cases r)
    case (Ok rep)
    obtain st ids key where rep: "rep = (st, ids, key)" by (cases rep)
    show ?thesis
    proof (cases "vec_get ids 0")
      case (Some i)
      let ?s = "f (channel_remove_route i sh1)"
      have "others_do (channel_remove_route i sh1) ?s" using Cons.prems(1) x by auto
      then have "others_do sh ?s" using step evicts [of sh1 i] by (meson converse_rtranclp_into_rtranclp rtranclp_trans)
      moreover have "others_do ?s sh'" using Cons x nx Ok rep Some by auto
      ultimately show ?thesis by simp
    qed (use Cons.prems x nx Ok rep step in auto)
  qed (use Cons.prems x nx step in auto)
qed simp

subsection \<open>They add no routes\<close>

text \<open>\<open>fewer\<close>: consistent tables stay consistent, and every route was there before.\<close>

definition fewer :: "'id shared \<Rightarrow> 'id shared \<Rightarrow> bool" where
  "fewer sh sh' \<longleftrightarrow> (tables_ok (tables sh) \<longrightarrow> tables_ok (tables sh') \<and>
     (\<forall>i r. route_of i (tables sh') = Some r \<longrightarrow> route_of i (tables sh) = Some r))"

lemma fewer_same: "tables sh' = tables sh \<Longrightarrow> fewer sh sh'"
  by (simp add: fewer_def)

lemma route_of_touch [simp]:
  "route_of i (touch_read k now t) = route_of i t" "route_of i (touch_write k now t) = route_of i t"
  by (simp_all add: route_of_def touch_read_def touch_write_def split: option.split)

lemma tables_ok_touch:
  "tables_ok t \<Longrightarrow> tables_ok (touch_read k now t)" "tables_ok t \<Longrightarrow> tables_ok (touch_write k now t)"
  using store_rel_touch unfolding tables_ok_def by blast+

lemma other_step_fewer: "other_step sh sh' \<Longrightarrow> fewer sh sh'"
proof (induction rule: other_step.induct)
  case (evicts sh i)
  show ?case
    by (auto simp: fewer_def channel_remove_route_def rs.inv_remove rs.lookup_remove split: if_splits)
next
  case (beats sh os ch buf a)
  show ?case by (rule fewer_same) (simp add: channel_send_to_addr_def split: prod.split)
next
  case (punches sh chk os shuf buf i info p)
  show ?case by (rule fewer_same) (auto simp: punch_def Let_def split: nat_type.split prod.split)
next
  case (clones sh os ch)
  from quiet_try_clone [of sh sh os ch] show ?case by (intro fewer_same) (simp add: quiet_def)
next
  case (closes sh os)
  have "quiet sh (unpark (sh\<lparr>status := StClose\<rparr>))" by (simp add: quiet_def)
  from quiet_wake_all [OF this] show ?case by (intro fewer_same) (simp add: channel_close_def quiet_def)
qed (simp_all add: fewer_same channel_drop_def)

lemma others_fewer: "others_do sh sh' \<Longrightarrow> fewer sh sh'"
proof (induction rule: rtranclp_induct)
  case base
  show ?case by (simp add: fewer_same)
next
  case (step s s')
  from step.IH other_step_fewer [OF step.hyps(2)] show ?case unfolding fewer_def by blast
qed

subsection \<open>The receive thread\<close>

text \<open>Every route was claimed, and two ids never share a key.\<close>

definition routes_in :: "('id \<Rightarrow> route \<Rightarrow> bool) \<Rightarrow> 'id shared \<Rightarrow> bool" where
  "routes_in C sh \<longleftrightarrow> tables_ok (tables sh) \<and>
     (\<forall>i r. route_of i (tables sh) = Some r \<longrightarrow> C i r \<and>
        (\<forall>j s. route_of j (tables sh) = Some s \<and> route_key s = route_key r \<longrightarrow> j = i))"

lemma routes_in_fewer: "fewer sh sh' \<Longrightarrow> routes_in C sh \<Longrightarrow> routes_in C sh'"
  unfolding fewer_def routes_in_def by blast

definition others_only :: "peer_env \<Rightarrow> bool" where
  "others_only env \<longleftrightarrow> (\<forall>n sh. others_do sh (pe_other env n sh)) \<and>
     (\<forall>k sh. others_do sh (snd (os_poll (pe_recv env) k sh)))"

lemma routes_in_other: "others_only env \<Longrightarrow> routes_in C sh \<Longrightarrow> routes_in C (pe_other env n sh)"
  unfolding others_only_def using others_fewer routes_in_fewer by blast

lemma recv_keeps_routes:
  assumes "\<And>k s. others_do s (snd (os_poll env k s))"
  shows "recv_keeps (routes_in C) env"
  unfolding recv_keeps_def
proof (intro conjI allI impI)
  fix sh k
  assume sh: "routes_in C sh"
  with routes_in_fewer [OF others_fewer [OF assms]] show "routes_in C (snd (os_poll env k sh))" by blast
qed (simp_all add: routes_in_def tables_ok_touch)

lemma learn_route_keeps:
  assumes "others_only env" and "routes_in C sh" and "C i (route_from key 10 64)"
  shows "routes_in C (learn_route env key i sh)"
proof -
  let ?sh1 = "pe_other env 0 sh" and ?sh2 = "pe_other env 1 (pe_other env 0 sh)"
  have sh1: "routes_in C ?sh1" using assms(1,2) by (rule routes_in_other)
  have sh2: "routes_in C ?sh2" using assms(1) sh1 by (rule routes_in_other)
  have "routes_in C (channel_add_route i (route_from key 10 64) (pe_clock env) ?sh2)"
    if "channel_route_to_id key ?sh1 = None"
  proof -
    have "\<forall>j r. route_of j (tables ?sh1) = Some r \<longrightarrow> route_key r \<noteq> key"
      using that sh1 by (simp add: channel_route_to_id_def routes_in_def rs.first_None_iff)
    moreover have "fewer ?sh1 ?sh2" using assms(1) by (simp add: others_only_def others_fewer)
    ultimately have free: "\<forall>j r. route_of j (tables ?sh2) = Some r \<longrightarrow> route_key r \<noteq> key"
      using sh1 by (auto simp: fewer_def routes_in_def)
    with sh2 assms(3) show ?thesis
      by (auto simp: routes_in_def channel_add_route_def rs.inv_add rs.lookup_add)
  qed
  with sh1 show ?thesis by (simp add: learn_route_def Let_def)
qed

lemma send_to_id_keeps:
  assumes "routes_in C sh"
  shows "routes_in C (snd (channel_send_to_id os now ch buf i sh))"
proof -
  let ?sh = "snd (channel_send_to_id os now ch buf i sh)"
  have "tables ?sh = tables sh \<or> (\<exists>k. tables ?sh = touch_write k now (tables sh))"
    by (auto simp: channel_send_to_id_def channel_send_to_route_def Let_def split: option.split prod.split)
  with assms show ?thesis by (auto simp: routes_in_def tables_ok_touch)
qed

lemma greet_keeps:
  assumes "others_only env" and "routes_in C (pr_shared st)" and "greet env my i st = (r, st')"
  shows "routes_in C (pr_shared st')" and "pr_buf st' = pr_buf st"
  using assms send_to_id_keeps [OF routes_in_other [OF assms(1,2), of 2], of "pe_send env" "pe_clock env" "pr_channel st"
      "greeting my" i]
  by (auto simp: greet_eq split: if_splits prod.splits outcome.splits)

lemma peer_datagram_keeps_routes:
  assumes "others_only env" and "routes_in C (pr_shared st)" and "length (pr_buf st) = 1500" and "len \<le> 1500"
    and claim: "5 \<le> len \<Longrightarrow> first_byte st = 0 \<or> first_byte st = 1 \<Longrightarrow> C (id_text (remote_id st)) (route_from key 10 64)"
    and "peer_datagram env my len key st = (r, st')"
  shows "routes_in C (pr_shared st') \<and> length (pr_buf st') = 1500"
proof (cases "0 < len \<and> (first_byte st = 255 \<or> first_byte st = 252 \<or> first_byte st = 254) \<or> len < 5")
  case True
  with assms(2-4,6) show ?thesis
    by (auto simp: peer_datagram_eq coordinate_eq split: if_splits option.splits)
next
  case False
  let ?st = "st\<lparr>pr_shared := after_learning env key st,
    pr_texts := (if first_byte st = 1 then pr_texts st @ [take (len - 4) (drop 4 (pr_buf st))] else pr_texts st)\<rparr>"
  have "greet env my (id_text (remote_id st)) ?st = (r, st')"
    using False assms(3,4,6) by (auto simp: peer_datagram_eq)
  moreover have "routes_in C (after_learning env key st)"
  proof (cases "first_byte st = 0 \<or> first_byte st = 1")
    case True
    with False have "C (id_text (remote_id st)) (route_from key 10 64)" by (intro claim) auto
    from learn_route_keeps [OF assms(1,2) this] True show ?thesis by (simp add: after_learning_def)
  qed (use assms(2) in \<open>simp add: after_learning_def\<close>)
  then have "routes_in C (pr_shared ?st)" by simp
  moreover have "pr_buf ?st = pr_buf st" by simp
  ultimately show ?thesis
    using greet_keeps [OF assms(1), of C ?st] assms(3) by metis
qed

text \<open>
  A hello or data message that one of the calls of \<^verbatim>\<open>recv_from\<close> returned, from the address and on the socket that the
  key of the route names, with the id it carries.
\<close>

definition claimed :: "nat \<Rightarrow> peer_env list \<Rightarrow> peer_id \<Rightarrow> route \<Rightarrow> bool" where
  "claimed fuel es i r \<longleftrightarrow>
     (\<exists>env data t ch sh ch' sh' n udp. env \<in> set es \<and>
        recv_from fuel (pe_recv env) 0 0 ch sh = Some (Ok (data, route_key r), t, ch', sh') \<and>
        os_recv (pe_recv env) n udp = Inr (data, r_addr r) \<and>
        (r_index r = DEFAULT_TOKEN_INDEX \<and> udp = ch_default_udp ch' \<or> vec_get (udp_list ch') (r_index r) = Some udp) \<and>
        5 \<le> length data \<and> (data ! 0 = 0 \<or> data ! 0 = 1) \<and>
        i = id_text (u32_from_be (take 4 (drop 1 data))) \<and> r = route_from (route_key r) 10 64)"

lemma receive_loop_routes:
  assumes "\<forall>env \<in> set es. others_only env" and "set es \<subseteq> set all" and "routes_in (claimed fuel all) (pr_shared st)"
    and "length (pr_buf st) = 1500" and "receive_loop fuel my es st = Some (e, st')"
  shows "routes_in (claimed fuel all) (pr_shared st')"
  using assms
proof (induction es arbitrary: st)
  case (Cons env es)
  let ?C = "claimed fuel all"
  obtain q t ch sh where rf: "recv_from fuel (pe_recv env) 0 0 (pr_channel st) (pr_shared st) = Some (q, t, ch, sh)"
    using Cons.prems(5) by (auto split: option.splits)
  have sh: "routes_in ?C sh"
    using recv_from_keeps [OF recv_keeps_routes Cons.prems(3) rf] Cons.prems(1) by (simp add: others_only_def)
  show ?case
  proof (cases q)
    case (Ok dk)
    obtain data key where dk: "dk = (data, key)" by (cases dk)
    obtain len buf where rb: "receive_into (pr_buf st) data = (len, buf)" by fastforce
    let ?st = "st\<lparr>pr_channel := ch, pr_shared := sh, pr_buf := buf\<rparr>"
    obtain r1 st1 where pd: "peer_datagram env my len key ?st = (r1, st1)" by fastforce
    have buf: "length buf = 1500" "len \<le> 1500"
      using rb Cons.prems(4) by (auto simp: receive_into_def)
    have "?C (id_text (remote_id ?st)) (route_from key 10 64)"
      if "5 \<le> len" "first_byte ?st = 0 \<or> first_byte ?st = 1"
    proof -
      have "5 \<le> length data" and "buf ! 0 = data ! 0" and "take 4 (drop 1 buf) = take 4 (drop 1 data)"
        using that(1) rb Cons.prems(4) by (auto simp: receive_into_def nth_append drop_take)
      moreover obtain n udp where "os_recv (pe_recv env) n udp = Inr (data, rk_addr key)"
        and "rk_index key = DEFAULT_TOKEN_INDEX \<and> udp = ch_default_udp ch \<or> vec_get (udp_list ch) (rk_index key) = Some udp"
        using recv_from_genuine [OF rf] by (auto simp: genuine_def Ok dk)
      moreover have "env \<in> set all" using Cons.prems(2) by simp
      moreover have "r_addr (route_from key 10 64) = rk_addr key" "r_index (route_from key 10 64) = rk_index key"
        by (simp_all add: route_from_def)
      ultimately show ?thesis
        using that(2) rf unfolding claimed_def route_key_from remote_id_def first_byte_def Ok dk
        by (intro exI [of _ env] exI [of _ data] exI [of _ t] exI [of _ "pr_channel st"] exI [of _ "pr_shared st"]
            exI [of _ ch] exI [of _ sh] exI [of _ n] exI [of _ udp]) simp
    qed
    then have st1: "routes_in ?C (pr_shared st1)" "length (pr_buf st1) = 1500"
      using peer_datagram_keeps_routes [OF _ _ _ buf(2) _ pd, of ?C] sh buf(1) Cons.prems(1) by simp_all
    show ?thesis
    proof (cases r1)
      case r1: (Ok u)
      then have "receive_loop fuel my es st1 = Some (e, st')"
        using Cons.prems(5) rf Ok dk rb pd by simp
      with Cons.IH [of st1] Cons.prems(1,2) st1 show ?thesis by simp
    qed (use Cons.prems(5) rf Ok dk rb pd st1 in auto)
  qed (use Cons.prems(5) rf sh in auto)
qed simp

subsection \<open>Every route was claimed\<close>

lemma only_member: "set xs = {x} \<Longrightarrow> distinct xs \<Longrightarrow> xs = [x]"
  by (cases xs; cases "tl xs") auto

text \<open>When all threads run there is no route yet.\<close>

lemma report_keeps_routes:
  assumes "report_to_server send fuel env my peer server buf ch sh = Some (Ok (), buf', ch', sh')"
    and "\<And>k s. others_do s (snd (os_poll env k s))" and "routes_in C sh"
  shows "routes_in C sh'" and "length buf' = length buf"
proof -
  obtain addr where server: "server = Some addr" using assms(1) by (auto simp: report_to_server_def split: option.splits)
  obtain r0 sh0 where sent: "channel_send_to_addr send ch (report_message my peer) addr sh = (r0, sh0)" by fastforce
  have "others_do sh sh0" using beats [of sh send ch "report_message my peer" addr] by (simp add: sent)
  then have sh0: "routes_in C sh0" using assms(3) others_fewer routes_in_fewer by blast
  obtain x where "r0 = Ok x" using assms(1) server sent by (cases r0) (auto simp: report_to_server_def)
  then obtain data key t where rf: "recv_from fuel env 0 0 ch sh0 = Some (Ok (data, key), t, ch', sh')"
    and buf: "buf' = snd (receive_into buf data)"
    using assms(1) server sent
    by (auto simp: report_to_server_def Let_def split: option.splits outcome.splits prod.splits if_splits)
  show "routes_in C sh'" using recv_from_keeps [OF recv_keeps_routes [OF assms(2)] sh0 rf] .
  show "length buf' = length buf" by (simp add: buf)
qed

lemma peer_main_no_routes:
  assumes "peer_main os shuf bounded stun parse others send fuel env args = Some (Ok m, sh)"
    and "\<And>s. others_do s (others s)" and "\<And>k s. others_do s (snd (os_poll env k s))"
  shows "routes_in (\<lambda>_ _. False) (pr_shared (pm_receive m))" and "length (pr_buf (pm_receive m)) = 1500"
proof -
  obtain sh0 buf channel sh1 where start: "peer_start os shuf bounded stun = (Ok (pm_parts m), sh0)"
    and report: "report_to_server send fuel env (ar_id args) (ar_peer_id args) (parse (ar_server args))
      (replicate 1500 0) (pp_channel (pm_parts m)) (others sh0) = Some (Ok (), buf, channel, sh1)"
    and clone: "channel_try_clone (os 6) channel sh1 = (Ok (pm_heart m), sh)"
    and m: "pm_receive m = \<lparr>pr_channel = channel, pr_shared = sh, pr_buf = buf, pr_greeted = False,
      pr_requests = [], pr_texts = []\<rparr>"
    using assms(1) by (rule peer_main_OkE)
  have "tables sh0 = tables_new"
    using peer_start_quiet [of os shuf bounded stun] start by (simp add: quiet_def shared_new_def)
  then have "routes_in (\<lambda>_ _. False) sh0"
    by (simp add: routes_in_def tables_ok_new) (simp add: route_of_def tables_new_def)
  then have "routes_in (\<lambda>_ _. False) (others sh0)"
    using assms(2) others_fewer routes_in_fewer by blast
  from report_keeps_routes [OF report assms(3) this]
  have sh1: "routes_in (\<lambda>_ _. False) sh1" and "length buf = 1500" by simp_all
  moreover have "others_do sh1 sh" using clones [of sh1 "os 6" channel] clone by simp
  moreover have "routes_in (\<lambda>_ _. False) sh"
    using routes_in_fewer [OF others_fewer] \<open>others_do sh1 sh\<close> sh1 by blast
  ultimately show "routes_in (\<lambda>_ _. False) (pr_shared (pm_receive m))" and "length (pr_buf (pm_receive m)) = 1500"
    by (simp_all add: m)
qed

text \<open>
  C21: Every route of a running peer was claimed. From the start of \<^verbatim>\<open>main\<close> on, with the other threads doing whatever
  their operations allow at every moment, every route in the tables was opened by a hello or data message that the receive
  thread got in one of its rounds: from the address, and on the socket, that the key of the route names, under the id the
  message carries, with metric 10 and time 64. Nothing else behind that key has a route: the id is alone in the list of
  the key, so an idle report of it names one id only, and \<^verbatim>\<open>id[0]\<close> is all there is to take out.
\<close>

theorem routes_are_claimed:
  assumes "peer_main os shuf bounded stun parse others send fuel env args = Some (Ok m, sh)"
    and "\<And>s. others_do s (others s)" and "\<And>k s. others_do s (snd (os_poll env k s))"
    and "\<forall>env \<in> set es. others_only env"
    and "receive_loop fuel' (ar_id args) es (pm_receive m) = Some (e, st)"
    and "route_of i (tables (pr_shared st)) = Some r"
  shows "claimed fuel' es i r \<and> ids_behind (route_key r) (tables (pr_shared st)) = [i]"
proof -
  note start = peer_main_no_routes [OF assms(1-3)]
  have "routes_in (claimed fuel' es) (pr_shared (pm_receive m))"
    using start(1) by (auto simp: routes_in_def)
  from receive_loop_routes [OF assms(4) subset_refl this start(2) assms(5)]
  have inv: "routes_in (claimed fuel' es) (pr_shared st)" .
  then have ok: "tables_ok (tables (pr_shared st))" and "claimed fuel' es i r"
    using assms(6) by (auto simp: routes_in_def)
  have "set (ids_behind (route_key r) (tables (pr_shared st))) = {i}"
    using inv assms(6) by (auto simp: rs.members_iff [OF ok] routes_in_def)
  moreover have "distinct (ids_behind (route_key r) (tables (pr_shared st)))" by (rule rs.members_distinct [OF ok])
  ultimately have "ids_behind (route_key r) (tables (pr_shared st)) = [i]" by (simp add: only_member)
  with \<open>claimed fuel' es i r\<close> show ?thesis by simp
qed

theorem routes_are_claimed_witness:
  "\<exists>m e st. fst sample_main = Ok m \<and>
     receive_loop 1 1 [sample_peer_env\<lparr>pe_recv := always_receives (0 # u32_to_be 9)\<rparr>] (pm_receive m) = Some (e, st) \<and>
     ids_behind (RouteKey DEFAULT_TOKEN_INDEX (SockV4 7 8)) (tables (pr_shared st)) = [id_text 9]"
proof -
  let ?env = "sample_peer_env\<lparr>pe_recv := always_receives (0 # u32_to_be 9)\<rparr>"
  let ?k = "RouteKey DEFAULT_TOKEN_INDEX (SockV4 7 8)"
  obtain m sh where main: "peer_main (\<lambda>n. sample_os 5 n) (\<lambda>xs. xs) (\<lambda>_. [] :: (peer_id \<times> nat_info) list)
      (fst (stun_test_nat True Linux sample_order (sample_lib []) sample_net STUN_SERVERS None []))
      (\<lambda>_. Some (SockV4 7 3000)) (\<lambda>sh. sh) (\<lambda>h s b a. Inr 1) (Suc 0) (always_receives [252]) sample_args = Some (Ok m, sh)"
    using peer_main_runs [OF sample_main_conditions(1) permutes_id sample_order_ok _ sample_main_conditions(2,3),
      where parse = "\<lambda>_. Some (SockV4 7 3000)" and addr = "SockV4 7 3000" and bounded = "\<lambda>_. [] :: (peer_id \<times> nat_info) list" and chk = True and
        pf = Linux and lib = "sample_lib []" and net = sample_net and h = "[]" and fuel = 0 and args = sample_args] by blast
  have polls: "others_do s (snd (os_poll (always_receives d) k s))" for d k s
    by (simp add: always_receives_def sample_env_def)
  note start = peer_main_no_routes [OF main _ polls]
  let ?st = "pm_receive m"
  have inv: "routes_in (\<lambda>_ _. False) (pr_shared ?st)" and len: "length (pr_buf ?st) = 1500"
    using start by simp_all
  obtain t sh1 where rf: "recv_from 1 (pe_recv ?env) 0 0 (pr_channel ?st) (pr_shared ?st) =
      Some (Ok (0 # u32_to_be 9, ?k), t, pr_channel ?st, sh1)"
    and sh1: "tables sh1 = touch_read ?k (os_clock (pe_recv ?env) 0) (tables (pr_shared ?st))"
    by (simp add: recv_round_def udp_recv_def always_receives_def)
  obtain n buf where rb: "receive_into (pr_buf ?st) (0 # u32_to_be 9 @ []) = (n, buf)" by fastforce
  let ?st1 = "?st\<lparr>pr_shared := sh1\<rparr>"
  obtain r st where pd: "peer_datagram ?env 1 n ?k (?st1\<lparr>pr_buf := buf\<rparr>) = (r, st)" by fastforce
  have "routes_in (\<lambda>_ _. False) sh1" using inv by (simp add: routes_in_def sh1 tables_ok_touch)
  then have "tables_ok (tables sh1)" "route_to_id ?k (tables sh1) = None"
    by (simp_all add: routes_in_def rs.first_None_iff)
  then have "route_of (id_text 9) (tables (pr_shared st)) = Some (route_from ?k 10 64)"
    using hello_handled [where st = ?st1 and env = ?env and b = 0 and payload = "[]" and key = ?k, OF _ _ _ _ _ _ _ _ pd]
      rb len by (simp add: undisturbed_def sample_peer_env_def route_socket_def)
  moreover obtain e where run: "receive_loop 1 1 [?env] ?st = Some (e, st)"
    using rf rb pd by (cases r) (auto simp del: recv_from.simps)
  moreover have "\<forall>env \<in> set [?env]. others_only env"
    using polls by (simp add: others_only_def sample_peer_env_def)
  ultimately have "ids_behind ?k (tables (pr_shared st)) = [id_text 9]"
    using routes_are_claimed [OF main _ polls, of "[?env]" 1 e st "id_text 9" "route_from ?k 10 64"]
    by (simp add: sample_args_def)
  with main run show ?thesis by auto
qed

end
