(* ===== verification/Peer_Idle.thy ===== *)
theory Peer_Idle
  imports Peer_Props
begin

section \<open>The idle thread of the peer program\<close>

text \<open>
  \<^verbatim>\<open>Idle::next_idle\<close> and \<^verbatim>\<open>Channel::remove_route\<close> together: the thread takes out one id for each report, so
  the reports come back until every peer behind an idle key is gone, and no other.
\<close>

definition key_idle :: "idle \<Rightarrow> i64 \<Rightarrow> 'id tables \<Rightarrow> route_key \<Rightarrow> bool" where
  "key_idle idl now t k \<longleftrightarrow> (\<exists>e. direct_route_table_time t k = Some e \<and> idle_kind idl now e \<noteq> None)"

definition pair_idle :: "idle \<Rightarrow> i64 \<Rightarrow> 'id tables \<Rightarrow> 'id \<times> route \<Rightarrow> bool" where
  "pair_idle idl now t p \<longleftrightarrow> key_idle idl now t (route_key (snd p))"

text \<open>A round in which nothing but the idle thread happens, at a given time.\<close>

definition still_round :: "i64 \<Rightarrow> 'id idle_env \<times> ('id shared \<Rightarrow> 'id shared) \<Rightarrow> bool" where
  "still_round now r \<longleftrightarrow> iterates_in_order (ie_iter (fst r)) \<and> ie_now (fst r) 0 = now \<and> snd r = (\<lambda>sh. sh)"

lemma key_idle_remove:
  assumes "store_rel l t" and "map_of l i = Some r" and "ids_at k (spec_remove i l) \<noteq> []"
  shows "key_idle idl now (remove_route i t) k = key_idle idl now t k"
proof -
  have t: "direct_route_table t i = Some r" using assms(1,2) by (simp add: store_rel_def)
  show ?thesis
  proof (cases "k = route_key r")
    case False
    with t show ?thesis
      by (simp add: key_idle_def remove_route_def clock_of_remove_id)
  next
    case True
    have "i \<in> set (ids_at k l)"
      using assms(1,2) True by (auto simp: store_rel_def set_ids_at)
    then obtain e where e: "direct_route_table_time t k = Some e" "te_ids e = ids_at k l"
      using assms(1) by (cases "direct_route_table_time t k")
        (auto simp: store_rel_def times_rel_None dest: times_rel_Some)
    have "filter (\<lambda>v. v \<noteq> i) (te_ids e) \<noteq> []"
      using assms(3) by (simp add: e spec_remove_def ids_at_filter)
    with t e(1) True show ?thesis
      by (simp add: key_idle_def remove_route_def remove_id_route_def Let_def idle_kind_def)
  qed
qed

lemma pair_in_ids_at: "p \<in> set l \<Longrightarrow> ids_at (route_key (snd p)) l \<noteq> []"
  by (auto simp: ids_at_def filter_empty_conv)

lemma filter_one_less:
  "distinct (map fst l) \<Longrightarrow> (i, r) \<in> set l \<Longrightarrow> P (i, r) \<Longrightarrow>
   length (filter P l) = Suc (length (filter P (filter (\<lambda>p. fst p \<noteq> i) l)))"
proof (induction l)
  case Nil
  then show ?case by simp
next
  case (Cons p l)
  show ?case
  proof (cases "fst p = i")
    case True
    with Cons.prems have "p = (i, r)"
      by (metis eq_key_imp_eq_value list.set_intros(1) prod.collapse)
    moreover have "filter (\<lambda>p. fst p \<noteq> i) l = l"
      using Cons.prems(1) True by (intro filter_True) (auto simp: image_iff)
    ultimately show ?thesis using Cons.prems(3) by simp
  next
    case False
    with Cons show ?thesis by auto
  qed
qed

lemma filter_idle_after:
  assumes "store_rel l t" and "map_of l i = Some r" and "key_idle idl now t (route_key r)"
  shows "length (filter (pair_idle idl now t) l) =
      Suc (length (filter (pair_idle idl now (remove_route i t)) (spec_remove i l)))"
    and "filter (\<lambda>p. \<not> pair_idle idl now (remove_route i t) p) (spec_remove i l) =
      filter (\<lambda>p. \<not> pair_idle idl now t p) l"
proof -
  have d: "distinct (map fst l)" and mem: "(i, r) \<in> set l"
    using assms(1,2) by (auto simp: store_rel_def dest: map_of_SomeD)
  have same: "pair_idle idl now (remove_route i t) p = pair_idle idl now t p" if "p \<in> set (spec_remove i l)" for p
    unfolding pair_idle_def using key_idle_remove [OF assms(1,2) pair_in_ids_at [OF that]] .
  have "length (filter (pair_idle idl now t) l) = Suc (length (filter (pair_idle idl now t) (spec_remove i l)))"
    unfolding spec_remove_def using d mem assms(3) by (intro filter_one_less) (auto simp: pair_idle_def)
  with same show "length (filter (pair_idle idl now t) l) =
      Suc (length (filter (pair_idle idl now (remove_route i t)) (spec_remove i l)))"
    by (simp cong: filter_cong)
  have "fst p \<noteq> i" if "p \<in> set l" "\<not> pair_idle idl now t p" for p
    using that d mem assms(3) eq_key_imp_eq_value [OF d, of i r "snd p"] by (auto simp: pair_idle_def)
  then have "filter (\<lambda>p. \<not> pair_idle idl now t p) (spec_remove i l) = filter (\<lambda>p. \<not> pair_idle idl now t p) l"
    unfolding spec_remove_def filter_filter by (intro filter_cong refl) blast
  with same show "filter (\<lambda>p. \<not> pair_idle idl now (remove_route i t) p) (spec_remove i l) =
      filter (\<lambda>p. \<not> pair_idle idl now t p) l"
    by (simp cong: filter_cong)
qed

text \<open>One round of the thread.\<close>

lemma idle_round_evicts:
  assumes "store_rel l (tables sh)" and "limits_fit idl now" and "still_round now r"
    and "filter (pair_idle idl now (tables sh)) l \<noteq> []"
  shows "\<exists>i q. map_of l i = Some q \<and> key_idle idl now (tables sh) (route_key q) \<and>
    idle_loop (Suc fuel) chk idl (r # es) sh = idle_loop (Suc fuel) chk idl es (channel_remove_route i sh)"
proof -
  obtain env where r: "r = (env, \<lambda>sh. sh)" "iterates_in_order (ie_iter env)" "ie_now env 0 = now"
    using assms(3) by (cases r) (auto simp: still_round_def)
  have ok: "tables_ok (tables sh)" using assms(1) by (auto simp: tables_ok_def)
  obtain p where "p \<in> set l" "pair_idle idl now (tables sh) p"
    using assms(4) by (auto simp: filter_empty_conv)
  then obtain key0 e0 where e0: "direct_route_table_time (tables sh) key0 = Some e0" "idle_kind idl now e0 \<noteq> None"
    unfolding pair_idle_def key_idle_def by blast
  have fit: "limits_fit idl (ie_now env 0)" using assms(2) r(3) by simp
  obtain st ids key where round: "idle_round chk env idl 0 sh = (Some (Ok (st, ids, key)), None, sh)"
    using idle_round_finds [OF fit r(2) ok e0(1)] e0(2) r(3) by blast
  from idle_round_report [OF fit r(2) ok round] obtain e where
    e: "direct_route_table_time (tables sh) key = Some e" "ids = te_ids e" "idle_kind idl now e = Some st"
    using r(3) by blast
  have ids: "ids = ids_at key l" "ids \<noteq> []"
    using assms(1) e by (auto simp: store_rel_def dest: times_rel_Some)
  then have "hd ids \<in> set (ids_at key l)" by simp
  then obtain q where q: "map_of l (hd ids) = Some q" "route_key q = key"
    using assms(1) by (auto simp: store_rel_def set_ids_at)
  have "key_idle idl now (tables sh) (route_key q)"
    using q(2) e by (simp add: key_idle_def)
  moreover have "idle_loop (Suc fuel) chk idl (r # es) sh =
      idle_loop (Suc fuel) chk idl es (channel_remove_route (hd ids) sh)"
    using ids(2) by (cases ids) (simp_all add: r(1) round)
  ultimately show ?thesis using q(1) by blast
qed

lemma no_idle_pair:
  assumes "store_rel l t" and "filter (pair_idle idl now t) l = []"
  shows "\<not> key_idle idl now t k"
proof
  assume idle: "key_idle idl now t k"
  then have "ids_at k l \<noteq> []"
    using assms(1) by (auto simp: key_idle_def store_rel_def dest: times_rel_Some)
  then obtain p where "p \<in> set l" "route_key (snd p) = k"
    by (auto simp: ids_at_def filter_empty_conv)
  with idle assms(2) show False by (auto simp: pair_idle_def filter_empty_conv)
qed

lemma idle_sweep_store:
  assumes "store_rel l (tables sh)" and "limits_fit idl now"
    and "length es = length (filter (pair_idle idl now (tables sh)) l)" and "\<forall>r \<in> set es. still_round now r"
  shows "\<exists>t. idle_loop (Suc fuel) chk idl es sh = Some (Waiting, sh\<lparr>tables := t\<rparr>) \<and>
    store_rel (filter (\<lambda>p. \<not> pair_idle idl now (tables sh) p) l) t \<and> (\<forall>k. \<not> key_idle idl now t k)"
  using assms(1,3,4)
proof (induction es arbitrary: l sh)
  case Nil
  then have "filter (pair_idle idl now (tables sh)) l = []" by simp
  moreover from this have "filter (\<lambda>p. \<not> pair_idle idl now (tables sh) p) l = l"
    by (intro filter_True) (auto simp: filter_empty_conv)
  ultimately show ?case
    using Nil.prems(1) no_idle_pair [OF Nil.prems(1)] by (intro exI [of _ "tables sh"]) simp
next
  case (Cons r es)
  have "filter (pair_idle idl now (tables sh)) l \<noteq> []"
    using Cons.prems(2) by auto
  from idle_round_evicts [OF Cons.prems(1) assms(2) _ this, of r fuel chk es] Cons.prems(3) obtain i q where
    i: "map_of l i = Some q" "key_idle idl now (tables sh) (route_key q)"
    and step: "idle_loop (Suc fuel) chk idl (r # es) sh = idle_loop (Suc fuel) chk idl es (channel_remove_route i sh)"
    by auto
  let ?sh = "channel_remove_route i sh"
  have t: "tables ?sh = remove_route i (tables sh)" "?sh\<lparr>tables := x\<rparr> = sh\<lparr>tables := x\<rparr>" for x
    by (simp_all add: channel_remove_route_def)
  note after = filter_idle_after [OF Cons.prems(1) i]
  have "store_rel (spec_remove i l) (tables ?sh)"
    unfolding t using Cons.prems(1) by (rule store_rel_remove)
  from Cons.IH [OF this] after Cons.prems(2,3) show ?case
    unfolding step t by simp
qed

text \<open>
  C15: The idle thread evicts exactly the idle peers. If at some time \<open>k\<close> peers are behind keys that are idle
  and nothing else happens, then \<open>k\<close> rounds, one report and one removal each, take out these \<open>k\<close> peers
  and nobody else, oldest first behind each key; the remaining peers keep their routes and their
  order, and no key is idle any more. Each report returns at once, in the first round of \<^verbatim>\<open>next_idle\<close>,
  and \<^verbatim>\<open>id[0]\<close> never panics.
\<close>

theorem idle_thread_evicts_exactly:
  assumes "store_rel l (tables sh)" and "limits_fit idl now"
    and "length es = length (filter (pair_idle idl now (tables sh)) l)"
    and "\<forall>r \<in> set es. still_round now r"
  shows "\<exists>sh'. idle_loop (Suc fuel) chk idl es sh = Some (Waiting, sh') \<and>
    store_rel (filter (\<lambda>p. \<not> pair_idle idl now (tables sh) p) l) (tables sh') \<and>
    (\<forall>k e. direct_route_table_time (tables sh') k = Some e \<longrightarrow> idle_kind idl now e = None) \<and>
    sh' = sh\<lparr>tables := tables sh'\<rparr>"
proof -
  obtain t where "idle_loop (Suc fuel) chk idl es sh = Some (Waiting, sh\<lparr>tables := t\<rparr>)"
    "store_rel (filter (\<lambda>p. \<not> pair_idle idl now (tables sh) p) l) t" "\<forall>k. \<not> key_idle idl now t k"
    using idle_sweep_store [OF assms] by blast
  then show ?thesis by (intro exI [of _ "sh\<lparr>tables := t\<rparr>"]) (auto simp: key_idle_def)
qed

definition shared_route :: "peer_id shared" where
  "shared_route = (shared_new StCone)\<lparr>tables :=
     add_route (id_text 2) (route_new 0 (SockV4 9 9) 1 1) 50
       (add_route (id_text 1) (route_new 0 (SockV4 9 9) 1 1) 50 tables_new)\<rparr>"

theorem idle_thread_evicts_exactly_witness:
  "\<exists>sh'. idle_loop 1 True (idle_new 30 0) (replicate 2 (calm (\<lambda>_. 90), \<lambda>sh. sh)) shared_route = Some (Waiting, sh') \<and>
     store_rel [] (tables sh')"
proof -
  let ?r = "route_new 0 (SockV4 9 9) 1 1"
  let ?l = "spec_add (id_text 2) ?r (spec_add (id_text 1) ?r [])"
  have l: "?l = [(id_text 1, ?r), (id_text 2, ?r)]"
    by (simp add: spec_add_def)
  have rel: "store_rel ?l (tables shared_route)"
    unfolding shared_route_def by (simp add: store_rel_add store_rel_new)
  have tt: "direct_route_table_time (tables shared_route) (RouteKey 0 (SockV4 9 9)) =
      Some \<lparr>te_ids = [id_text 1, id_text 2], te_read = 50, te_write = 50\<rparr>"
    by (simp add: shared_route_def add_route_def tables_new_def Let_def route_key_def route_new_def)
  have idle: "pair_idle (idle_new 30 0) 90 (tables shared_route) (i, ?r)" for i
    using tt by (auto simp: pair_idle_def key_idle_def route_key_def route_new_def idle_kind_def idle_new_def)
  have still: "\<forall>r \<in> set (replicate 2 (calm (\<lambda>_. 90), \<lambda>sh. sh)). still_round 90 r"
    by (auto simp: still_round_def)
  have "length (replicate 2 (calm (\<lambda>_. 90), \<lambda>sh. sh)) =
      length (filter (pair_idle (idle_new 30 0) 90 (tables shared_route)) ?l)"
    by (simp add: l idle)
  from idle_thread_evicts_exactly [OF rel sample_limits this still, of 0 True] show ?thesis
    by (auto simp: l idle)
qed

end
