(* ===== verification/Peer_Exit.thy ===== *)
theory Peer_Exit
  imports Peer_Routes Peer_Idle
begin

section \<open>The end of the peer program\<close>

text \<open>
  After Ctrl-C \<^verbatim>\<open>main\<close> closes the channel and drops its clone; here is what the loops of the threads do from then on,
  on every state that the steps of all threads can lead to. A trigger thread does not look at the status: it ends
  when a queue refuses its request (\<open>busy_trigger_ends\<close>).
\<close>

subsection \<open>Closing\<close>

definition peer_close :: "os_sockets \<Rightarrow> channel \<Rightarrow> 'id shared \<Rightarrow> unit outcome \<times> 'id shared" where
  "peer_close os chanel3 sh =
     and_then (unwrap (channel_close os sh)) (\<lambda>_ sh. (Ok (), channel_drop chanel3 sh))"

lemma wake_all_woken:
  "wake_all os ws sh = (Ok (), sh') \<Longrightarrow> woken sh' = woken sh \<union> snd ` set ws"
  by (induction os ws sh rule: wake_all.induct) (auto split: option.splits)

lemma wake_all_status [simp]: "status (snd (wake_all os ws sh)) = status sh"
  by (induction os ws sh rule: wake_all.induct) (auto split: option.split)

lemma peer_close_ok:
  assumes "peer_close os ch sh = (Ok (), sh')"
  shows "status sh' = StClose" and "\<forall>w \<in> set (change_waker_list sh). snd w \<in> woken sh'" and "parked_token sh'"
proof -
  obtain sh1 where w: "wake_all os (change_waker_list sh) (unpark (sh\<lparr>status := StClose\<rparr>)) = (Ok (), sh1)"
    and sh': "sh' = channel_drop ch sh1"
    using assms unfolding peer_close_def channel_close_def
    by (cases rule: unwrap.cases [of "wake_all os (change_waker_list sh) (unpark (sh\<lparr>status := StClose\<rparr>))"]) auto
  obtain v where "sh1 = unpark (sh\<lparr>status := StClose\<rparr>)\<lparr>woken := v\<rparr>"
    using wake_all_frame [OF w] by blast
  then show "status sh' = StClose" and "parked_token sh'"
    by (simp_all add: sh' channel_drop_def unpark_def)
  show "\<forall>w \<in> set (change_waker_list sh). snd w \<in> woken sh'"
    using wake_all_woken [OF w] by (simp add: sh' channel_drop_def)
qed

text \<open>
  One step of any thread on the shared state: those of the others, and those of the receive thread, which learns
  routes, sends its greeting, stores read clocks and changes its sockets.
\<close>

inductive thread_step :: "'id shared \<Rightarrow> 'id shared \<Rightarrow> bool" where
  other: "other_step sh sh' \<Longrightarrow> thread_step sh sh'"
| learns: "thread_step sh (channel_add_route i r now sh)"
| greets: "thread_step sh (snd (channel_send_to_id os now ch buf i sh))"
| reads: "thread_step sh (sh\<lparr>tables := touch_read k now (tables sh)\<rparr>)"
| changes: "thread_step sh (snd (snd (change os ch sh)))"

lemma status_try_clone: "status sh = StClose \<Longrightarrow> status (snd (channel_try_clone os ch sh)) = StClose"
  by (auto simp: channel_try_clone_def Let_def lift_sum_def lift_opt_def change_closed split: sum.split option.split)

lemma other_step_closed: "other_step sh sh' \<Longrightarrow> status sh = StClose \<Longrightarrow> status sh' = StClose"
proof (induction rule: other_step.induct)
  case (clones sh os ch)
  then show ?case by (rule status_try_clone)
next
  case (punches sh chk os shuf buf i info p)
  then show ?case by (simp add: punch_def sender_is_close_def)
qed (simp_all add: channel_remove_route_def channel_send_to_addr_def channel_is_close_def channel_close_def unpark_def
    channel_drop_def)


lemma thread_steps_closed: "thread_step\<^sup>*\<^sup>* sh sh' \<Longrightarrow> status sh = StClose \<Longrightarrow> status sh' = StClose"
proof (induction rule: rtranclp_induct)
  case (step s s')
  from step.hyps(2) step.IH [OF step.prems] show ?case
    by (induction rule: thread_step.induct)
      (auto simp: other_step_closed channel_add_route_def unpark_def channel_send_to_id_def channel_send_to_route_def
        Let_def change_closed split: option.split prod.split)
qed

subsection \<open>The loops on the closed channel\<close>

lemma punch_loop_closed:
  assumes "status sh = StClose" and "next_req qs = (r, qs')" and "r \<noteq> Panic"
  shows "punch_loop next_req chk os shuf me (others # es) p (qs, sh) = (Stopped, p, qs', sh)"
  using assms by (cases r) (auto simp: punch_def sender_is_close_def)

lemma spawn_triggers_closed:
  assumes "status sh = StClose"
  shows "\<exists>sh'. spawn_triggers (answer # answers) ch (req # reqs) sh = (Panicked, [], sh')"
proof -
  have "fst (channel_try_clone answer ch sh) \<noteq> Ok c" for c
    by (rule try_clone_closed [OF assms])
  then show ?thesis
    by (cases "channel_try_clone answer ch sh"; cases "fst (channel_try_clone answer ch sh)") auto
qed

lemma receive_loop_closed:
  assumes "\<And>t u. blocks (pe_recv env) t u" and "os_poll (pe_recv env) 0 (pr_shared st) = (Inr es, sh)"
    and "CHANGE_TOKEN \<in> set es" and "status sh = StClose"
  shows "receive_loop (Suc fuel) me (env # envs) st = Some (Stopped, st\<lparr>pr_shared := sh\<rparr>)"
proof -
  obtain t' where "recv_from (Suc fuel) (pe_recv env) 0 0 (pr_channel st) (pr_shared st) =
      Some (Err (IoError Other ''channel close''), t', pr_channel st, sh)"
    using closed_receiver_stops [OF assms] by blast
  then show ?thesis by (simp del: recv_from.simps)
qed

text \<open>
  C26: Closing reaches the threads. When \<^verbatim>\<open>main\<close> has closed the channel, every poll with a waker is woken and the idle
  thread has its token. From then on, whatever steps the threads take, the channel stays closed, and each loop ends
  where it next looks at it: the heartbeat thread in its next round, without sending; a punch thread at the next
  request it is given, without sending, or when its queue is disconnected; the thread of the requests at the next
  request, by a panic and without starting a thread; and the receive thread in the round in which its sockets
  are silent and its poll reports the wake-up.
\<close>

theorem closing_ends_threads:
  assumes "peer_close os chanel3 sh0 = (Ok (), sh)" and "thread_step\<^sup>*\<^sup>* sh s"
  shows "parked_token sh \<and> (\<forall>w \<in> set (change_waker_list sh0). snd w \<in> woken sh) \<and> status s = StClose \<and>
    heartbeat_loop send ch (f # fs) s = (Stopped, s) \<and>
    (next_req qs = (r, qs') \<and> r \<noteq> Panic \<longrightarrow>
       punch_loop next_req chk send shuf me (g # gs) p (qs, s) = (Stopped, p, qs', s)) \<and>
    (\<exists>s'. spawn_triggers (answer # answers) ch (req # reqs) s = (Panicked, [], s')) \<and>
    ((\<forall>t u. blocks (pe_recv env) t u) \<and> pr_shared st = s \<and>
       os_poll (pe_recv env) 0 s = (Inr es, s1) \<and> CHANGE_TOKEN \<in> set es \<and> thread_step\<^sup>*\<^sup>* s s1 \<longrightarrow>
       receive_loop (Suc fuel) me (env # envs) st = Some (Stopped, st\<lparr>pr_shared := s1\<rparr>))"
proof (intro conjI impI)
  note closed = peer_close_ok [OF assms(1)]
  show "parked_token sh" and "\<forall>w \<in> set (change_waker_list sh0). snd w \<in> woken sh"
    using closed(3,2) by simp_all
  show s: "status s = StClose" using thread_steps_closed [OF assms(2) closed(1)] .
  show "heartbeat_loop send ch (f # fs) s = (Stopped, s)"
    using s by (simp add: channel_send_to_addr_def channel_is_close_def)
  show "punch_loop next_req chk send shuf me (g # gs) p (qs, s) = (Stopped, p, qs', s)"
    if "next_req qs = (r, qs') \<and> r \<noteq> Panic"
    using punch_loop_closed [OF s] that by blast
  show "\<exists>s'. spawn_triggers (answer # answers) ch (req # reqs) s = (Panicked, [], s')"
    by (rule spawn_triggers_closed [OF s])
  show "receive_loop (Suc fuel) me (env # envs) st = Some (Stopped, st\<lparr>pr_shared := s1\<rparr>)"
    if "(\<forall>t u. blocks (pe_recv env) t u) \<and> pr_shared st = s \<and> os_poll (pe_recv env) 0 s = (Inr es, s1) \<and>
      CHANGE_TOKEN \<in> set es \<and> thread_step\<^sup>*\<^sup>* s s1"
    using that thread_steps_closed [OF _ s, of s1] by (intro receive_loop_closed) auto
qed

subsection \<open>The idle thread on the closed channel\<close>







subsection \<open>Witnesses\<close>

text \<open>A poll that reports its wake-up, and nothing to receive.\<close>

definition woken_env :: peer_env where
  "woken_env = sample_peer_env\<lparr>pe_recv := (sample_env 0 0 [] [[CHANGE_TOKEN]])\<lparr>os_recv := \<lambda>_ _. Inl (IoError WouldBlock [])\<rparr>\<rparr>"

theorem closing_ends_threads_witness:
  "\<exists>sh. peer_close (sample_os 5 0) (sample_channel 5 0) ((shared_new StCone)\<lparr>change_waker_list := [(0, 0), (1, 3)]\<rparr>) = (Ok (), sh) \<and>
     woken sh = {0, 3} \<and>
     (let s = channel_remove_route (id_text 4) sh; qs = \<lparr>cone_queue = (), symmetric_queue = ()\<rparr>;
          st = sample_peer\<lparr>pr_shared := s\<rparr> in
      heartbeat_loop (\<lambda>h s b a. Inr 1) (sample_channel 5 3) [\<lambda>sh. sh] s = (Stopped, s) \<and>
      (\<forall>p. punch_loop (\<lambda>qs. (Ok (id_text 7, trigger_info NatCone (IpV4 1) 1), qs)) True (\<lambda>h s b a. Inr 1) (\<lambda>xs. xs) 1
         [\<lambda>w. w] p (qs, s) = (Stopped, p, qs, s)) \<and>
      receive_loop (Suc 0) 1 [woken_env] st = Some (Stopped, st))"
proof -
  let ?sh0 = "(shared_new StCone)\<lparr>change_waker_list := [(0, 0), (1, 3)]\<rparr> :: peer_id shared"
  obtain sh where run: "peer_close (sample_os 5 0) (sample_channel 5 0) ?sh0 = (Ok (), sh)" and woken: "woken sh = {0, 3}"
    by (simp add: peer_close_def channel_close_def unpark_def shared_new_def channel_drop_def insert_commute)
  let ?s = "channel_remove_route (id_text 4) sh" and ?qs = "\<lparr>cone_queue = (), symmetric_queue = ()\<rparr>"
  let ?st = "sample_peer\<lparr>pr_shared := ?s\<rparr>" and ?req = "(id_text 7, trigger_info NatCone (IpV4 1) 1)"
  have step: "thread_step\<^sup>*\<^sup>* sh ?s"
    by (intro r_into_rtranclp thread_step.other evicts)
  have env: "\<forall>t u. blocks (pe_recv woken_env) t u" "os_poll (pe_recv woken_env) 0 ?s = (Inr [CHANGE_TOKEN], ?s)"
    by (simp_all add: woken_env_def blocks_def sample_env_def)
  note ends = closing_ends_threads [OF run step, where send = "\<lambda>h s b a. Inr 1" and ch = "sample_channel 5 3" and f = "\<lambda>sh. sh" and fs = "[]"
      and next_req = "\<lambda>qs. (Ok ?req, qs)" and qs = ?qs and qs' = ?qs and r = "Ok ?req" and chk = True and shuf = "\<lambda>xs. xs"
      and me = 1 and g = "\<lambda>w. w" and gs = "[]" and answer = "sample_os 5 0" and answers = "[]" and req = "(IpV4 1, 1, 1)" and reqs = "[]"
      and env = woken_env and st = ?st and es = "[CHANGE_TOKEN]" and ?s1.0 = ?s and fuel = 0 and envs = "[]"]
  have "heartbeat_loop (\<lambda>h s b a. Inr 1) (sample_channel 5 3) [\<lambda>sh. sh] ?s = (Stopped, ?s)"
    using ends [of undefined] by (elim conjE)
  moreover have "punch_loop (\<lambda>qs. (Ok ?req, qs)) True (\<lambda>h s b a. Inr 1) (\<lambda>xs. xs) 1 [\<lambda>w. w] p (?qs, ?s) = (Stopped, p, ?qs, ?s)" for p
    using ends [of p] by (elim conjE) simp
  moreover have "receive_loop (Suc 0) 1 [woken_env] ?st = Some (Stopped, ?st)"
    using ends [of undefined] env by (elim conjE) (simp del: receive_loop.simps)
  ultimately show ?thesis using run woken by (simp add: Let_def del: receive_loop.simps heartbeat_loop.simps punch_loop.simps)
qed


end
