(* ===== verification/Spec2Isabelle.thy ===== *)
theory Spec2Isabelle
  imports Route_Clocks Idle_Live Server_Props Peer_Connect Peer_Exit
begin

text \<open>
  \<^bold>\<open>A verification of \<^verbatim>\<open>p2p_channel\<close>.\<close> The program is a Rust library for peer-to-peer UDP with NAT
  traversal. Paths below are relative to the repository.

  \<^bold>\<open>The program's parts.\<close> A \<^verbatim>\<open>Channel\<close> (\<^verbatim>\<open>src/channel/mod.rs\<close>) owns a UDP socket and, behind a symmetric
  NAT, a list of further sockets. Clones of a channel, \<^verbatim>\<open>Sender\<close>s (\<^verbatim>\<open>src/channel/sender.rs\<close>), the
  \<^verbatim>\<open>Punch\<close> object (\<^verbatim>\<open>src/punch/mod.rs\<close>) and the \<^verbatim>\<open>Idle\<close> object (\<^verbatim>\<open>src/idle/mod.rs\<close>) share, through
  \<^verbatim>\<open>Arc\<close>s, the status, the list of sockets, two route tables, the list of wakers and a parker. A change
  of the NAT type or a close is made in the shared status; each channel follows it when its waker fires
  in \<^verbatim>\<open>recv_from\<close>, which calls \<^verbatim>\<open>change\<close>. Requests to punch a hole go through two bounded queues from
  \<^verbatim>\<open>Channel::punch\<close> to \<^verbatim>\<open>Punch\<close>, which sends through a \<^verbatim>\<open>Sender\<close>. \<^verbatim>\<open>Idle\<close> scans the table of route
  times that receiving and sending keep up to date. \<^verbatim>\<open>src/stun/\<close> asks STUN servers for the public
  address and the NAT type. \<^verbatim>\<open>src/boot/mod.rs\<close> puts the parts together. Three programs under
  \<^verbatim>\<open>examples/\<close> use the library: \<^verbatim>\<open>server.rs\<close> brings peers together that report each other's id,
  \<^verbatim>\<open>peer.rs\<close> is a peer made of threads around the library's calls, \<^verbatim>\<open>check_nat.rs\<close> prints the NAT type.

  \<^bold>\<open>The theories.\<close>
  \<^item> \<^theory_text>\<open>Prelude\<close>: machine integers, outcomes (value, \<^verbatim>\<open>io::Error\<close> or panic), the \<^verbatim>\<open>?\<close> operator
    (\<open>and_then\<close>, \<open>bind_outcome\<close>), checked arithmetic (the argument \<open>chk\<close> is the build's
    \<^verbatim>\<open>overflow-checks\<close>), iteration orders, reachability.
  \<^item> \<^theory_text>\<open>Net_Types\<close>: addresses of \<^verbatim>\<open>std::net\<close> with their derived order.
  \<^item> \<^theory_text>\<open>Routes\<close>: \<^verbatim>\<open>Route\<close>, \<^verbatim>\<open>RouteKey\<close>, the two tables and \<^verbatim>\<open>add_route_\<close>, \<^verbatim>\<open>update_route_\<close>,
    \<^verbatim>\<open>remove_route_\<close>, \<^verbatim>\<open>remove_id_route_\<close>, \<^verbatim>\<open>route_\<close>, \<^verbatim>\<open>route_to_id_\<close>, \<^verbatim>\<open>route_table_\<close>,
    \<^verbatim>\<open>update_time\<close>; the abstract store, one list of (id, route) pairs in order of joining, and the
    simulation lemma of every operation.
  \<^item> \<^theory_text>\<open>Route_Store\<close>: the contract of a route store as the locale \<open>route_store\<close>, interpreted
    on the tables (\<open>rs\<close>); refinement of every sequence of operations; the invariant between the tables.
    \<^theory_text>\<open>Route_Clocks\<close>: the activity clocks of the keys join the abstract state, of which the tables are then a
    function; the contract with clocks, \<open>clocked_store\<close>, interpreted on the same operations (\<open>cs\<close>).
  \<^item> \<^theory_text>\<open>Interleaving\<close>, \<^theory_text>\<open>Interleaving_Props\<close>: the same operations access by access, by any number of threads,
    as a step relation: \<^verbatim>\<open>add_route_\<close> and \<^verbatim>\<open>remove_route_\<close> under \<^verbatim>\<open>lock\<close>, the rest without it, entries as
    nodes that outlive their key. Threads wait for \<^verbatim>\<open>lock\<close>, for the mutex of an id list, and for the shard of the id
    table whose entry \<^verbatim>\<open>send_to_id\<close> keeps while it sends; there is no deadlock. It justifies the atomic operations of
    the other theories, and shows where readers see more than they do.
  \<^item> \<^theory_text>\<open>Send_All\<close>: both implementations of \<^verbatim>\<open>SendAll\<close>; the locale \<open>datagram_sender\<close>, interpreted
    on each.
  \<^item> \<^theory_text>\<open>Sender\<close>: the shared state and \<^verbatim>\<open>Sender\<close>; the locale \<open>address_sender\<close> (sending to one address
    reaches only that address, from given sockets), interpreted on \<^verbatim>\<open>send_to_addr\<close> (\<open>one\<close>),
    \<^verbatim>\<open>send_to_addr_all\<close> (\<open>every\<close>) and the choice that \<^verbatim>\<open>punch_\<close> makes between them (\<open>pun\<close>).
  \<^item> \<^theory_text>\<open>Nat_Info\<close>: \<^verbatim>\<open>NatType\<close> and \<^verbatim>\<open>NatInfo\<close>.
  \<^item> \<^theory_text>\<open>Channel\<close>: \<^verbatim>\<open>Channel\<close> but for the receive loop. \<^theory_text>\<open>Channel_Sync\<close>: any number of channels as a
    step relation, in which \<^verbatim>\<open>change\<close> is two steps (it loads the status, then acts on it) and a wake-up is first taken
    by the poll of its channel and then either handled or dropped behind a datagram (\<open>missed\<close>), and the
    invariants. \<^theory_text>\<open>Channel_Props\<close>: their properties.
  \<^item> \<^theory_text>\<open>Recv\<close>: \<^verbatim>\<open>recv_from\<close>.
  \<^item> \<^theory_text>\<open>Idle\<close>: \<^verbatim>\<open>next_idle\<close>, its scan on one state of the table. \<^theory_text>\<open>Idle_Live\<close>: the scan access by access, on the memory
    that any number of steps of \<^theory_text>\<open>Interleaving\<close> change between any two of its accesses, under a clock that does not go
    back: what it reports was true when the entry was handed out, what stays idle is found, and it is the scan of \<^theory_text>\<open>Idle\<close>
    when nothing changes.
  \<^item> \<^theory_text>\<open>Punch\<close>, \<^theory_text>\<open>Punch_Props\<close>: \<^verbatim>\<open>Punch\<close>, its loops as one list of targets (\<open>spray\<close>), and the properties.
  \<^item> \<^theory_text>\<open>Boot\<close>: \<^verbatim>\<open>Boot::new\<close> and what it establishes.
  \<^item> \<^theory_text>\<open>Stun_Socket\<close>: \<^verbatim>\<open>src/stun/socket/\<close>, sockets as scripts of system calls on three platforms.
  \<^item> \<^theory_text>\<open>Stun\<close>, \<^theory_text>\<open>Stun_Props\<close>: \<^verbatim>\<open>src/stun/mod.rs\<close>.
  \<^item> \<^theory_text>\<open>Messages\<close>: the encodings that the example programs share (ids as four bytes, addresses as text)
    with their round trips, as interpretations of the locales \<open>coding\<close> and \<open>strict_coding\<close>, and receiving into
    a buffer that is never cleared.
  \<^item> \<^theory_text>\<open>Server\<close>, \<^theory_text>\<open>Server_Props\<close>: \<^verbatim>\<open>examples/server.rs\<close> and the abstract rendezvous it refines.
  \<^item> \<^theory_text>\<open>Peer\<close>: every thread of \<^verbatim>\<open>examples/peer.rs\<close> as a loop over its rounds, on the library's model.
    \<^theory_text>\<open>Peer_Props\<close>: the receive thread; \<^theory_text>\<open>Peer_Threads\<close>: the report and the heartbeats; \<^theory_text>\<open>Peer_Punch\<close>: from the server through the trigger threads to punch datagrams;
    \<^theory_text>\<open>Peer_Idle\<close>: the idle thread; \<^theory_text>\<open>Peer_Start\<close>: the start of the peer, and \<^verbatim>\<open>examples/check_nat.rs\<close>;
    \<^theory_text>\<open>Peer_Main\<close>: \<^verbatim>\<open>main\<close> from the arguments to the running threads; \<^theory_text>\<open>Peer_Routes\<close>: what the other
    threads can do to the state they share with the receive thread, as a step relation that their loops are shown to
    keep to, and the invariant that every route was claimed by a received message;
    \<^theory_text>\<open>Peer_Connect\<close>: from the reports of two peers through the server and the threads to the open route;
    \<^theory_text>\<open>Peer_Exit\<close>: the loops of the threads after the close.

  \<^bold>\<open>How the code is modelled.\<close> A struct is a record, an enum a datatype, a \<^verbatim>\<open>u16\<close>, \<^verbatim>\<open>u32\<close>, \<^verbatim>\<open>u64\<close>,
  \<^verbatim>\<open>u128\<close> or \<^verbatim>\<open>i64\<close> a word of that width (\<^verbatim>\<open>i64\<close> read and compared as signed), a \<^verbatim>\<open>usize\<close> a natural
  number. State is passed explicitly; the state behind the \<^verbatim>\<open>Arc\<close>s is the record \<open>shared\<close>. What the
  program asks of the outside (the system's answers to socket calls and polls, the clock, the
  shuffle and the random generator, what other threads do while a call waits, the order in which a
  hash map is iterated) is an argument, an arbitrary function unless a property names what it
  relies on: \<open>os_reliable\<close>, \<open>iterates_in_order\<close>, \<open>permutes\<close>, \<open>queue_laws\<close>, \<open>order_ok\<close> state the documented
  behaviour of the system, the skip list, the shuffle, the crossbeam channels and the hash sets. The
  datagrams and system calls of a run are recorded in order. Concurrent maps are finite maps, and an
  operation that holds the program's mutex is one step; \<open>locked_operation_atomic\<close> and
  \<open>interleaved_consistent\<close> show that the tables do not tell the difference.

  \<^bold>\<open>Fuel.\<close> Two loops of the program may run for ever: \<open>recv_from\<close> and \<open>next_idle\<close> take fuel, one unit
  for each round, and give \<open>None\<close> when it is used up. \<open>recv_from_returns_by_timeout\<close> and
  \<open>closed_ends_idle\<close> say how much is enough; \<open>idle_spins_without_limits\<close> is a case where no amount is.
  The threads of the example programs are functions of the list of their rounds (what they receive,
  what the others do in between), so that they are total; a round that calls \<open>recv_from\<close> or
  \<open>next_idle\<close> hands the fuel on. All other loops are total functions.

  \<^bold>\<open>What the properties show.\<close> The route tables are a function of the abstract store and its clocks, and stay consistent under every
  sequence of operations, and under every interleaving of their single accesses, where no thread
  can block another for good. Sending goes to the right address from the right sockets with at most
  eleven attempts. In every reachable state of any number of channels each channel has its own waker,
  closing is final and wakes everyone, and channels with no wake-up pending, taken or missed agree on their
  sockets as long as \<^verbatim>\<open>change\<close> runs undisturbed. What is received is genuine and attributed to the right socket.
  The idle reports are exact, and true when the entry was read when other threads come in between. A punch request sends what it should; the guesses are in the window; the
  ports of the list are a permutation. The NAT detection always ends, its report is a function of the
  addresses seen, its traffic is bounded. The server refines an abstract rendezvous and speaks only its
  protocol; two peers that report each other are told to punch each other's address, a punch request
  made from that goes there, the punch datagram opens a route back at the other end, and the idle
  thread takes out exactly the idle peers. Every route of a peer was claimed by a message it received, and no two
  ids share a key. After the close each loop of the peer ends where it next looks at the channel, the idle thread
  within one round more than there are routes. Several properties state behaviour that a reader of the
  code would not expect: wakers left behind, a list left half filled, a race in \<^verbatim>\<open>change\<close>, wake-ups lost
  behind datagrams, idle routes reported late, a loop that spins, ports that are never tried, a panic
  on a peer's zeros, a second STUN address that is dropped, ids taken over by
  one-byte reports, empty lists of ids read while a peer moves, and the datagrams that kill the threads of a peer.

  \<^bold>\<open>Not modelled.\<close> The module declarations of \<^verbatim>\<open>src/lib.rs\<close>, log messages (but for the texts that a peer
  receives), the parsing of the command line, the Ctrl-C handler and the joins at the end of \<^verbatim>\<open>main\<close> of
  \<^verbatim>\<open>examples/peer.rs\<close> (so that nothing is said of when the whole program is over), the context strings of \<^verbatim>\<open>anyhow\<close> errors, the memory order of the atomics, a wall clock that is set
  back (in \<^theory_text>\<open>Idle_Live\<close> only), and the inside of the crates. \<^theory_text>\<open>Idle\<close> and \<^theory_text>\<open>Peer_Idle\<close>
  take the scan of \<^verbatim>\<open>next_idle\<close> as one step; \<^theory_text>\<open>Idle_Live\<close> says what is left of that when other threads come in between.
\<close>

end
